(* ===== verification/Prelude.thy ===== *)
theory Prelude
  imports Main "HOL-Library.Word"
begin

text \<open>
  Shared vocabulary of the development: the machine integers of the kernel, the
  collections of rewrite rules the component theories extend, and the facts on words,
  lists and options that more than one component needs.
\<close>

unbundle bit_operations_syntax

section \<open>Machine integers and memory\<close>

type_synonym u8 = "8 word"
type_synonym u16 = "16 word"
type_synonym u32 = "32 word"
type_synonym u64 = "64 word"

text \<open>
  The kernel runs in one flat 64-bit address space; an access through a pointer is an
  access to this function, and pointer arithmetic wraps as it does on the machine.
\<close>

type_synonym memory = "u64 \<Rightarrow> u8"

named_theorems word_facts
named_theorems mem_simps
named_theorems lock_simps

section \<open>Words\<close>

lemma unat_inc [word_facts]:
  fixes i n :: "'a::len word"
  assumes "i < n"
  shows "unat (i + 1) = Suc (unat i)"
proof -
  have "i \<noteq> - 1"
    using assms word_order.extremum_strict by blast
  then have "1 + i \<noteq> 0"
    by (metis add.commute eq_neg_iff_add_eq_0)
  then show ?thesis
    by (simp add: add.commute unatSuc)
qed

lemma less_inc [word_facts]:
  fixes i n :: "'a::len word"
  assumes "i < n"
  shows "i < i + 1"
  using unat_inc [OF assms] by (simp add: word_less_nat_alt)

lemma word_from_inc:
  fixes i n d :: "'a::len word"
  assumes "i < n"
  shows "i \<le> d \<and> d < n \<longleftrightarrow> d = i \<or> i + 1 \<le> d \<and> d < n"
  using assms unat_inc [OF assms]
  by (simp add: word_le_nat_alt word_less_nat_alt word_unat_eq_iff) linarith

lemma word_below_dec:
  fixes i d :: "'a::len word"
  assumes "0 < i"
  shows "d < i \<longleftrightarrow> d = i - 1 \<or> d < i - 1"
proof -
  have "unat (i - 1) = unat i - 1" "0 < unat i"
    using assms by (auto simp: unat_minus_one unat_gt_0 word_gt_0)
  then show ?thesis
    by (simp add: word_less_nat_alt word_unat_eq_iff) linarith
qed

lemma unat_of_nat_u64 [simp]: "k < 2 ^ 64 \<Longrightarrow> unat (of_nat k :: u64) = k"
  by (simp add: unat_of_nat take_bit_eq_mod)

lemma unat_diff_Suc:
  fixes a p :: "'a::len word"
  assumes "a - p \<noteq> 0"
  shows "unat (a - p) = Suc (unat (a - (p + 1)))"
proof -
  have "unat (a - p - 1) = unat (a - p) - 1" using assms by (rule unat_minus_one)
  moreover have "0 < unat (a - p)" using assms unat_gt_0 by blast
  ultimately show ?thesis by (simp only: diff_diff_eq)
qed

lemma of_nat_mod_u64: "of_nat (k mod 2 ^ 64) = (of_nat k :: u64)"
  by (rule word_unat_eq_iff [THEN iffD2]) (simp add: unat_of_nat)

lemma u64_add_diff_cancel [simp]: "(p + k) - p = (k :: u64)"
  by simp

lemma unat_u64_less: "unat (w :: u64) < 2 ^ 64"
  using unsigned_less [of w, where 'a = nat] by simp

lemma u64_eq_add_iff: "a = p + k \<longleftrightarrow> a - p = (k :: u64)"
  by (auto simp: algebra_simps)

end
