(* ===== verification/Memory.thy ===== *)
theory Memory
  imports Prelude
begin

text \<open>
  Regions of the flat memory and the typed loads and stores the compiled kernel makes:
  a \<open>uint64_t\<close> access is eight little-endian bytes.
\<close>

section \<open>Regions\<close>

text \<open>The \<open>n\<close> bytes from \<open>p\<close> on; the region may wrap around the end of the address space.\<close>

definition region :: "u64 \<Rightarrow> u64 \<Rightarrow> u64 set" where
  "region p n = {a. a - p < n}"

lemma in_region_iff [mem_simps]: "a \<in> region p n \<longleftrightarrow> a - p < n"
  by (simp add: region_def)

lemma region_offset [mem_simps]: "p + i \<in> region p n \<longleftrightarrow> i < n"
  by (simp add: region_def)

lemma region_0 [simp]: "region p 0 = {}"
  by (simp add: region_def)

lemma region_disjoint_offsets:
  assumes "region p n \<inter> region q k = {}" and "i < n" and "j < k"
  shows "p + i \<noteq> q + j"
  using assms by (metis IntI empty_iff region_offset)

lemma region_subset_disjoint:
  "region p n \<inter> S = {} \<Longrightarrow> region p' n' \<subseteq> region p n \<Longrightarrow> region p' n' \<inter> S = {}"
  by blast

text \<open>Regions at two places behind an address.\<close>

lemma region_at:
  assumes "x \<in> region (p + of_nat c) (of_nat d)" and "c + d \<le> 2 ^ 64"
  shows "c \<le> unat (x - p)" and "unat (x - p) < c + d"
proof -
  define y where "y = x - (p + of_nat c)"
  have "unat (of_nat d :: u64) \<le> d" by (simp add: unat_of_nat)
  then have y: "unat y < d" using assms(1) by (simp add: in_region_iff y_def word_less_nat_alt)
  have c: "unat (of_nat c :: u64) = c" using assms(2) y by (intro unat_of_nat_u64) linarith
  have "unat (of_nat c :: u64) + unat y < 2 ^ LENGTH(64)" using assms(2) y by (simp add: c)
  then have "unat (of_nat c + y) = c + unat y" by (metis c unat_add_lem)
  moreover have "of_nat c + y = x - p" by (simp add: y_def)
  ultimately show "c \<le> unat (x - p)" and "unat (x - p) < c + d" using y by simp_all
qed

lemma region_apart:
  assumes "a + n \<le> b" and "b + k \<le> 2 ^ 64"
  shows "region (p + of_nat a) (of_nat n) \<inter> region (p + of_nat b) (of_nat k) = {}"
proof -
  have "a + n \<le> 2 ^ 64" using assms by simp
  then have "unat (x - p) < b" if "x \<in> region (p + of_nat a) (of_nat n)" for x
    using region_at(2) [OF that] assms(1) by simp
  moreover have "b \<le> unat (x - p)" if "x \<in> region (p + of_nat b) (of_nat k)" for x
    using that assms(2) by (rule region_at(1))
  ultimately show ?thesis by fastforce
qed

lemma region_inside:
  assumes "c + d \<le> n" and "n < 2 ^ 64"
  shows "region (p + of_nat c) (of_nat d) \<subseteq> region p (of_nat n)"
proof
  fix x assume "x \<in> region (p + of_nat c) (of_nat d)"
  then have "unat (x - p) < c + d" using assms by (intro region_at(2)) simp_all
  moreover have "unat (of_nat n :: u64) = n" using assms(2) by (rule unat_of_nat_u64)
  ultimately have "unat (x - p) < unat (of_nat n :: u64)" using assms(1) by simp
  then show "x \<in> region p (of_nat n)" by (simp only: in_region_iff word_less_nat_alt)
qed

definition bytes_at :: "memory \<Rightarrow> u64 \<Rightarrow> nat \<Rightarrow> u8 list" where
  "bytes_at m p n = map (\<lambda>i. m (p + of_nat i)) [0..<n]"

text \<open>The bytes of a string literal.\<close>

definition lit :: "string \<Rightarrow> u8 list" where
  "lit cs = map of_char cs"

section \<open>Byte stores\<close>

definition store8 :: "u64 \<Rightarrow> u8 \<Rightarrow> memory \<Rightarrow> memory" where
  "store8 p v m = m(p := v)"

lemma store8_apply: "store8 p v m a = (if a = p then v else m a)"
  by (simp add: store8_def)

section \<open>Little-endian loads and stores\<close>

primrec read_le :: "nat \<Rightarrow> memory \<Rightarrow> u64 \<Rightarrow> u64" where
  "read_le 0 m p = 0"
| "read_le (Suc k) m p = ucast (m p) OR push_bit 8 (read_le k m (p + 1))"

primrec write_le :: "nat \<Rightarrow> u64 \<Rightarrow> u64 \<Rightarrow> memory \<Rightarrow> memory" where
  "write_le 0 p v m = m"
| "write_le (Suc k) p v m = write_le k (p + 1) (drop_bit 8 v) (m(p := ucast v))"

lemma write_le_apply:
  "k \<le> 2 ^ 63 \<Longrightarrow> write_le k p v m a =
     (if unat (a - p) < k then ucast (drop_bit (8 * unat (a - p)) v) else m a)"
proof (induction k arbitrary: p v m)
  case 0
  then show ?case by simp
next
  case (Suc k)
  show ?case
  proof (cases "a = p")
    case True
    have "unat (- 1 :: u64) = 2 ^ 64 - 1" by (simp add: unsigned_minus_1_eq_mask mask_eq_exp_minus_1)
    with True Suc show ?thesis by simp
  next
    case False
    then have "a - p \<noteq> 0" by simp
    then have u: "unat (a - p) = Suc (unat (a - (p + 1)))"
      by (rule unat_diff_Suc)
    have "k \<le> 2 ^ 63" using Suc.prems by simp
    note IH = Suc.IH [OF this, of "p + 1" "drop_bit 8 v" "m(p := ucast v)"]
    have d: "drop_bit (8 * unat (a - (p + 1))) (drop_bit 8 v) = drop_bit (8 * unat (a - p)) v"
      unfolding u by (simp only: drop_bit_drop_bit mult_Suc_right add.commute)
    show ?thesis
      unfolding write_le.simps IH d
      by (simp only: u Suc_less_eq fun_upd_def False if_False)
  qed
qed

lemma read_le_cong:
  "(\<And>i. i < k \<Longrightarrow> m (p + of_nat i) = m' (p + of_nat i)) \<Longrightarrow> read_le k m p = read_le k m' p"
proof (induction k arbitrary: p)
  case 0
  then show ?case by simp
next
  case (Suc k)
  have "m p = m' p" using Suc.prems [of 0] by simp
  moreover have "read_le k m (p + 1) = read_le k m' (p + 1)"
  proof (rule Suc.IH)
    fix i assume "i < k"
    then show "m (p + 1 + of_nat i) = m' (p + 1 + of_nat i)"
      using Suc.prems [of "Suc i"] by (simp add: algebra_simps)
  qed
  ultimately show ?case by simp
qed

lemma join_low_byte:
  "ucast (ucast v :: u8) OR push_bit 8 (take_bit k (drop_bit 8 v)) = take_bit (k + 8) (v :: u64)"
proof (rule bit_word_eqI)
  fix n
  assume "n < LENGTH(64)"
  show "bit (ucast (ucast v :: u8) OR push_bit 8 (take_bit k (drop_bit 8 v))) n =
        bit (take_bit (k + 8) v) n"
  proof (cases "n < 8")
    case True
    then show ?thesis by (auto simp: bit_simps)
  next
    case False
    then obtain j where "n = 8 + j" by (metis le_Suc_ex not_less)
    with \<open>n < LENGTH(64)\<close> show ?thesis by (auto simp: bit_simps)
  qed
qed

lemma read_le_bytes:
  "(\<And>i. i < k \<Longrightarrow> m (p + of_nat i) = ucast (drop_bit (8 * i) v)) \<Longrightarrow>
   read_le k m p = take_bit (8 * k) v"
proof (induction k arbitrary: p v)
  case 0
  then show ?case by simp
next
  case (Suc k)
  have "m p = ucast v" using Suc.prems [of 0] by simp
  moreover have "read_le k m (p + 1) = take_bit (8 * k) (drop_bit 8 v)"
  proof (rule Suc.IH)
    fix i assume "i < k"
    then show "m (p + 1 + of_nat i) = ucast (drop_bit (8 * i) (drop_bit 8 v))"
      using Suc.prems [of "Suc i"] by (simp add: algebra_simps drop_bit_drop_bit)
  qed
  ultimately show ?case using join_low_byte [of v "8 * k"] by (simp add: add.commute)
qed

lemma read_le_write_le:
  assumes "k \<le> 2 ^ 63"
  shows "read_le k (write_le k p v m) p = take_bit (8 * k) v"
  by (rule read_le_bytes) (use assms in \<open>simp add: write_le_apply\<close>)

text \<open>The \<open>uint64_t\<close> accesses.\<close>

definition read64 :: "memory \<Rightarrow> u64 \<Rightarrow> u64" where
  "read64 m p = read_le 8 m p"

definition write64 :: "u64 \<Rightarrow> u64 \<Rightarrow> memory \<Rightarrow> memory" where
  "write64 p v m = write_le 8 p v m"

lemma read64_write64_same [mem_simps]: "read64 (write64 p v m) p = v"
  by (simp add: read64_def write64_def read_le_write_le take_bit_word_eq_self del: read_le.simps write_le.simps)

lemma write64_outside [mem_simps]: "a \<notin> region p 8 \<Longrightarrow> write64 p v m a = m a"
  by (simp add: write64_def write_le_apply region_def word_less_nat_alt del: write_le.simps)

lemma read64_cong:
  assumes "\<And>a. a \<in> region p 8 \<Longrightarrow> m a = m' a"
  shows "read64 m p = read64 m' p"
  unfolding read64_def
proof (rule read_le_cong)
  fix i :: nat assume "i < 8"
  then show "m (p + of_nat i) = m' (p + of_nat i)"
    by (intro assms) (simp add: region_def word_less_nat_alt)
qed

lemma read64_write64_disjoint [mem_simps]:
  "region p 8 \<inter> region q 8 = {} \<Longrightarrow> read64 (write64 p v m) q = read64 m q"
  by (rule read64_cong) (auto intro: write64_outside)

lemma read64_zero: "(\<And>a. a \<in> region p 8 \<Longrightarrow> m a = 0) \<Longrightarrow> read64 m p = 0"
proof -
  assume z: "\<And>a. a \<in> region p 8 \<Longrightarrow> m a = 0"
  have "read_le 8 m p = take_bit (8 * 8) 0"
  proof (rule read_le_bytes)
    fix i :: nat assume "i < 8"
    then show "m (p + of_nat i) = ucast (drop_bit (8 * i) 0)"
      by (subst z) (simp_all add: region_def word_less_nat_alt)
  qed
  then show ?thesis by (simp add: read64_def)
qed

text \<open>Two distinct cells of the same eight-byte grid do not overlap.\<close>

lemma region8_disjoint:
  assumes "8 \<le> q - p" and "8 \<le> p - q"
  shows "region p 8 \<inter> region q 8 = {}"
proof -
  have False if "a - p < 8" "a - q < 8" for a
    using assms that by uint_arith
  then show ?thesis by (auto simp: region_def)
qed

end
