(* ===== verification/Spinlock.thy ===== *)
theory Spinlock
  imports Memory
begin

text \<open>
  The machine every component runs on, its interrupt flag (\<open>src/kernel/int.hpp\<close>,
  \<open>int.cpp\<close>) and the spinlock (\<open>src/kernel/lock.cpp\<close>). The machine record is
  extended by each component with the component's static variables, so that an operation
  of one component applies to the state of every component built on it.
\<close>

section \<open>The machine\<close>

text \<open>
  \<open>hhdm_offset\<close>, \<open>virtual_base\<close> and \<open>physical_base\<close> are the bootloader's responses
  that \<open>requests.hpp\<close> names.
\<close>

record machine =
  mem :: memory
  rflags :: u64
  hhdm_offset :: u64
  virtual_base :: u64
  physical_base :: u64

text \<open>Bit 9 of the flags register: \<open>sti\<close> sets it, \<open>cli\<close> clears it.\<close>

definition enable_interrupts :: "'a machine_scheme \<Rightarrow> 'a machine_scheme" where
  "enable_interrupts s = s\<lparr>rflags := set_bit 9 (rflags s)\<rparr>"

definition disable_interrupts :: "'a machine_scheme \<Rightarrow> 'a machine_scheme" where
  "disable_interrupts s = s\<lparr>rflags := unset_bit 9 (rflags s)\<rparr>"

definition interrupts_enabled :: "'a machine_scheme \<Rightarrow> bool" where
  "interrupts_enabled s \<longleftrightarrow> bit (rflags s) 9"

lemma disable_interrupts_off [lock_simps]: "\<not> interrupts_enabled (disable_interrupts s)"
  by (simp add: interrupts_enabled_def disable_interrupts_def bit_simps)

lemma enable_interrupts_on [lock_simps]: "interrupts_enabled (enable_interrupts s)"
  by (simp add: interrupts_enabled_def enable_interrupts_def bit_simps)

lemma flags_restored: "bit r 9 \<Longrightarrow> set_bit 9 (unset_bit 9 r) = (r :: u64)"
  by (rule bit_word_eqI) (auto simp: bit_simps)

lemma flags_unchanged: "\<not> bit r 9 \<Longrightarrow> unset_bit 9 r = (r :: u64)"
  by (rule bit_word_eqI) (auto simp: bit_simps)

section \<open>The spinlock\<close>

record spinlock =
  locked :: bool
  restore_interrupts :: bool

text \<open>
  A lock is a field of the state: \<open>lk\<close> reads it and \<open>upd\<close> updates it. The wait loop
  tests and sets the field until it was clear; on the one processor the kernel starts,
  with its interrupts off, nothing else runs meanwhile, and a loop on a held lock has the
  value \<open>None\<close>.
\<close>

partial_function (option) spin ::
  "('a machine_scheme \<Rightarrow> spinlock) \<Rightarrow>
   ((spinlock \<Rightarrow> spinlock) \<Rightarrow> 'a machine_scheme \<Rightarrow> 'a machine_scheme) \<Rightarrow>
   'a machine_scheme \<Rightarrow> 'a machine_scheme option" where
  "spin lk upd s =
     (let old = locked (lk s); s = upd (\<lambda>l. l\<lparr>locked := True\<rparr>) s
      in if old then spin lk upd s else Some s)"

declare spin.simps [code]

definition acquire ::
  "('a machine_scheme \<Rightarrow> spinlock) \<Rightarrow>
   ((spinlock \<Rightarrow> spinlock) \<Rightarrow> 'a machine_scheme \<Rightarrow> 'a machine_scheme) \<Rightarrow>
   'a machine_scheme \<Rightarrow> 'a machine_scheme option" where
  "acquire lk upd s =
     (let s = upd (\<lambda>l. l\<lparr>restore_interrupts := interrupts_enabled s\<rparr>) s;
          s = disable_interrupts s
      in spin lk upd s)"

definition release ::
  "('a machine_scheme \<Rightarrow> spinlock) \<Rightarrow>
   ((spinlock \<Rightarrow> spinlock) \<Rightarrow> 'a machine_scheme \<Rightarrow> 'a machine_scheme) \<Rightarrow>
   'a machine_scheme \<Rightarrow> 'a machine_scheme" where
  "release lk upd s =
     (let s = upd (\<lambda>l. l\<lparr>locked := False\<rparr>) s
      in if restore_interrupts (lk s) then enable_interrupts s else s)"

section \<open>What a lock field promises its users\<close>

text \<open>
  The contract of a lock field, and the facts a critical section rests on: taking a free
  lock succeeds and closes the interrupts, taking a held one never returns, and releasing
  gives back the interrupt flag that was found.
\<close>

locale lock_field =
  fixes lk :: "'a machine_scheme \<Rightarrow> spinlock"
    and upd :: "(spinlock \<Rightarrow> spinlock) \<Rightarrow> 'a machine_scheme \<Rightarrow> 'a machine_scheme"
  assumes get_upd: "lk (upd f s) = f (lk s)"
    and upd_upd: "upd f (upd g s) = upd (f \<circ> g) s"
    and upd_same: "f (lk s) = lk s \<Longrightarrow> upd f s = s"
    and upd_cong: "f (lk s) = g (lk s) \<Longrightarrow> upd f s = upd g s"
    and flags_upd: "rflags (upd f s) = rflags s"
    and get_flags: "lk (s\<lparr>rflags := r\<rparr>) = lk s"
    and upd_flags: "upd f (s\<lparr>rflags := r\<rparr>) = (upd f s)\<lparr>rflags := r\<rparr>"
begin

lemma spin_free:
  "\<not> locked (lk s) \<Longrightarrow> spin lk upd s = Some (upd (\<lambda>l. l\<lparr>locked := True\<rparr>) s)"
  by (simp add: spin.simps Let_def)

lemma spin_returns_free: "spin lk upd s = Some t \<Longrightarrow> \<not> locked (lk s)"
proof -
  have "lk' = lk \<and> upd' = upd \<longrightarrow> \<not> locked (lk' s)" if "spin lk' upd' s = Some t" for lk' upd' s t
  proof (rule spin.raw_induct [where P = "\<lambda>lk' upd' s t. lk' = lk \<and> upd' = upd \<longrightarrow>
      \<not> locked (lk' s)", OF _ that])
    fix f :: "('a machine_scheme \<Rightarrow> spinlock) \<Rightarrow>
      ((spinlock \<Rightarrow> spinlock) \<Rightarrow> 'a machine_scheme \<Rightarrow> 'a machine_scheme) \<Rightarrow>
      'a machine_scheme \<Rightarrow> 'a machine_scheme option" and lk' upd' s t
    assume IH: "\<And>lk' upd' s t. f lk' upd' s = Some t \<Longrightarrow>
        lk' = lk \<and> upd' = upd \<longrightarrow> \<not> locked (lk' s)"
      and eq: "(let old = locked (lk' s); s = upd' (\<lambda>l. l\<lparr>locked := True\<rparr>) s
        in if old then f lk' upd' s else Some s) = Some t"
    show "lk' = lk \<and> upd' = upd \<longrightarrow> \<not> locked (lk' s)"
    proof (intro impI notI)
      assume e: "lk' = lk \<and> upd' = upd" and l: "locked (lk' s)"
      then have "f lk upd (upd (\<lambda>l. l\<lparr>locked := True\<rparr>) s) = Some t"
        using eq by (simp add: Let_def)
      then have "\<not> locked (lk (upd (\<lambda>l. l\<lparr>locked := True\<rparr>) s))" using IH by blast
      then show False by (simp add: get_upd)
    qed
  qed
  then show "spin lk upd s = Some t \<Longrightarrow> \<not> locked (lk s)" by blast
qed

lemma acquire_free:
  assumes "\<not> locked (lk s)"
  shows "acquire lk upd s =
    Some (upd (\<lambda>l. \<lparr>locked = True, restore_interrupts = interrupts_enabled s\<rparr>)
      (disable_interrupts s))"
  using assms
  by (auto simp: acquire_def Let_def spin_free get_upd get_flags disable_interrupts_def
      upd_flags upd_upd flags_upd intro!: arg_cong [where f = "rflags_update _"] upd_cong)

lemma acquire_held: "locked (lk s) \<Longrightarrow> acquire lk upd s = None"
proof (rule ccontr)
  assume "locked (lk s)" and "acquire lk upd s \<noteq> None"
  then obtain t where
    "spin lk upd (disable_interrupts (upd (\<lambda>l. l\<lparr>restore_interrupts := interrupts_enabled s\<rparr>) s))
      = Some t"
    by (auto simp: acquire_def Let_def)
  then show False
    using spin_returns_free \<open>locked (lk s)\<close>
    by (fastforce simp: disable_interrupts_def get_flags get_upd)
qed

lemma release_acquired:
  assumes "\<not> locked (lk s)" and "acquire lk upd s = Some t"
  shows "release lk upd t =
    upd (\<lambda>l. \<lparr>locked = False, restore_interrupts = interrupts_enabled s\<rparr>) s"
proof -
  have t: "t = upd (\<lambda>l. \<lparr>locked = True, restore_interrupts = interrupts_enabled s\<rparr>)
      (disable_interrupts s)"
    using assms by (simp add: acquire_free)
  let ?u = "upd (\<lambda>l. \<lparr>locked = False, restore_interrupts = interrupts_enabled s\<rparr>) s"
  have "upd (\<lambda>l. l\<lparr>locked := False\<rparr>) t = ?u\<lparr>rflags := unset_bit 9 (rflags s)\<rparr>"
    by (simp add: t disable_interrupts_def upd_flags upd_upd comp_def)
  moreover have "restore_interrupts (lk (?u\<lparr>rflags := r\<rparr>)) = interrupts_enabled s" for r
    by (simp add: get_flags get_upd)
  moreover have "(upd f s)\<lparr>rflags := rflags s\<rparr> = upd f s" for f
    using flags_upd [of f s] by (metis machine.surjective machine.update_convs(2))
  ultimately show ?thesis
    by (simp add: release_def Let_def enable_interrupts_def interrupts_enabled_def
        flags_restored flags_unchanged)
qed

text \<open>Releasing at the end of a critical section that left the lock and the flags alone.\<close>

lemma release_after:
  assumes "lk u = \<lparr>locked = True, restore_interrupts = interrupts_enabled s\<rparr>"
    and "rflags u = unset_bit 9 (rflags s)"
  shows "release lk upd u =
    upd (\<lambda>l. \<lparr>locked = False, restore_interrupts = interrupts_enabled s\<rparr>) (u\<lparr>rflags := rflags s\<rparr>)"
proof -
  have "upd (\<lambda>l. l\<lparr>locked := False\<rparr>) u =
      upd (\<lambda>l. \<lparr>locked = False, restore_interrupts = interrupts_enabled s\<rparr>) u"
    by (rule upd_cong) (simp add: assms(1))
  moreover have "u\<lparr>rflags := rflags s\<rparr> = u" if "\<not> bit (rflags s) 9"
    using that assms(2) by (simp add: flags_unchanged interrupts_enabled_def)
  ultimately show ?thesis
    using assms
    by (auto simp: release_def Let_def enable_interrupts_def interrupts_enabled_def flags_upd get_upd
        upd_flags flags_restored flags_unchanged)
qed

end

end
