(* ===== verification/Bitmap.thy ===== *)
theory Bitmap
  imports Memory
begin

text \<open>
  The bitmap of \<open>src/kernel/utils/bitmap.cpp\<close>: a pointer into memory and a size in bytes.
  The size is never consulted, so an index past the end reads and writes the bytes that
  follow the bitmap.
\<close>

record bitmap =
  bm_data :: u64
  bm_size :: u64

definition bitmap_set :: "bitmap \<Rightarrow> u64 \<Rightarrow> bool \<Rightarrow> memory \<Rightarrow> memory" where
  "bitmap_set b page_idx value m =
     (let byte_index = page_idx div 8; bit_index = page_idx mod 8; p = bm_data b + byte_index
      in if value then store8 p (m p OR push_bit (unat bit_index) 1) m
         else store8 p (m p AND NOT (push_bit (unat bit_index) 1)) m)"

definition bitmap_get :: "bitmap \<Rightarrow> u64 \<Rightarrow> memory \<Rightarrow> bool" where
  "bitmap_get b page_idx m =
     (let byte_index = page_idx div 8; bit_index = page_idx mod 8
      in drop_bit (unat bit_index) (m (bm_data b + byte_index)) AND 1 \<noteq> 0)"

section \<open>Reading back\<close>

lemma bitmap_get_bit:
  "bitmap_get b i m \<longleftrightarrow> bit (m (bm_data b + i div 8)) (unat (i mod 8))"
  by (simp add: bitmap_get_def Let_def and_one_eq bit_iff_odd_drop_bit odd_iff_mod_2_eq_one)

lemma unat_mod8: "unat (i mod 8 :: u64) < 8"
  by (simp add: unat_mod)

lemma bitmap_set_apply:
  "bitmap_set b i v m a =
     (if a = bm_data b + i div 8
      then if v then set_bit (unat (i mod 8)) (m a) else unset_bit (unat (i mod 8)) (m a)
      else m a)"
  using unat_mod8 [of i]
  by (auto simp: bitmap_set_def Let_def store8_apply set_bit_eq_or unset_bit_eq_and_not)

lemma same_bit_index:
  assumes "i div 8 = (j :: u64) div 8" and "unat (i mod 8) = unat (j mod 8)"
  shows "i = j"
  using assms by (metis div_mult_mod_eq word_unat_eq_iff)

lemma bitmap_get_set [mem_simps]:
  "bitmap_get b j (bitmap_set b i v m) = (if j = i then v else bitmap_get b j m)"
proof (cases "j div 8 = i div 8")
  case True
  then show ?thesis
    using unat_mod8 [of i] unat_mod8 [of j] same_bit_index [of j i]
    by (auto simp: bitmap_get_bit bitmap_set_apply bit_simps)
next
  case False
  then show ?thesis by (auto simp: bitmap_get_bit bitmap_set_apply)
qed

text \<open>The byte that holds a bit.\<close>

definition bitmap_byte :: "bitmap \<Rightarrow> u64 \<Rightarrow> u64" where
  "bitmap_byte b i = bm_data b + i div 8"

lemma bitmap_get_cong:
  "m (bitmap_byte b i) = m' (bitmap_byte b i) \<Longrightarrow> bitmap_get b i m = bitmap_get b i m'"
  by (simp add: bitmap_get_bit bitmap_byte_def)

lemma bitmap_set_outside: "a \<noteq> bitmap_byte b i \<Longrightarrow> bitmap_set b i v m a = m a"
  by (simp add: bitmap_set_apply bitmap_byte_def)

section \<open>Ranges of bits\<close>

text \<open>The loop \<open>for (i = lo; i < hi; i++) bitmap.set(i, value)\<close> of the page allocator.\<close>

function bitmap_set_range :: "bitmap \<Rightarrow> u64 \<Rightarrow> u64 \<Rightarrow> bool \<Rightarrow> memory \<Rightarrow> memory" where
  "bitmap_set_range b i hi v m =
     (if i < hi then bitmap_set_range b (i + 1) hi v (bitmap_set b i v m) else m)"
  by pat_completeness auto
termination
  by (relation "measure (\<lambda>(b, i, hi, v, m). unat hi - unat i)")
     (auto simp: unat_inc word_less_nat_alt)

declare bitmap_set_range.simps [simp del]

lemma bitmap_get_set_range [mem_simps]:
  "bitmap_get b j (bitmap_set_range b i hi v m) =
     (if i \<le> j \<and> j < hi then v else bitmap_get b j m)"
proof (induction b i hi v m rule: bitmap_set_range.induct)
  case (1 b i hi v m)
  show ?case
  proof (cases "i < hi")
    case True
    have "bitmap_get b j (bitmap_set_range b i hi v m) =
        bitmap_get b j (bitmap_set_range b (i + 1) hi v (bitmap_set b i v m))"
      using True by (subst bitmap_set_range.simps) simp
    also have "\<dots> = (if i + 1 \<le> j \<and> j < hi then v else bitmap_get b j (bitmap_set b i v m))"
      by (rule "1.IH" [OF True])
    finally show ?thesis
      unfolding word_from_inc [OF True] by (auto simp: bitmap_get_set)
  next
    case False
    then show ?thesis by (subst bitmap_set_range.simps) auto
  qed
qed

lemma bitmap_set_range_outside:
  "(\<And>j. i \<le> j \<and> j < hi \<Longrightarrow> a \<noteq> bitmap_byte b j) \<Longrightarrow> bitmap_set_range b i hi v m a = m a"
proof (induction b i hi v m rule: bitmap_set_range.induct)
  case (1 b i hi v m)
  show ?case
  proof (cases "i < hi")
    case True
    have "bitmap_set_range b i hi v m a = bitmap_set_range b (i + 1) hi v (bitmap_set b i v m) a"
      using True by (subst bitmap_set_range.simps) simp
    also have "\<dots> = bitmap_set b i v m a"
      using "1.prems" word_from_inc [OF True] by (intro "1.IH" [OF True]) blast
    also have "\<dots> = m a"
      using "1.prems" True by (intro bitmap_set_outside) auto
    finally show ?thesis .
  next
    case False
    then show ?thesis by (subst bitmap_set_range.simps) auto
  qed
qed

end
