(* ===== verification/Libc.thy ===== *)
theory Libc
  imports Memory "HOL-Library.Monad_Syntax"
begin

text \<open>
  The C library of the kernel (\<open>src/kernel/libc/string.cpp\<close>) over the flat memory: each
  routine takes the addresses its C counterpart takes and the memory, and gives the new
  memory. A routine that scans for a terminating zero byte has an option result, whose
  \<open>None\<close> is a scan that never stops.
\<close>

section \<open>Block operations\<close>

function memcpy_loop :: "u64 \<Rightarrow> u64 \<Rightarrow> u64 \<Rightarrow> u64 \<Rightarrow> memory \<Rightarrow> memory" where
  "memcpy_loop pdest psrc n i m =
     (if i < n then memcpy_loop pdest psrc n (i + 1) (store8 (pdest + i) (m (psrc + i)) m) else m)"
  by pat_completeness auto
termination
  by (relation "measure (\<lambda>(pdest, psrc, n, i, m). unat n - unat i)")
     (auto simp: unat_inc word_less_nat_alt)

definition memcpy :: "u64 \<Rightarrow> u64 \<Rightarrow> u64 \<Rightarrow> memory \<Rightarrow> u64 \<times> memory" where
  "memcpy dest src n m = (dest, memcpy_loop dest src n 0 m)"

function memset_loop :: "u64 \<Rightarrow> u32 \<Rightarrow> u64 \<Rightarrow> u64 \<Rightarrow> memory \<Rightarrow> memory" where
  "memset_loop p c n i m =
     (if i < n then memset_loop p c n (i + 1) (store8 (p + i) (ucast c) m) else m)"
  by pat_completeness auto
termination
  by (relation "measure (\<lambda>(p, c, n, i, m). unat n - unat i)")
     (auto simp: unat_inc word_less_nat_alt)

definition memset :: "u64 \<Rightarrow> u32 \<Rightarrow> u64 \<Rightarrow> memory \<Rightarrow> u64 \<times> memory" where
  "memset s c n m = (s, memset_loop s c n 0 m)"

function memmove_down :: "u64 \<Rightarrow> u64 \<Rightarrow> u64 \<Rightarrow> memory \<Rightarrow> memory" where
  "memmove_down pdest psrc i m =
     (if i > 0 then memmove_down pdest psrc (i - 1) (store8 (pdest + (i - 1)) (m (psrc + (i - 1))) m)
      else m)"
  by pat_completeness auto
termination
  by (relation "measure (\<lambda>(pdest, psrc, i, m). unat i)") (auto simp: measure_unat)

definition memmove :: "u64 \<Rightarrow> u64 \<Rightarrow> u64 \<Rightarrow> memory \<Rightarrow> u64 \<times> memory" where
  "memmove dest src n m =
     (if src > dest then (dest, memcpy_loop dest src n 0 m)
      else if src < dest then (dest, memmove_down dest src n m)
      else (dest, m))"

function memcmp_loop :: "memory \<Rightarrow> u64 \<Rightarrow> u64 \<Rightarrow> u64 \<Rightarrow> u64 \<Rightarrow> int" where
  "memcmp_loop m p1 p2 n i =
     (if i < n then
        if m (p1 + i) \<noteq> m (p2 + i) then (if m (p1 + i) < m (p2 + i) then -1 else 1)
        else memcmp_loop m p1 p2 n (i + 1)
      else 0)"
  by pat_completeness auto
termination
  by (relation "measure (\<lambda>(m, p1, p2, n, i). unat n - unat i)")
     (auto simp: unat_inc word_less_nat_alt)

definition memcmp :: "memory \<Rightarrow> u64 \<Rightarrow> u64 \<Rightarrow> u64 \<Rightarrow> int" where
  "memcmp m s1 s2 n = memcmp_loop m s1 s2 n 0"

section \<open>String operations\<close>

function strncmp_loop :: "memory \<Rightarrow> u64 \<Rightarrow> u64 \<Rightarrow> u64 \<Rightarrow> u64 \<Rightarrow> bool" where
  "strncmp_loop m first second len i =
     (if i < len then
        if m (first + i) = 0 \<or> m (second + i) = 0 then False
        else if m (first + i) \<noteq> m (second + i) then False
        else strncmp_loop m first second len (i + 1)
      else True)"
  by pat_completeness auto
termination
  by (relation "measure (\<lambda>(m, first, second, len, i). unat len - unat i)")
     (auto simp: unat_inc word_less_nat_alt)

definition strncmp :: "memory \<Rightarrow> u64 \<Rightarrow> u64 \<Rightarrow> u64 \<Rightarrow> bool" where
  "strncmp m first second len = strncmp_loop m first second len 0"

text \<open>The index is incremented in the loop condition, so the comparison starts at byte 1.\<close>

partial_function (option) strcmp_loop :: "memory \<Rightarrow> u64 \<Rightarrow> u64 \<Rightarrow> u64 \<Rightarrow> bool option" where
  "strcmp_loop m first second i =
     (if m (first + i) \<noteq> 0 then
        if m (first + (i + 1)) \<noteq> m (second + (i + 1)) then Some False
        else strcmp_loop m first second (i + 1)
      else Some True)"

declare strcmp_loop.simps [code]

definition strcmp :: "memory \<Rightarrow> u64 \<Rightarrow> u64 \<Rightarrow> bool option" where
  "strcmp m first second = strcmp_loop m first second 0"

partial_function (option) strcpy_loop :: "u64 \<Rightarrow> u64 \<Rightarrow> u64 \<Rightarrow> memory \<Rightarrow> memory option" where
  "strcpy_loop dest src i m =
     (if m (src + i) \<noteq> 0 then strcpy_loop dest src (i + 1) (store8 (dest + i) (m (src + i)) m)
      else Some (store8 (dest + i) (0) m))"

declare strcpy_loop.simps [code]

definition strcpy :: "u64 \<Rightarrow> u64 \<Rightarrow> memory \<Rightarrow> memory option" where
  "strcpy dest src m = strcpy_loop dest src 0 m"

partial_function (option) strcat_end :: "memory \<Rightarrow> u64 \<Rightarrow> u64 option" where
  "strcat_end m ptr = (if m ptr \<noteq> 0 then strcat_end m (ptr + 1) else Some ptr)"

declare strcat_end.simps [code]

partial_function (option) strcat_copy :: "u64 \<Rightarrow> u64 \<Rightarrow> memory \<Rightarrow> memory option" where
  "strcat_copy ptr src m =
     (if m src \<noteq> 0 then strcat_copy (ptr + 1) (src + 1) (store8 (ptr) (m src) m)
      else Some (store8 (ptr) (0) m))"

declare strcat_copy.simps [code]

definition strcat :: "u64 \<Rightarrow> u64 \<Rightarrow> memory \<Rightarrow> (u64 \<times> memory) option" where
  "strcat dest src m =
     do { ptr \<leftarrow> strcat_end m dest; m' \<leftarrow> strcat_copy ptr src m; Some (dest, m') }"

partial_function (option) strlen_loop :: "memory \<Rightarrow> u64 \<Rightarrow> u64 \<Rightarrow> u64 option" where
  "strlen_loop m str sz =
     (if m str \<noteq> 0 then strlen_loop m (str + 1) (sz + 1) else Some sz)"

declare strlen_loop.simps [code]

definition strlen :: "memory \<Rightarrow> u64 \<Rightarrow> u64 option" where
  "strlen m str = strlen_loop m str 0"

declare memcpy_loop.simps [simp del] memset_loop.simps [simp del] memmove_down.simps [simp del]
  memcmp_loop.simps [simp del] strncmp_loop.simps [simp del]

section \<open>What the block operations compute\<close>

lemma at_offset_or_after:
  fixes i n a p :: "'a::len word"
  assumes "i < n"
  shows "(i \<le> a - p \<and> a - p < n) \<longleftrightarrow> (a = p + i \<or> i + 1 \<le> a - p \<and> a - p < n)"
proof -
  have "a = p + i \<longleftrightarrow> a - p = i" by (auto simp: algebra_simps)
  then show ?thesis using word_from_inc [OF assms, of "a - p"] by blast
qed

lemma memset_loop_apply:
  "i \<le> n \<Longrightarrow> memset_loop p c n i m a =
     (if i \<le> a - p \<and> a - p < n then ucast c else m a)"
proof (induction p c n i m rule: memset_loop.induct)
  case (1 p c n i m)
  show ?case
  proof (cases "i < n")
    case True
    have "memset_loop p c n i m a = memset_loop p c n (i + 1) (store8 (p + i) (ucast c) m) a"
      using True by (subst memset_loop.simps) simp
    also have "\<dots> = (if i + 1 \<le> a - p \<and> a - p < n then ucast c
        else store8 (p + i) (ucast c) m a)"
      using True by (intro "1.IH") (simp_all add: inc_le)
    finally show ?thesis
      unfolding at_offset_or_after [OF True] by (auto simp: store8_apply)
  next
    case False
    with "1.prems" show ?thesis by (subst memset_loop.simps) auto
  qed
qed

lemma memset_apply [mem_simps]:
  "snd (memset p c n m) a = (if a \<in> region p n then ucast c else m a)"
  by (simp add: memset_def memset_loop_apply in_region_iff)

text \<open>
  A forward copy is right when no byte is written before it is read, which in wrapping
  arithmetic is one comparison: the destination does not lie strictly inside the source.
\<close>

lemma memcpy_loop_apply:
  assumes "i \<le> n" and "dest = src \<or> n \<le> dest - src"
  shows "memcpy_loop dest src n i m a =
     (if i \<le> a - dest \<and> a - dest < n then m (src + (a - dest)) else m a)"
  using assms
proof (induction dest src n i m rule: memcpy_loop.induct)
  case (1 dest src n i m)
  show ?case
  proof (cases "i < n")
    case True
    let ?m = "store8 (dest + i) (m (src + i)) m"
    have IH: "memcpy_loop dest src n (i + 1) ?m a =
      (if i + 1 \<le> a - dest \<and> a - dest < n then ?m (src + (a - dest)) else ?m a)"
      using "1.prems" True by (intro "1.IH") (simp_all add: inc_le)
    have keep: "?m (src + d) = m (src + d)" if "i + 1 \<le> d" "d < n" for d
    proof -
      have "src + d = dest + i \<Longrightarrow> dest - src = d - i" by (simp add: algebra_simps)
      moreover have "d - i < n" "d \<noteq> i" using that True by uint_arith+
      ultimately have "src + d \<noteq> dest + i" using "1.prems" by auto
      then show ?thesis by (simp add: store8_apply)
    qed
    have "memcpy_loop dest src n i m a = memcpy_loop dest src n (i + 1) ?m a"
      using True by (subst memcpy_loop.simps) simp
    then show ?thesis
      unfolding IH at_offset_or_after [OF True] using keep [of "a - dest"] by (auto simp: store8_apply)
  next
    case False
    with "1.prems" show ?thesis by (subst memcpy_loop.simps) auto
  qed
qed

lemma memcpy_apply:
  "dest = src \<or> n \<le> dest - src \<Longrightarrow> snd (memcpy dest src n m) a =
     (if a \<in> region dest n then m (src + (a - dest)) else m a)"
  by (simp add: memcpy_def memcpy_loop_apply in_region_iff)

lemma memmove_down_apply:
  assumes "dest = src \<or> i \<le> src - dest"
  shows "memmove_down dest src i m a =
     (if a - dest < i then m (src + (a - dest)) else m a)"
  using assms
proof (induction dest src i m rule: memmove_down.induct)
  case (1 dest src i m)
  show ?case
  proof (cases "i > 0")
    case True
    let ?m = "store8 (dest + (i - 1)) (m (src + (i - 1))) m"
    have le: "i - 1 < i" using True by uint_arith
    have "dest = src \<or> i - 1 \<le> src - dest" using "1.prems" le by auto
    note IH = "1.IH" [OF True this]
    have keep: "?m (src + d) = m (src + d)" if "d < i - 1" for d
    proof -
      have "src + d = dest + (i - 1) \<Longrightarrow> src - dest = (i - 1) - d" by (simp add: algebra_simps)
      moreover have "unat ((i - 1) - d) = unat (i - 1) - unat d"
        using that by (intro unat_sub) simp
      then have "(i - 1) - d < i"
        using le by (simp add: word_less_nat_alt)
      moreover have "d \<noteq> i - 1" using that by auto
      ultimately have "src + d \<noteq> dest + (i - 1)" using "1.prems" by auto
      then show ?thesis by (simp add: store8_apply)
    qed
    have split: "a - dest < i \<longleftrightarrow> a = dest + (i - 1) \<or> a - dest < i - 1"
    proof -
      have "a = dest + (i - 1) \<longleftrightarrow> a - dest = i - 1" by (rule u64_eq_add_iff)
      then show ?thesis using word_below_dec [OF True] by metis
    qed
    have "memmove_down dest src i m a = memmove_down dest src (i - 1) ?m a"
      using True by (subst memmove_down.simps) simp
    then show ?thesis
      unfolding IH split using keep [of "a - dest"] by (auto simp: store8_apply)
  next
    case False
    then have "i = 0" by (simp add: word_gt_0)
    then show ?thesis by (subst memmove_down.simps) simp
  qed
qed

lemma memmove_apply:
  assumes "unat src + unat n \<le> 2 ^ 64" and "unat dest + unat n \<le> 2 ^ 64"
  shows "snd (memmove dest src n m) a =
     (if a \<in> region dest n then m (src + (a - dest)) else m a)"
proof -
  consider "dest < src" | "src < dest" | "src = dest" by (metis linorder_neqE)
  then show ?thesis
  proof cases
    case 1
    have "n \<le> dest - src"
      using 1 assms by (simp add: word_le_nat_alt word_less_nat_alt unat_sub_if')
    with 1 show ?thesis by (simp add: memmove_def memcpy_loop_apply in_region_iff)
  next
    case 2
    have "n \<le> src - dest"
      using 2 assms by (simp add: word_le_nat_alt word_less_nat_alt unat_sub_if')
    moreover have "\<not> dest < src" using 2 by simp
    ultimately show ?thesis
      using 2 by (simp add: memmove_def memmove_down_apply in_region_iff)
  next
    case 3
    then show ?thesis by (simp add: memmove_def)
  qed
qed

lemma memcmp_loop_zero:
  "memcmp_loop m p q n i = 0 \<longleftrightarrow> (\<forall>d. i \<le> d \<and> d < n \<longrightarrow> m (p + d) = m (q + d))"
proof (induction m p q n i rule: memcmp_loop.induct)
  case (1 m p q n i)
  show ?case
  proof (cases "i < n \<and> m (p + i) = m (q + i)")
    case True
    then show ?thesis
      using "1.IH" by (subst memcmp_loop.simps) (auto simp: word_from_inc [of i n])
  next
    case False
    then show ?thesis by (subst memcmp_loop.simps) auto
  qed
qed

lemma memcmp_loop_less:
  "memcmp_loop m p q n i = -1 \<longleftrightarrow>
     (\<exists>d. (i \<le> d \<and> d < n) \<and> m (p + d) < m (q + d) \<and>
       (\<forall>e. i \<le> e \<and> e < d \<longrightarrow> m (p + e) = m (q + e)))"
proof (induction m p q n i rule: memcmp_loop.induct)
  case (1 m p q n i)
  consider "i < n" "m (p + i) = m (q + i)" | "i < n" "m (p + i) \<noteq> m (q + i)" | "\<not> i < n"
    by blast
  then show ?case
  proof cases
    case 1
    have first: "(\<forall>e. i \<le> e \<and> e < d \<longrightarrow> m (p + e) = m (q + e)) \<longleftrightarrow>
        (\<forall>e. i + 1 \<le> e \<and> e < d \<longrightarrow> m (p + e) = m (q + e))" if "i + 1 \<le> d" "d < n" for d
    proof -
      have "i \<le> d \<and> d < n \<and> d \<noteq> i" using that less_inc [OF 1(1)] by (auto simp: order.strict_trans2)
      then have "i < d" by auto
      then show ?thesis using 1(2) by (auto simp: word_from_inc [of i d])
    qed
    have "memcmp_loop m p q n i = memcmp_loop m p q n (i + 1)"
      using 1 by (subst memcmp_loop.simps) simp
    also have "\<dots> = -1 \<longleftrightarrow> (\<exists>d. (i + 1 \<le> d \<and> d < n) \<and> m (p + d) < m (q + d) \<and>
        (\<forall>e. i + 1 \<le> e \<and> e < d \<longrightarrow> m (p + e) = m (q + e)))"
      using 1 by (intro "1.IH") simp_all
    also have "\<dots> \<longleftrightarrow> (\<exists>d. (i + 1 \<le> d \<and> d < n) \<and> m (p + d) < m (q + d) \<and>
        (\<forall>e. i \<le> e \<and> e < d \<longrightarrow> m (p + e) = m (q + e)))"
      using first by (intro ex_cong1) auto
    also have "\<dots> \<longleftrightarrow> (\<exists>d. (i \<le> d \<and> d < n) \<and> m (p + d) < m (q + d) \<and>
        (\<forall>e. i \<le> e \<and> e < d \<longrightarrow> m (p + e) = m (q + e)))"
      unfolding word_from_inc [OF 1(1)] using 1(2) by (metis order.irrefl)
    finally show ?thesis .
  next
    case 2
    then show ?thesis by (subst memcmp_loop.simps) (auto simp: order.order_iff_strict)
  next
    case 3
    then show ?thesis by (subst memcmp_loop.simps) auto
  qed
qed

lemma memcmp_loop_values: "memcmp_loop m p q n i \<in> {-1, 0, 1}"
proof (induction m p q n i rule: memcmp_loop.induct)
  case (1 m p q n i)
  then show ?case by (subst memcmp_loop.simps) auto
qed

lemma strncmp_loop_iff:
  "strncmp_loop m p q n i \<longleftrightarrow>
     (\<forall>d. i \<le> d \<and> d < n \<longrightarrow> m (p + d) = m (q + d) \<and> m (p + d) \<noteq> 0)"
proof (induction m p q n i rule: strncmp_loop.induct)
  case (1 m p q n i)
  show ?case
  proof (cases "i < n \<and> m (p + i) = m (q + i) \<and> m (p + i) \<noteq> 0")
    case True
    then show ?thesis
      using "1.IH" by (subst strncmp_loop.simps) (auto simp: word_from_inc [of i n])
  next
    case False
    then show ?thesis by (subst strncmp_loop.simps) auto
  qed
qed

section \<open>Zero-terminated strings\<close>

text \<open>\<open>cstr m p s\<close>: the bytes \<open>s\<close>, none of them zero, and a zero byte stand at \<open>p\<close>.\<close>

primrec cstr :: "memory \<Rightarrow> u64 \<Rightarrow> u8 list \<Rightarrow> bool" where
  "cstr m p [] \<longleftrightarrow> m p = 0"
| "cstr m p (c # s) \<longleftrightarrow> m p = c \<and> c \<noteq> 0 \<and> cstr m (p + 1) s"

lemma strlen_loop_cstr: "cstr m p s \<Longrightarrow> strlen_loop m p k = Some (k + of_nat (length s))"
  by (induction s arbitrary: p k) (auto simp: strlen_loop.simps [of m] algebra_simps)

lemma strlen_cstr: "cstr m p s \<Longrightarrow> strlen m p = Some (of_nat (length s))"
  by (simp add: strlen_def strlen_loop_cstr)

lemma cstr_exists: "m a = 0 \<Longrightarrow> \<exists>s. cstr m p s"
proof (induction "unat (a - p)" arbitrary: p)
  case 0
  then have "a = p" by (simp add: unat_eq_zero)
  with 0 have "cstr m p []" by simp
  then show ?case ..
next
  case (Suc k)
  show ?case
  proof (cases "m p = 0")
    case True
    then have "cstr m p []" by simp
    then show ?thesis ..
  next
    case False
    have "a - p \<noteq> 0" using Suc.hyps(2) by auto
    then have "k = unat (a - (p + 1))" using Suc.hyps(2) unat_diff_Suc [of a p] by simp
    then obtain s where "cstr m (p + 1) s" using Suc by blast
    with False have "cstr m p (m p # s)" by simp
    then show ?thesis ..
  qed
qed

lemma strlen_loop_zero: "strlen_loop m p k = Some r \<Longrightarrow> \<exists>a. m a = 0"
proof (rule strlen_loop.raw_induct [where P = "\<lambda>m p k r. \<exists>a. m a = 0"])
  fix f :: "memory \<Rightarrow> u64 \<Rightarrow> u64 \<Rightarrow> u64 option" and m p k r
  assume "\<And>m p k r. f m p k = Some r \<Longrightarrow> \<exists>a. m a = 0"
    and "(if m p \<noteq> 0 then f m (p + 1) (k + 1) else Some k) = Some r"
  then show "\<exists>a. m a = 0" by (auto split: if_splits)
qed

text \<open>Writing a sequence of bytes from \<open>p\<close> on.\<close>

primrec put_bytes :: "u64 \<Rightarrow> u8 list \<Rightarrow> memory \<Rightarrow> memory" where
  "put_bytes p [] m = m"
| "put_bytes p (b # bs) m = put_bytes (p + 1) bs (store8 p b m)"

definition apart :: "u64 \<Rightarrow> nat \<Rightarrow> u64 \<Rightarrow> nat \<Rightarrow> bool" where
  "apart p n q k \<longleftrightarrow> (\<forall>i < n. \<forall>j < k. p + of_nat i \<noteq> q + of_nat j)"

lemma apartD: "apart p n q k \<Longrightarrow> i < n \<Longrightarrow> j < k \<Longrightarrow> p + of_nat i \<noteq> q + of_nat j"
  by (simp add: apart_def)

lemma apart_Suc:
  "apart p (Suc n) q (Suc k) \<longleftrightarrow>
     p \<noteq> q \<and> apart (p + 1) n q (Suc k) \<and> apart p (Suc n) (q + 1) k"
  (is "?l = ?r")
proof
  assume ?l
  then have a: "\<And>i j. i \<le> n \<Longrightarrow> j \<le> k \<Longrightarrow> p + of_nat i \<noteq> q + of_nat j"
    by (simp add: apart_def)
  have "p + 1 + of_nat i \<noteq> q + of_nat j" if "i < n" "j < Suc k" for i j
    using a [of "Suc i" j] that by (simp add: algebra_simps)
  moreover have "p + of_nat i \<noteq> q + 1 + of_nat j" if "i < Suc n" "j < k" for i j
    using a [of i "Suc j"] that by (simp add: algebra_simps)
  moreover have "p \<noteq> q" using a [of 0 0] by simp
  ultimately show ?r unfolding apart_def by blast
next
  assume r: ?r
  show ?l unfolding apart_def
  proof (intro allI impI)
    fix i j assume ij: "i < Suc n" "j < Suc k"
    show "p + of_nat i \<noteq> q + of_nat j"
    proof (cases i)
      case (Suc i')
      then have "p + 1 + of_nat i' \<noteq> q + of_nat j" using r ij unfolding apart_def by auto
      with Suc show ?thesis by (simp add: algebra_simps)
    next
      case 0
      show ?thesis
      proof (cases j)
        case (Suc j')
        then have "p + of_nat i \<noteq> q + 1 + of_nat j'" using r ij unfolding apart_def by auto
        with Suc show ?thesis by (simp add: algebra_simps)
      qed (use 0 r in simp)
    qed
  qed
qed

lemma cstr_store8:
  "cstr m p s \<Longrightarrow> (\<And>j. j \<le> length s \<Longrightarrow> p + of_nat j \<noteq> a) \<Longrightarrow> cstr (store8 a b m) p s"
proof (induction s arbitrary: p)
  case Nil
  then show ?case using Nil.prems(2) [of 0] by (simp add: store8_apply)
next
  case (Cons c s)
  have "cstr (store8 a b m) (p + 1) s"
  proof (rule Cons.IH)
    show "cstr m (p + 1) s" using Cons.prems by simp
    fix j assume "j \<le> length s"
    then show "p + 1 + of_nat j \<noteq> a"
      using Cons.prems(2) [of "Suc j"] by (simp add: algebra_simps)
  qed
  moreover have "store8 a b m p = m p" using Cons.prems(2) [of 0] by (simp add: store8_apply)
  ultimately show ?case using Cons.prems(1) by simp
qed

lemma strcat_copy_cstr:
  "cstr m src s \<Longrightarrow> apart ptr (Suc (length s)) src (Suc (length s)) \<Longrightarrow>
   strcat_copy ptr src m = Some (put_bytes ptr (s @ [0]) m)"
proof (induction s arbitrary: ptr src m)
  case Nil
  then show ?case by (simp add: strcat_copy.simps)
next
  case (Cons c s)
  have "strcat_copy (ptr + 1) (src + 1) (store8 ptr c m) =
      Some (put_bytes (ptr + 1) (s @ [0]) (store8 ptr c m))"
  proof (rule Cons.IH)
    show "apart (ptr + 1) (Suc (length s)) (src + 1) (Suc (length s))"
      using Cons.prems(2) by (simp add: apart_Suc)
    show "cstr (store8 ptr c m) (src + 1) s"
    proof (rule cstr_store8)
      show "cstr m (src + 1) s" using Cons.prems by simp
      fix j assume "j \<le> length s"
      then show "src + 1 + of_nat j \<noteq> ptr"
        using apartD [OF Cons.prems(2), of 0 "Suc j"] by (simp add: algebra_simps)
    qed
  qed
  with Cons.prems(1) show ?case by (simp add: strcat_copy.simps [of ptr])
qed

lemma strcpy_loop_cstr:
  "cstr m (src + i) s \<Longrightarrow> apart (dest + i) (Suc (length s)) (src + i) (Suc (length s)) \<Longrightarrow>
   strcpy_loop dest src i m = Some (put_bytes (dest + i) (s @ [0]) m)"
proof (induction s arbitrary: i m)
  case Nil
  then show ?case by (simp add: strcpy_loop.simps)
next
  case (Cons c s)
  have "strcpy_loop dest src (i + 1) (store8 (dest + i) c m) =
      Some (put_bytes (dest + (i + 1)) (s @ [0]) (store8 (dest + i) c m))"
  proof (rule Cons.IH)
    show "apart (dest + (i + 1)) (Suc (length s)) (src + (i + 1)) (Suc (length s))"
      using Cons.prems(2) by (simp add: apart_Suc add.assoc)
    show "cstr (store8 (dest + i) c m) (src + (i + 1)) s"
    proof (rule cstr_store8)
      show "cstr m (src + (i + 1)) s" using Cons.prems by (simp add: add.assoc)
      fix j assume "j \<le> length s"
      then show "src + (i + 1) + of_nat j \<noteq> dest + i"
        using apartD [OF Cons.prems(2), of 0 "Suc j"] by (simp add: algebra_simps)
    qed
  qed
  with Cons.prems(1) show ?case by (simp add: strcpy_loop.simps [of dest src i] add.assoc)
qed

lemma cstr_put_bytes_outside:
  "(\<And>j. j < length bs \<Longrightarrow> a \<noteq> p + of_nat j) \<Longrightarrow> put_bytes p bs m a = m a"
proof (induction bs arbitrary: p m)
  case Nil
  then show ?case by simp
next
  case (Cons b bs)
  have "put_bytes (p + 1) bs (store8 p b m) a = store8 p b m a"
  proof (rule Cons.IH)
    fix j assume "j < length bs"
    then show "a \<noteq> p + 1 + of_nat j"
      using Cons.prems [of "Suc j"] by (simp add: algebra_simps)
  qed
  moreover have "a \<noteq> p" using Cons.prems [of 0] by simp
  ultimately show ?case by (simp add: store8_apply)
qed

lemma put_bytes_head:
  assumes "length bs < 2 ^ 64 - 1"
  shows "put_bytes (p + 1) bs (store8 p b m) p = b"
proof -
  have "p \<noteq> p + 1 + of_nat j" if "j < length bs" for j
  proof
    assume "p = p + 1 + of_nat j"
    then have "of_nat (Suc j) = (0 :: u64)" by (simp add: algebra_simps)
    then have "unat (of_nat (Suc j) :: u64) = 0" by simp
    moreover have "Suc j < 2 ^ 64" using that assms by simp
    ultimately show False by (simp only: unat_of_nat_u64)
  qed
  then have "put_bytes (p + 1) bs (store8 p b m) p = store8 p b m p"
    by (intro cstr_put_bytes_outside) auto
  then show ?thesis by (simp add: store8_apply)
qed

lemma put_bytes_apply:
  assumes "j < length bs" "length bs < 2 ^ 64"
  shows "put_bytes p bs m (p + of_nat j) = bs ! j"
  using assms
proof (induction bs arbitrary: j p m)
  case (Cons b bs)
  show ?case
  proof (cases j)
    case 0
    with Cons.prems show ?thesis using put_bytes_head [of bs p b m] by simp
  next
    case (Suc i)
    with Cons.prems Cons.IH [of i "p + 1" "store8 p b m"] show ?thesis by (simp add: algebra_simps)
  qed
qed simp

lemma cstr_put_bytes:
  "0 \<notin> set s \<Longrightarrow> length s < 2 ^ 64 - 1 \<Longrightarrow> cstr (put_bytes p (s @ [0]) m) p s"
proof (induction s arbitrary: p m)
  case Nil
  then show ?case by (simp add: store8_apply)
next
  case (Cons c s)
  have "put_bytes (p + 1) (s @ [0]) (store8 p c m) p = c"
    using Cons.prems by (intro put_bytes_head) simp
  with Cons show ?case by simp
qed

lemma cstr_nonzero: "cstr m p s \<Longrightarrow> 0 \<notin> set s"
  by (induction s arbitrary: p) auto

lemma cstr_nth: "cstr m p s \<Longrightarrow> j < length s \<Longrightarrow> m (p + of_nat j) = s ! j \<and> s ! j \<noteq> 0"
proof (induction s arbitrary: p j)
  case Nil
  then show ?case by simp
next
  case (Cons c s)
  then show ?case by (cases j) (auto simp flip: add.assoc)
qed

lemma cstr_end: "cstr m p s \<Longrightarrow> m (p + of_nat (length s)) = 0"
  by (induction s arbitrary: p) (auto simp flip: add.assoc)

lemma cstr_length:
  assumes "cstr m p s"
  shows "length s < 2 ^ 64"
proof (rule ccontr)
  assume "\<not> length s < 2 ^ 64"
  then have "length s mod 2 ^ 64 < length s" by (simp add: order.strict_trans2)
  moreover have "of_nat (length s mod 2 ^ 64) = (of_nat (length s) :: u64)"
    by (metis of_nat_mod_u64)
  ultimately show False using cstr_nth [OF assms] cstr_end [OF assms] by metis
qed

lemma strcmp_loop_cstr:
  "cstr m (p + i) (c # s) \<Longrightarrow> cstr m (q + (i + 1)) t \<Longrightarrow>
   strcmp_loop m p q i = Some (s = t)"
proof (induction s arbitrary: i c t)
  case Nil
  then show ?case
    by (cases t) (auto simp: strcmp_loop.simps [of m p q i] strcmp_loop.simps [of m p q "i + 1"]
        add.assoc)
next
  case (Cons d s)
  show ?case
  proof (cases t)
    case Nil
    with Cons.prems show ?thesis by (auto simp: strcmp_loop.simps [of m p q i] add.assoc)
  next
    case (Cons e t')
    show ?thesis
    proof (cases "d = e")
      case True
      have "strcmp_loop m p q (i + 1) = Some (s = t')"
      proof (rule Cons.IH)
        show "cstr m (p + (i + 1)) (d # s)" using Cons.prems by (simp add: add.assoc)
        show "cstr m (q + (i + 1 + 1)) t'"
          using Cons.prems \<open>t = e # t'\<close> by (simp add: add.assoc)
      qed
      with True Cons.prems \<open>t = e # t'\<close> show ?thesis
        by (simp add: strcmp_loop.simps [of m p q i] add.assoc)
    next
      case False
      with Cons.prems \<open>t = e # t'\<close> show ?thesis
        by (simp add: strcmp_loop.simps [of m p q i] add.assoc)
    qed
  qed
qed

lemma strcat_end_cstr: "cstr m p t \<Longrightarrow> strcat_end m p = Some (p + of_nat (length t))"
proof (induction t arbitrary: p)
  case Nil
  then show ?case by (simp add: strcat_end.simps)
next
  case (Cons c t)
  then show ?case by (subst strcat_end.simps) (simp add: algebra_simps)
qed

lemma cstr_append:
  "cstr m p (t @ s) \<longleftrightarrow>
     (\<forall>j < length t. m (p + of_nat j) = t ! j \<and> t ! j \<noteq> 0) \<and> cstr m (p + of_nat (length t)) s"
proof (induction t arbitrary: p)
  case (Cons c t)
  have "(\<forall>j < length (c # t). m (p + of_nat j) = (c # t) ! j \<and> (c # t) ! j \<noteq> 0) \<longleftrightarrow>
      m p = c \<and> c \<noteq> 0 \<and> (\<forall>j < length t. m (p + 1 + of_nat j) = t ! j \<and> t ! j \<noteq> 0)"
    by (simp add: All_less_Suc2 add.assoc add.left_commute)
  then show ?case using Cons.IH [of "p + 1"] by (auto simp: algebra_simps)
qed simp

lemma put_bytes_beyond:
  assumes "n = length bs" and "a - p \<ge> of_nat n" and "n < 2 ^ 64"
  shows "put_bytes p bs m a = m a"
proof (rule cstr_put_bytes_outside)
  fix j assume "j < length bs"
  then have "of_nat j < (of_nat n :: u64)" using assms(1,3) by (simp add: word_less_nat_alt unat_of_nat_u64)
  with assms(2) show "a \<noteq> p + of_nat j" by auto
qed

lemma strcat_result:
  assumes "cstr m dest t" and "cstr m src s" and "length t + length s < 2 ^ 64 - 1"
  shows "cstr (put_bytes (dest + of_nat (length t)) (s @ [0]) m) dest (t @ s)"
proof -
  let ?p = "dest + of_nat (length t)"
  have "put_bytes ?p (s @ [0]) m (dest + of_nat j) = m (dest + of_nat j)" if "j < length t" for j
  proof (rule cstr_put_bytes_outside)
    fix k assume "k < length (s @ [0])"
    then have "length t + k < 2 ^ 64" "j < 2 ^ 64" using assms(3) that by simp_all
    then have "unat (of_nat (length t + k) :: u64) = length t + k" "unat (of_nat j :: u64) = j"
      by (simp_all only: unat_of_nat_u64)
    then have "of_nat j \<noteq> (of_nat (length t + k) :: u64)"
      using that by (metis less_not_refl trans_less_add1)
    then show "dest + of_nat j \<noteq> ?p + of_nat k" by (simp add: add.assoc)
  qed
  with assms(1) have "\<forall>j < length t. put_bytes ?p (s @ [0]) m (dest + of_nat j) = t ! j \<and> t ! j \<noteq> 0"
    by (simp add: cstr_nth)
  moreover have "cstr (put_bytes ?p (s @ [0]) m) ?p s"
    by (rule cstr_put_bytes) (use assms(2,3) cstr_nonzero in auto)
  ultimately show ?thesis by (simp add: cstr_append)
qed

section \<open>Properties\<close>

text \<open>
  C33: \<open>memmove\<close> behaves as if it went through a buffer: whatever the overlap of two ranges
  inside the address space, the destination ends up with the old bytes of the source, and
  every other byte is unchanged. \<open>memcpy\<close> gives the same unless the destination starts
  inside the source.
\<close>

theorem memmove_buffered:
  assumes "unat src + unat n \<le> 2 ^ 64" and "unat dest + unat n \<le> 2 ^ 64"
  shows "snd (memmove dest src n m) =
      (\<lambda>a. if a \<in> region dest n then m (src + (a - dest)) else m a) \<and>
    (dest - src = 0 \<or> n \<le> dest - src \<longrightarrow> snd (memcpy dest src n m) = snd (memmove dest src n m))"
  by (auto simp: memmove_apply [OF assms] memcpy_apply fun_eq_iff)

theorem memmove_buffered_witness:
  "snd (memmove 0x1001 0x1000 8 (\<lambda>a. ucast a)) 0x1008 = 7 \<and>
   snd (memcpy 0x1000 0x1001 8 (\<lambda>a. ucast a)) 0x1000 = 1"
proof -
  have 1: "snd (memmove 0x1001 0x1000 8 (\<lambda>a. ucast a)) =
      (\<lambda>a :: u64. if a \<in> region 0x1001 8 then ucast (0x1000 + (a - 0x1001)) else ucast a)"
    using memmove_buffered [where src = "0x1000" and n = "8" and dest = "0x1001" and m = "\<lambda>a. ucast a"] by simp
  have 2: "snd (memcpy 0x1000 0x1001 8 (\<lambda>a. ucast a)) =
      (\<lambda>a :: u64. if a \<in> region 0x1000 8 then ucast (0x1001 + (a - 0x1000)) else ucast a)"
    using memmove_buffered [where src = "0x1001" and n = "8" and dest = "0x1000" and m = "\<lambda>a. ucast a"] by simp
  show ?thesis unfolding 1 2 by (simp add: in_region_iff)
qed

text \<open>
  \<open>memcmp\<close> is the lexicographic order of the two blocks: 0 exactly when they agree,
  -1 exactly when the first byte that differs is smaller in the first block, else 1.
  \<open>strncmp\<close> is true exactly when the blocks agree and hold no null byte.
\<close>

lemma memcmp_correct:
  "memcmp m p q n \<in> {-1, 0, 1} \<and>
   (memcmp m p q n = 0 \<longleftrightarrow> (\<forall>d. d < n \<longrightarrow> m (p + d) = m (q + d))) \<and>
   (memcmp m p q n = -1 \<longleftrightarrow>
      (\<exists>d. d < n \<and> m (p + d) < m (q + d) \<and> (\<forall>e. e < d \<longrightarrow> m (p + e) = m (q + e)))) \<and>
   (strncmp m p q n \<longleftrightarrow> memcmp m p q n = 0 \<and> (\<forall>d. d < n \<longrightarrow> m (p + d) \<noteq> 0))"
  using memcmp_loop_values [of m p q n 0]
  by (auto simp: memcmp_def strncmp_def memcmp_loop_zero memcmp_loop_less strncmp_loop_iff)

lemma memcmp_correct_witness:
  "memcmp (\<lambda>a. ucast a) 0x10 0x20 4 = -1 \<and> \<not> strncmp (\<lambda>a. ucast a) 0x10 0x20 4"
proof -
  have "memcmp (\<lambda>a. ucast a) 0x10 0x20 4 = -1"
    using memcmp_correct [where m = "\<lambda>a. ucast a" and p = "0x10" and q = "0x20" and n = "4"] by (auto intro!: exI [of _ 0])
  moreover have "\<not> strncmp (\<lambda>a. ucast a) 0x10 0x20 4"
    using memcmp_correct [where m = "\<lambda>a. ucast a" and p = "0x10" and q = "0x20" and n = "4"] calculation by auto
  ultimately show ?thesis ..
qed

text \<open>
  C34: On strings that are terminated in memory, \<open>strlen\<close> returns the length; \<open>strcpy\<close> and
  \<open>strcat\<close> return, the destination then holding the copy or the concatenation, and touch
  nothing but the bytes of the result.
\<close>

theorem string_copy_correct:
  assumes src: "cstr m src s" and dest: "cstr m dest t"
    and room: "length t + length s < 2 ^ 64 - 1"
    and free: "apart dest (Suc (length t + length s)) src (Suc (length s))"
  shows "strlen m src = Some (of_nat (length s)) \<and>
    (\<exists>m'. strcat dest src m = Some (dest, m') \<and> cstr m' dest (t @ s) \<and>
      (\<forall>a. a - dest > of_nat (length t + length s) \<longrightarrow> m' a = m a)) \<and>
    (\<exists>m'. strcpy dest src m = Some m' \<and> cstr m' dest s \<and>
      (\<forall>a. a - dest > of_nat (length s) \<longrightarrow> m' a = m a))"
proof -
  let ?p = "dest + of_nat (length t)"
  have cat: "apart ?p (Suc (length s)) src (Suc (length s))"
    unfolding apart_def
  proof (intro allI impI)
    fix i j assume "i < Suc (length s)" "j < Suc (length s)"
    then show "?p + of_nat i \<noteq> src + of_nat j"
      using apartD [OF free, of "length t + i" j] by (simp add: add.assoc)
  qed
  have cpy: "apart (dest + 0) (Suc (length s)) (src + 0) (Suc (length s))"
    using free by (auto simp: apart_def)
  let ?m1 = "put_bytes ?p (s @ [0]) m" and ?m2 = "put_bytes dest (s @ [0]) m"
  have "strcat dest src m = Some (dest, ?m1)"
    using strcat_end_cstr [OF dest] strcat_copy_cstr [OF src cat] by (simp add: strcat_def)
  moreover have "?m1 a = m a" if "a - dest > of_nat (length t + length s)" for a
  proof (rule put_bytes_beyond)
    have "unat (of_nat (length t + length s) :: u64) = length t + length s"
      using room by (intro unat_of_nat_u64) simp
    with that have "length t + length s < unat (a - dest)" by (simp only: word_less_nat_alt)
    moreover have "unat (of_nat (length t) :: u64) = length t"
      using room by (intro unat_of_nat_u64) simp
    moreover have "a - ?p = a - dest - of_nat (length t)" by simp
    ultimately have "unat (a - ?p) = unat (a - dest) - length t"
      by (metis add_leD1 less_imp_le unat_sub word_le_nat_alt)
    then have "Suc (length s) \<le> unat (a - ?p)"
      using \<open>length t + length s < unat (a - dest)\<close> by linarith
    moreover have "unat (of_nat (Suc (length s)) :: u64) = Suc (length s)"
      using room by (intro unat_of_nat_u64) simp
    ultimately show "of_nat (Suc (length s)) \<le> a - ?p" by (simp only: word_le_nat_alt)
  qed (use room in simp_all)
  moreover have "strcpy dest src m = Some ?m2"
    using strcpy_loop_cstr [of m src 0 s dest] src cpy by (simp add: strcpy_def)
  moreover have "?m2 a = m a" if "a - dest > of_nat (length s)" for a
  proof (rule put_bytes_beyond)
    show "of_nat (Suc (length s)) \<le> a - dest" using inc_le [OF that] by (simp add: add.commute)
  qed (use room in simp_all)
  moreover have "cstr ?m2 dest s"
    by (rule cstr_put_bytes) (use room src cstr_nonzero in auto)
  ultimately show ?thesis
    using strlen_cstr [OF src] strcat_result [OF dest src room] by blast
qed

theorem string_copy_correct_witness:
  "\<exists>m'. strcat 0x10 0x20 (\<lambda>a. if a = 0x20 then 0x41 else 0) = Some (0x10, m') \<and> cstr m' 0x10 [0x41]"
proof -
  have "apart (0x10 :: u64) (Suc (length ([] :: u8 list) + length [0x41 :: u8])) 0x20 (Suc (length [0x41 :: u8]))"
    by (auto simp: apart_def less_Suc_eq)
  from string_copy_correct [where m = "\<lambda>a. if a = 0x20 then 0x41 else 0" and s = "[0x41]" and t = "[]",
      OF _ _ _ this]
  show ?thesis by auto
qed

text \<open>
  The comparison \<open>strcmp\<close> starts at the second byte: for a non-empty first string the
  answer does not depend on the first bytes, and for an empty one it is true whatever the
  second string is. For strings that start alike it is equality.
\<close>

lemma strcmp_skips_first:
  "(cstr m p (c # s) \<longrightarrow> cstr m q (d # t) \<longrightarrow> strcmp m p q = Some (s = t)) \<and>
   (cstr m p [] \<longrightarrow> strcmp m p q = Some True)"
  using strcmp_loop_cstr [of m p 0 c s q t] by (auto simp: strcmp_def strcmp_loop.simps [of m p q 0])

theorem strcmp_skips_first_witness:
  "strcmp (\<lambda>a. if a = 0x10 then 0x41 else if a = 0x20 then 0x42 else 0) 0x10 0x20 = Some True"
proof -
  let ?m = "\<lambda>a :: u64. if a = 0x10 then 0x41 else if a = 0x20 then 0x42 else (0 :: u8)"
  have "cstr ?m 0x10 [0x41]" "cstr ?m 0x20 [0x42]" by simp_all
  with strcmp_skips_first [where m = ?m and p = "0x10" and c = "0x41" and s = "[]"
      and q = "0x20" and d = "0x42" and t = "[]"]
  show ?thesis by simp
qed

end
