(* ===== verification/Pmm.thy ===== *)
theory Pmm
  imports Spinlock Bitmap Libc
begin

text \<open>
  The physical page allocator (\<open>src/kernel/memory/pmm.cpp\<close>, \<open>pmm.hpp\<close>): the macros on
  addresses, the initialisation from the bootloader's memory map, and the next-fit search
  of the bitmap under \<open>pmm_lock\<close>.
\<close>

section \<open>Addresses\<close>

definition PAGE_SIZE :: u64 where
  "PAGE_SIZE = 4 * 1024"

definition STACK_SIZE :: u64 where
  "STACK_SIZE = 1024 * 1024"

definition USER_STACK_BASE :: u64 where
  "USER_STACK_BASE = 0x00007ffffffff000"

definition ALIGN_UP :: "u64 \<Rightarrow> u64 \<Rightarrow> u64" where
  "ALIGN_UP addr align = (addr + align - 1) AND NOT (align - 1)"

definition ALIGN_DOWN :: "u64 \<Rightarrow> u64 \<Rightarrow> u64" where
  "ALIGN_DOWN addr align = addr AND NOT (align - 1)"

definition PHYS_TO_VIRT :: "'a machine_scheme \<Rightarrow> u64 \<Rightarrow> u64" where
  "PHYS_TO_VIRT s addr = addr + hhdm_offset s"

definition VIRT_TO_PHYS :: "'a machine_scheme \<Rightarrow> u64 \<Rightarrow> u64" where
  "VIRT_TO_PHYS s addr = addr - hhdm_offset s"

definition IO_TO_PHYS :: "'a machine_scheme \<Rightarrow> u64 \<Rightarrow> u64" where
  "IO_TO_PHYS s addr = addr - virtual_base s + physical_base s"

lemma VIRT_TO_PHYS_TO_VIRT [mem_simps]: "VIRT_TO_PHYS s (PHYS_TO_VIRT s a) = a"
  by (simp add: PHYS_TO_VIRT_def VIRT_TO_PHYS_def)

section \<open>State and operations\<close>

text \<open>
  A memory map entry: only whether its type is \<open>LIMINE_MEMMAP_USABLE\<close> is consulted.
\<close>

record memmap_entry =
  me_base :: u64
  me_length :: u64
  me_usable :: bool

record pmm = machine +
  pmm_lock :: spinlock
  pmm_bitmap :: bitmap
  last_page_idx :: u64

fun highest_addr :: "memmap_entry list \<Rightarrow> u64 \<Rightarrow> u64" where
  "highest_addr [] h = h"
| "highest_addr (e # es) h =
     highest_addr es (if me_usable e then max h (me_base e + me_length e) else h)"

fun place_bitmap :: "memmap_entry list \<Rightarrow> 'a pmm_scheme \<Rightarrow> memmap_entry list \<times> 'a pmm_scheme" where
  "place_bitmap [] s = ([], s)"
| "place_bitmap (e # es) s =
     (let b = pmm_bitmap s
      in if me_usable e \<and> me_length e \<ge> bm_size b then
           let s = s\<lparr>pmm_bitmap := b\<lparr>bm_data := PHYS_TO_VIRT s (me_base e)\<rparr>\<rparr>;
               s = s\<lparr>mem := snd (memset (bm_data (pmm_bitmap s)) 0xff (bm_size b) (mem s))\<rparr>
           in (e\<lparr>me_length := me_length e - bm_size b, me_base := me_base e + bm_size b\<rparr> # es, s)
         else let (es', s) = place_bitmap es s in (e # es', s))"

text \<open>The offset wraps around if the length is within a page of \<open>2 ^ 64\<close>: then \<open>None\<close>.\<close>

partial_function (option) free_entry_pages ::
  "memmap_entry \<Rightarrow> u64 \<Rightarrow> bitmap \<Rightarrow> memory \<Rightarrow> memory option" where
  "free_entry_pages e j b m =
     (if j < me_length e then
        free_entry_pages e (j + PAGE_SIZE) b (bitmap_set b ((me_base e + j) div PAGE_SIZE) False m)
      else Some m)"

declare free_entry_pages.simps [code]

fun free_entries :: "memmap_entry list \<Rightarrow> bitmap \<Rightarrow> memory \<Rightarrow> memory option" where
  "free_entries [] b m = Some m"
| "free_entries (e # es) b m =
     (if \<not> me_usable e then free_entries es b m
      else do { m' \<leftarrow> free_entry_pages e 0 b m; free_entries es b m' })"

definition pmm_init :: "memmap_entry list \<Rightarrow> 'a pmm_scheme \<Rightarrow> (memmap_entry list \<times> 'a pmm_scheme) option"
where
  "pmm_init memmap s =
     (let highest = highest_addr memmap 0;
          number_of_pages = highest div PAGE_SIZE;
          s = s\<lparr>pmm_bitmap := (pmm_bitmap s)\<lparr>bm_size := ALIGN_UP (number_of_pages div 8) PAGE_SIZE\<rparr>\<rparr>;
          (memmap, s) = place_bitmap memmap s
      in do { m \<leftarrow> free_entries memmap (pmm_bitmap s) (mem s); Some (memmap, s\<lparr>mem := m\<rparr>) })"

function inner_alloc_loop :: "u64 \<Rightarrow> u64 \<Rightarrow> u64 \<Rightarrow> 'a pmm_scheme \<Rightarrow> u64 \<times> 'a pmm_scheme" where
  "inner_alloc_loop pages limit acc s =
     (if last_page_idx s < limit then
        let idx = last_page_idx s; s' = s\<lparr>last_page_idx := idx + 1\<rparr>
        in if \<not> bitmap_get (pmm_bitmap s) idx (mem s) then
             if acc + 1 = pages then
               let page = last_page_idx s' - pages
               in (page * PAGE_SIZE,
                   s'\<lparr>mem := bitmap_set_range (pmm_bitmap s) page (last_page_idx s') True (mem s)\<rparr>)
             else inner_alloc_loop pages limit (acc + 1) s'
           else inner_alloc_loop pages limit 0 s'
      else (0, s))"
  by pat_completeness auto
termination
  by (relation "measure (\<lambda>(pages, limit, acc, s). unat limit - unat (last_page_idx s))")
     (auto simp: unat_inc word_less_nat_alt)

declare inner_alloc_loop.simps [simp del]

definition inner_alloc :: "u64 \<Rightarrow> u64 \<Rightarrow> 'a pmm_scheme \<Rightarrow> u64 \<times> 'a pmm_scheme" where
  "inner_alloc pages limit s = inner_alloc_loop pages limit 0 s"

text \<open>The two passes of \<open>alloc\<close>, between taking and releasing the lock.\<close>

definition alloc_passes :: "u64 \<Rightarrow> 'a pmm_scheme \<Rightarrow> u64 \<times> 'a pmm_scheme" where
  "alloc_passes pages s =
     (let (addr, s) = inner_alloc pages (bm_size (pmm_bitmap s) * PAGE_SIZE) s
      in if addr = 0 then
           let last = last_page_idx s
           in inner_alloc pages last (s\<lparr>last_page_idx := 0\<rparr>)
         else (addr, s))"

definition pmm_alloc :: "u64 \<Rightarrow> 'a pmm_scheme \<Rightarrow> (u64 \<times> 'a pmm_scheme) option" where
  "pmm_alloc pages s =
     (if pages = 0 then Some (0, s)
      else do {
        s \<leftarrow> acquire pmm_lock pmm_lock_update s;
        let (addr, s) = alloc_passes pages s;
        Some (addr, release pmm_lock pmm_lock_update s) })"

definition pmm_calloc :: "u64 \<Rightarrow> 'a pmm_scheme \<Rightarrow> (u64 \<times> 'a pmm_scheme) option" where
  "pmm_calloc pages s =
     (if pages = 0 then Some (0, s)
      else do {
        (ret, s) \<leftarrow> pmm_alloc pages s;
        if ret \<noteq> 0
        then Some (ret, s\<lparr>mem := snd (memset (PHYS_TO_VIRT s ret) 0 (pages * PAGE_SIZE) (mem s))\<rparr>)
        else Some (ret, s) })"

definition pmm_free :: "u64 \<Rightarrow> u64 \<Rightarrow> 'a pmm_scheme \<Rightarrow> 'a pmm_scheme option" where
  "pmm_free addr pages s =
     do {
       s \<leftarrow> acquire pmm_lock pmm_lock_update s;
       let page_idx = addr div PAGE_SIZE;
       let s = s\<lparr>mem := bitmap_set_range (pmm_bitmap s) page_idx (page_idx + pages) False (mem s)\<rparr>;
       Some (release pmm_lock pmm_lock_update s) }"

interpretation pmm_lk: lock_field pmm_lock pmm_lock_update
  by unfold_locales (auto simp: comp_def)

section \<open>The search\<close>

definition page_used :: "'a pmm_scheme \<Rightarrow> u64 \<Rightarrow> bool" where
  "page_used s i = bitmap_get (pmm_bitmap s) i (mem s)"

text \<open>\<open>n\<close> free pages from page \<open>p\<close> on.\<close>

definition free_run :: "'a pmm_scheme \<Rightarrow> nat \<Rightarrow> nat \<Rightarrow> bool" where
  "free_run s p n \<longleftrightarrow> (\<forall>i. p \<le> i \<and> i < p + n \<longrightarrow> \<not> page_used s (of_nat i))"

text \<open>
  What a search from page \<open>lo\<close> for \<open>n\<close> pages below \<open>limit\<close> delivers: the first run of
  free pages, marked used, or 0 when there is none.
\<close>

definition take_run :: "'a pmm_scheme \<Rightarrow> nat \<Rightarrow> nat \<Rightarrow> 'a pmm_scheme" where
  "take_run s p n = s\<lparr>mem := bitmap_set_range (pmm_bitmap s) (of_nat p) (of_nat (p + n)) True (mem s),
     last_page_idx := of_nat (p + n)\<rparr>"

definition first_run :: "'a pmm_scheme \<Rightarrow> nat \<Rightarrow> nat \<Rightarrow> nat \<Rightarrow> nat \<Rightarrow> bool" where
  "first_run s lo n limit p \<longleftrightarrow> lo \<le> p \<and> p + n \<le> limit \<and> free_run s p n \<and>
     (\<forall>q. lo \<le> q \<and> q < p \<longrightarrow> \<not> free_run s q n)"

definition no_run :: "'a pmm_scheme \<Rightarrow> nat \<Rightarrow> nat \<Rightarrow> nat \<Rightarrow> bool" where
  "no_run s lo n limit \<longleftrightarrow> (\<forall>q. lo \<le> q \<and> q + n \<le> limit \<longrightarrow> \<not> free_run s q n)"

lemma page_used_last [simp]: "page_used (s\<lparr>last_page_idx := i\<rparr>) = page_used s"
  by (simp add: page_used_def fun_eq_iff)

lemma free_run_last [simp]: "free_run (s\<lparr>last_page_idx := i\<rparr>) = free_run s"
  by (simp add: free_run_def fun_eq_iff)

lemma not_free_run_used:
  "page_used s (of_nat i) \<Longrightarrow> p \<le> i \<Longrightarrow> i < p + n \<Longrightarrow> \<not> free_run s p n"
  by (auto simp: free_run_def)

lemma free_run_snoc:
  "free_run s p n \<Longrightarrow> \<not> page_used s (of_nat (p + n)) \<Longrightarrow> free_run s p (Suc n)"
  by (auto simp: free_run_def less_Suc_eq)

lemma inner_alloc_loop_spec:
  assumes "acc < pages" and "acc \<le> last_page_idx s"
    and "lo \<le> unat (last_page_idx s) - unat acc"
    and "free_run s (unat (last_page_idx s) - unat acc) (unat acc)"
    and "\<forall>q. lo \<le> q \<and> q < unat (last_page_idx s) - unat acc \<longrightarrow> \<not> free_run s q (unat pages)"
    and "inner_alloc_loop pages limit acc s = (r, t)"
  shows "(\<exists>p. first_run s lo (unat pages) (unat limit) p \<and> r = of_nat p * PAGE_SIZE \<and>
            t = take_run s p (unat pages)) \<or>
         (r = 0 \<and> no_run s lo (unat pages) (unat limit) \<and>
            t = s\<lparr>last_page_idx := max (last_page_idx s) limit\<rparr>)"
  using assms
proof (induction pages limit acc s rule: inner_alloc_loop.induct)
  case (1 pages limit acc s)
  let ?idx = "last_page_idx s"
  let ?s' = "s\<lparr>last_page_idx := ?idx + 1\<rparr>"
  have acc: "unat acc < unat pages" "unat acc \<le> unat ?idx"
    using "1.prems"(1,2) by (simp_all add: word_less_nat_alt word_le_nat_alt)
  have acc1: "unat (acc + 1) = Suc (unat acc)" using "1.prems"(1) by (rule unat_inc)
  show ?case
  proof (cases "?idx < limit")
    case False
    have "no_run s lo (unat pages) (unat limit)"
      unfolding no_run_def
    proof (intro allI impI)
      fix q assume q: "lo \<le> q \<and> q + unat pages \<le> unat limit"
      then have "q < unat ?idx - unat acc"
        using False acc unfolding word_less_nat_alt by linarith
      with q "1.prems"(5) show "\<not> free_run s q (unat pages)" by blast
    qed
    moreover have "(r, t) = (0, s)" using "1.prems"(6) False by (subst (asm) inner_alloc_loop.simps) simp
    moreover have "max ?idx limit = ?idx" using False by (simp add: max_def)
    ultimately show ?thesis by simp
  next
    case True
    have idx1: "unat (?idx + 1) = Suc (unat ?idx)" using True by (rule unat_inc)
    have idx1_le: "?idx + 1 \<le> limit" using True by (rule inc_le)
    have lim: "max (?idx + 1) limit = max ?idx limit"
      using idx1_le True by (simp add: max_absorb2 less_imp_le)
    show ?thesis
    proof (cases "page_used s ?idx")
      case used: True
      have rec: "inner_alloc_loop pages limit 0 ?s' = (r, t)"
        using "1.prems"(6) True used
        by (subst (asm) inner_alloc_loop.simps) (simp add: page_used_def Let_def)
      have none: "\<not> free_run s q (unat pages)" if "lo \<le> q" "q < Suc (unat ?idx)" for q
      proof (cases "q < unat ?idx - unat acc")
        case True
        with that "1.prems"(5) show ?thesis by blast
      next
        case False
        show ?thesis
          by (rule not_free_run_used [of s "unat ?idx"]) (use used False that acc in auto)
      qed
      have "(\<exists>p. first_run ?s' lo (unat pages) (unat limit) p \<and> r = of_nat p * PAGE_SIZE \<and>
            t = take_run ?s' p (unat pages)) \<or>
         (r = 0 \<and> no_run ?s' lo (unat pages) (unat limit) \<and>
            t = ?s'\<lparr>last_page_idx := max (last_page_idx ?s') limit\<rparr>)"
        using "1.prems"(1,3) none rec used True
        by (intro "1.IH"(2) [OF True refl refl])
           (auto simp: idx1 page_used_def free_run_def word_gt_0)
      then show ?thesis
        by (simp add: first_run_def no_run_def take_run_def lim)
    next
      case unused: False
      show ?thesis
      proof (cases "acc + 1 = pages")
        case found: True
        then have n: "unat pages = Suc (unat acc)" using acc1 by simp
        let ?p = "unat ?idx - unat acc"
        have p: "?p + unat pages = Suc (unat ?idx)" using n acc by simp
        have page: "?idx + 1 - pages = of_nat ?p"
        proof -
          have "?idx + 1 - pages = ?idx - acc" using found by (auto simp: algebra_simps)
          also have "\<dots> = of_nat ?p" using acc by (simp add: of_nat_diff)
          finally show ?thesis .
        qed
        have "(r, t) = ((?idx + 1 - pages) * PAGE_SIZE,
            ?s'\<lparr>mem := bitmap_set_range (pmm_bitmap s) (?idx + 1 - pages) (?idx + 1) True (mem s)\<rparr>)"
          using "1.prems"(6) True unused found
          by (subst (asm) inner_alloc_loop.simps) (simp add: page_used_def Let_def)
        moreover have "of_nat (?p + unat pages) = ?idx + 1" unfolding p by simp
        ultimately have "r = of_nat ?p * PAGE_SIZE" "t = take_run s ?p (unat pages)"
          unfolding page by (simp_all add: take_run_def)
        moreover have "first_run s lo (unat pages) (unat limit) ?p"
        proof -
          have "free_run s ?p (unat pages)"
            using free_run_snoc [OF "1.prems"(4)] unused n acc by simp
          then show ?thesis
            using "1.prems"(3,5) p True unfolding first_run_def
            by (simp add: word_less_nat_alt Suc_le_eq)
        qed
        ultimately show ?thesis by blast
      next
        case more: False
        have rec: "inner_alloc_loop pages limit (acc + 1) ?s' = (r, t)"
          using "1.prems"(6) True unused more
          by (subst (asm) inner_alloc_loop.simps) (simp add: page_used_def Let_def)
        have less: "acc + 1 < pages"
          using more inc_le [OF "1.prems"(1)] by simp
        have run: "free_run s (unat ?idx - unat acc) (Suc (unat acc))"
          using free_run_snoc [OF "1.prems"(4)] unused acc by simp
        have "(\<exists>p. first_run ?s' lo (unat pages) (unat limit) p \<and> r = of_nat p * PAGE_SIZE \<and>
              t = take_run ?s' p (unat pages)) \<or>
           (r = 0 \<and> no_run ?s' lo (unat pages) (unat limit) \<and>
              t = ?s'\<lparr>last_page_idx := max (last_page_idx ?s') limit\<rparr>)"
          using "1.prems"(3,5) rec unused more less run
          by (intro "1.IH"(1) [OF True refl refl])
             (auto simp: idx1 acc1 page_used_def word_le_nat_alt acc)
        then show ?thesis
          by (simp add: first_run_def no_run_def take_run_def lim)
      qed
    qed
  qed
qed

lemma inner_alloc_spec:
  assumes "0 < pages" and "inner_alloc pages limit s = (r, t)"
  shows "(\<exists>p. first_run s (unat (last_page_idx s)) (unat pages) (unat limit) p \<and>
            r = of_nat p * PAGE_SIZE \<and> t = take_run s p (unat pages)) \<or>
         (r = 0 \<and> no_run s (unat (last_page_idx s)) (unat pages) (unat limit) \<and>
            t = s\<lparr>last_page_idx := max (last_page_idx s) limit\<rparr>)"
  by (rule inner_alloc_loop_spec [where acc = 0])
     (use assms in \<open>auto simp: inner_alloc_def free_run_def\<close>)

text \<open>Runs of free pages at different starting points.\<close>

lemma free_run_sub: "free_run s p n \<Longrightarrow> p \<le> q \<Longrightarrow> q + k \<le> p + n \<Longrightarrow> free_run s q k"
  by (auto simp: free_run_def)

lemma page_used_take_run:
  assumes "p + n < 2 ^ 64"
  shows "page_used (take_run s p n) i \<longleftrightarrow> p \<le> unat i \<and> unat i < p + n \<or> page_used s i"
proof -
  have "unat (of_nat p :: u64) = p" "unat (of_nat (p + n) :: u64) = p + n"
    using assms by (simp_all only: unat_of_nat_u64)
  then show ?thesis
    by (auto simp add: page_used_def take_run_def bitmap_get_set_range word_le_nat_alt
        word_less_nat_alt simp del: of_nat_add)
qed

text \<open>The number of bits the search may look at.\<close>

definition search_limit :: "'a pmm_scheme \<Rightarrow> u64" where
  "search_limit s = bm_size (pmm_bitmap s) * PAGE_SIZE"

text \<open>
  The outcome of both passes. A first pass that takes page 0 returns the null pointer and
  is not recognised as a success, so the functional statement is for a used page 0, which
  the bootloader's map guarantees.
\<close>

definition alloc_outcome :: "nat \<Rightarrow> 'a pmm_scheme \<Rightarrow> u64 \<Rightarrow> 'a pmm_scheme \<Rightarrow> bool" where
  "alloc_outcome n s r t \<longleftrightarrow>
     (if r = 0 then no_run s 0 n (unat (search_limit s)) \<and>
        t = s\<lparr>last_page_idx := search_limit s\<rparr>
      else \<exists>p. r = of_nat p * PAGE_SIZE \<and> 0 < p \<and> p + n \<le> unat (search_limit s) \<and>
        free_run s p n \<and> t = take_run s p n)"

lemma unat_page_addr:
  assumes "p < 2 ^ 52"
  shows "unat (of_nat p * PAGE_SIZE) = p * 4096"
proof -
  have "of_nat p * PAGE_SIZE = (of_nat (p * 4096) :: u64)" by (simp add: PAGE_SIZE_def)
  moreover have "p * 4096 < 2 ^ 64" using assms by simp
  ultimately show ?thesis by (simp only: unat_of_nat_u64)
qed

lemma page_addr_nonzero: "0 < p \<Longrightarrow> p < 2 ^ 52 \<Longrightarrow> of_nat p * PAGE_SIZE \<noteq> 0"
  using unat_page_addr [of p] by auto

lemma take_run_last: "take_run (s\<lparr>last_page_idx := i\<rparr>) p n = take_run s p n"
  by (simp add: take_run_def)

text \<open>
  The allocator's invariant: the search position and the limit fit (page numbers below
  \<open>2 ^ 52\<close> have addresses), and page 0 is never free.
\<close>

definition pmm_inv :: "'a pmm_scheme \<Rightarrow> bool" where
  "pmm_inv s \<longleftrightarrow> last_page_idx s \<le> search_limit s \<and> 0 < search_limit s \<and>
     unat (search_limit s) < 2 ^ 52 \<and> page_used s 0"

lemma free_run_positive: "pmm_inv s \<Longrightarrow> 0 < n \<Longrightarrow> free_run s p n \<Longrightarrow> 0 < p"
  by (auto simp: free_run_def pmm_inv_def intro!: gr0I)

lemma first_run_address:
  assumes "pmm_inv s" and "0 < n" and "first_run s lo n (unat (search_limit s)) p"
  shows "0 < p" and "p < 2 ^ 52" and "of_nat p * PAGE_SIZE \<noteq> 0"
proof -
  show p: "0 < p" using assms free_run_positive by (auto simp: first_run_def)
  show "p < 2 ^ 52" using assms by (auto simp: first_run_def pmm_inv_def)
  with p show "of_nat p * PAGE_SIZE \<noteq> 0" by (rule page_addr_nonzero)
qed

lemma pmm_inv_last: "pmm_inv s \<Longrightarrow> i \<le> search_limit s \<Longrightarrow> pmm_inv (s\<lparr>last_page_idx := i\<rparr>)"
  by (simp add: pmm_inv_def search_limit_def)

lemma alloc_passes_outcome:
  assumes "0 < pages" and inv: "pmm_inv s" and "alloc_passes pages s = (r, t)"
  shows "alloc_outcome (unat pages) s r t"
proof -
  let ?n = "unat pages" and ?lim = "unat (search_limit s)"
  have n: "0 < ?n" using assms(1) by (simp add: unat_gt_0 word_gt_0)
  obtain r1 t1 where pass1: "inner_alloc pages (search_limit s) s = (r1, t1)" by fastforce
  have max_lim: "max (last_page_idx s) (search_limit s) = search_limit s"
    using inv by (simp add: pmm_inv_def max_absorb2)
  show ?thesis
  proof (cases "r1 = 0")
    case False
    then have "r = r1" "t = t1"
      using assms(3) pass1 by (auto simp: alloc_passes_def search_limit_def)
    with False inner_alloc_spec [OF assms(1) pass1] first_run_address(1) [OF inv n]
    show ?thesis by (auto simp: alloc_outcome_def first_run_def)
  next
    case True
    then have t1: "t1 = s\<lparr>last_page_idx := search_limit s\<rparr>"
      using inner_alloc_spec [OF assms(1) pass1] first_run_address(3) [OF inv n] max_lim by auto
    let ?s0 = "s\<lparr>last_page_idx := 0\<rparr>"
    have pass2: "inner_alloc pages (search_limit s) ?s0 = (r, t)"
      using assms(3) pass1 True t1 by (auto simp: alloc_passes_def search_limit_def Let_def)
    have "0 \<le> search_limit s" by simp
    from pmm_inv_last [OF inv this] have inv0: "pmm_inv ?s0" .
    have lim0: "search_limit ?s0 = search_limit s" by (simp add: search_limit_def)
    have fr: "first_run ?s0 = first_run s" "no_run ?s0 = no_run s"
      by (auto simp: first_run_def no_run_def fun_eq_iff)
    from inner_alloc_spec [OF assms(1) pass2]
    consider p where "first_run s 0 ?n ?lim p" "r = of_nat p * PAGE_SIZE" "t = take_run s p ?n"
      | "r = 0" "no_run s 0 ?n ?lim" "t = s\<lparr>last_page_idx := search_limit s\<rparr>"
      unfolding fr by (auto simp: take_run_last max_def)
    then show ?thesis
    proof cases
      case 1
      with first_run_address [OF inv n 1(1)] show ?thesis
        by (auto simp: alloc_outcome_def first_run_def)
    next
      case 2
      then show ?thesis by (auto simp: alloc_outcome_def)
    qed
  qed
qed

text \<open>The lock and the flags pass through the search untouched.\<close>

lemma last_frame:
  "s\<lparr>rflags := f, pmm_lock := k, last_page_idx := i\<rparr> =
   s\<lparr>last_page_idx := i, rflags := f, pmm_lock := k\<rparr>"
  by simp

lemma inner_alloc_loop_frame:
  "inner_alloc_loop pages limit acc (s\<lparr>rflags := f, pmm_lock := k\<rparr>) =
     (let (r, t) = inner_alloc_loop pages limit acc s in (r, t\<lparr>rflags := f, pmm_lock := k\<rparr>))"
proof (induction pages limit acc s rule: inner_alloc_loop.induct)
  case (1 pages limit acc s)
  show ?case
    using "1.IH" by (subst (1 2) inner_alloc_loop.simps) (auto simp: Let_def last_frame split: prod.splits)
qed

lemma alloc_passes_frame:
  "alloc_passes pages (s\<lparr>rflags := f, pmm_lock := k\<rparr>) =
     (let (r, t) = alloc_passes pages s in (r, t\<lparr>rflags := f, pmm_lock := k\<rparr>))"
  by (auto simp: alloc_passes_def inner_alloc_def inner_alloc_loop_frame Let_def last_frame
      split: prod.splits)

section \<open>The operations under the lock\<close>

lemma alloc_passes_fixed:
  assumes "alloc_passes pages s = (r, t)"
  shows "rflags t = rflags s" and "pmm_lock t = pmm_lock s"
proof -
  have "s = s\<lparr>rflags := rflags s, pmm_lock := pmm_lock s\<rparr>" by simp
  then have "alloc_passes pages s = (let (r, t) = alloc_passes pages s in
      (r, t\<lparr>rflags := rflags s, pmm_lock := pmm_lock s\<rparr>))"
    using alloc_passes_frame by metis
  then have t: "t = t\<lparr>rflags := rflags s, pmm_lock := pmm_lock s\<rparr>"
    using assms by simp
  show "rflags t = rflags s" by (subst t) simp
  show "pmm_lock t = pmm_lock s" by (subst t) simp
qed

definition freed_lock :: "'a machine_scheme \<Rightarrow> spinlock" where
  "freed_lock s = \<lparr>locked = False, restore_interrupts = interrupts_enabled s\<rparr>"

lemma release_pmm_bracket:
  assumes "rflags t = rflags s"
  shows "release pmm_lock pmm_lock_update
      (t\<lparr>rflags := unset_bit 9 (rflags s),
         pmm_lock := \<lparr>locked = True, restore_interrupts = interrupts_enabled s\<rparr>\<rparr>) =
    t\<lparr>pmm_lock := freed_lock s\<rparr>"
proof -
  have "t\<lparr>pmm_lock := k, rflags := rflags s\<rparr> = t\<lparr>pmm_lock := k\<rparr>" for k
    using assms by simp
  then show ?thesis
    using assms by (simp add: release_def Let_def enable_interrupts_def freed_lock_def
      interrupts_enabled_def flags_restored flags_unchanged)
qed

lemma acquire_pmm:
  "\<not> locked (pmm_lock s) \<Longrightarrow> acquire pmm_lock pmm_lock_update s =
     Some (s\<lparr>rflags := unset_bit 9 (rflags s),
       pmm_lock := \<lparr>locked = True, restore_interrupts = interrupts_enabled s\<rparr>\<rparr>)"
  by (simp add: pmm_lk.acquire_free disable_interrupts_def)

lemma pmm_alloc_eq:
  assumes "\<not> locked (pmm_lock s)" and "pages \<noteq> 0" and "alloc_passes pages s = (r, t)"
  shows "pmm_alloc pages s = Some (r, t\<lparr>pmm_lock := freed_lock s\<rparr>)"
  using assms alloc_passes_fixed(1) [OF assms(3)]
  by (simp add: pmm_alloc_def acquire_pmm alloc_passes_frame release_pmm_bracket)

lemma mem_frame:
  "s\<lparr>rflags := f, pmm_lock := k, mem := m\<rparr> = s\<lparr>mem := m, rflags := f, pmm_lock := k\<rparr>"
  by simp

lemma pmm_free_eq:
  assumes "\<not> locked (pmm_lock s)"
  shows "pmm_free addr pages s =
    Some (s\<lparr>mem := bitmap_set_range (pmm_bitmap s) (addr div PAGE_SIZE)
        (addr div PAGE_SIZE + pages) False (mem s), pmm_lock := freed_lock s\<rparr>)"
  using assms by (simp add: pmm_free_def acquire_pmm Let_def mem_frame release_pmm_bracket)

text \<open>What an allocation delivers, in terms of the pages alone.\<close>

lemma page_used_lock [simp]: "page_used (s\<lparr>pmm_lock := k\<rparr>) = page_used s"
  by (simp add: page_used_def fun_eq_iff)

lemma search_limit_lock [simp]: "search_limit (s\<lparr>pmm_lock := k\<rparr>) = search_limit s"
  by (simp add: search_limit_def)

lemma search_limit_take_run [simp]: "search_limit (take_run s p n) = search_limit s"
  by (simp add: search_limit_def take_run_def)

lemma pmm_inv_lock [simp]: "pmm_inv (s\<lparr>pmm_lock := k\<rparr>) = pmm_inv s"
  by (simp add: pmm_inv_def)

lemma pmm_inv_take_run:
  assumes "pmm_inv s" and "p + n \<le> unat (search_limit s)"
  shows "pmm_inv (take_run s p n)"
proof -
  have "p + n < 2 ^ 64" using assms by (simp add: pmm_inv_def)
  then have "unat (of_nat (p + n) :: u64) = p + n" by (simp only: unat_of_nat_u64)
  then have "last_page_idx (take_run s p n) \<le> search_limit s"
    using assms(2) by (simp add: take_run_def word_le_nat_alt del: of_nat_add)
  with assms(1) \<open>p + n < 2 ^ 64\<close> show ?thesis
    by (simp add: pmm_inv_def page_used_take_run)
qed

lemma pmm_alloc_cases:
  assumes "pmm_inv s" and "\<not> locked (pmm_lock s)" and "pages \<noteq> 0"
  obtains r t where "pmm_alloc pages s = Some (r, t)" and "pmm_inv t"
    and "\<not> locked (pmm_lock t)" and "rflags t = rflags s" and "pmm_bitmap t = pmm_bitmap s"
    and "r = 0 \<Longrightarrow> mem t = mem s \<and> no_run s 0 (unat pages) (unat (search_limit s))"
    and "r \<noteq> 0 \<Longrightarrow> \<exists>p. r = of_nat p * PAGE_SIZE \<and> 0 < p \<and>
      p + unat pages \<le> unat (search_limit s) \<and> free_run s p (unat pages) \<and>
      t = (take_run s p (unat pages))\<lparr>pmm_lock := freed_lock s\<rparr>"
proof -
  have pos: "0 < pages" using assms(3) by (simp add: word_gt_0)
  obtain r t where rt: "alloc_passes pages s = (r, t)" by fastforce
  have out: "alloc_outcome (unat pages) s r t" by (rule alloc_passes_outcome [OF pos assms(1) rt])
  have inv: "pmm_inv t"
  proof (cases "r = 0")
    case True
    with out assms(1) show ?thesis
      by (auto simp: alloc_outcome_def pmm_inv_def search_limit_def)
  next
    case False
    with out assms(1) show ?thesis by (auto simp: alloc_outcome_def pmm_inv_take_run)
  qed
  have "pmm_bitmap t = pmm_bitmap s"
    using out by (auto simp: alloc_outcome_def take_run_def split: if_splits)
  with pmm_alloc_eq [OF assms(2,3) rt] inv out alloc_passes_fixed [OF rt]
  show ?thesis
    by (intro that [of r "t\<lparr>pmm_lock := freed_lock s\<rparr>"])
       (auto simp: freed_lock_def alloc_outcome_def split: if_splits)
qed

text \<open>Freeing pages \<open>p .. p + n - 1\<close> clears exactly their bits.\<close>

lemma page_addr_div:
  assumes "p < 2 ^ 52"
  shows "of_nat p * PAGE_SIZE div PAGE_SIZE = of_nat p"
proof (rule word_unat_eq_iff [THEN iffD2])
  have "unat (of_nat p :: u64) = p" using assms by (intro unat_of_nat_u64) simp
  then show "unat (of_nat p * PAGE_SIZE div PAGE_SIZE) = unat (of_nat p :: u64)"
    using unat_page_addr [OF assms] by (simp add: unat_div PAGE_SIZE_def)
qed

lemma pmm_free_cases:
  assumes "pmm_inv s" and "\<not> locked (pmm_lock s)" and "0 < p"
    and "p + unat n \<le> unat (search_limit s)" and "p < 2 ^ 52"
  obtains t where "pmm_free (of_nat p * PAGE_SIZE) n s = Some t" and "pmm_inv t"
    and "\<not> locked (pmm_lock t)" and "rflags t = rflags s" and "pmm_bitmap t = pmm_bitmap s"
    and "\<And>i. page_used t i \<longleftrightarrow> page_used s i \<and> \<not> (p \<le> unat i \<and> unat i < p + unat n)"
    and "\<And>a. a \<notin> bitmap_byte (pmm_bitmap s) ` {i. p \<le> unat i \<and> unat i < p + unat n} \<Longrightarrow>
      mem t a = mem s a"
proof -
  define t where "t = s\<lparr>mem := bitmap_set_range (pmm_bitmap s) (of_nat p) (of_nat p + n) False (mem s),
      pmm_lock := freed_lock s\<rparr>"
  have small: "p + unat n < 2 ^ 64" using assms(1,4) by (simp add: pmm_inv_def)
  have n: "of_nat p + n = (of_nat (p + unat n) :: u64)" by simp
  have range: "of_nat p \<le> i \<and> i < of_nat p + n \<longleftrightarrow> p \<le> unat i \<and> unat i < p + unat n" for i :: u64
  proof -
    have "unat (of_nat p :: u64) = p" "unat (of_nat (p + unat n) :: u64) = p + unat n"
      using small by (simp_all only: unat_of_nat_u64)
    then show ?thesis unfolding n word_le_nat_alt word_less_nat_alt by metis
  qed
  have used: "page_used t i \<longleftrightarrow> page_used s i \<and> \<not> (p \<le> unat i \<and> unat i < p + unat n)" for i
    by (auto simp: page_used_def t_def bitmap_get_set_range range)
  have "pmm_inv t"
    using assms(1,3) used [of 0] by (auto simp: pmm_inv_def search_limit_def t_def)
  moreover have "pmm_free (of_nat p * PAGE_SIZE) n s = Some t"
    using assms(2) page_addr_div [OF assms(5)] by (simp add: pmm_free_eq t_def)
  moreover have "mem t a = mem s a"
    if "a \<notin> bitmap_byte (pmm_bitmap s) ` {i. p \<le> unat i \<and> unat i < p + unat n}" for a
  proof -
    have "a \<noteq> bitmap_byte (pmm_bitmap s) j" if "of_nat p \<le> j" "j < of_nat p + n" for j
      using \<open>a \<notin> _\<close> range [of j] that by blast
    then show ?thesis by (auto simp: t_def intro!: bitmap_set_range_outside)
  qed
  ultimately show ?thesis
    using used by (intro that [of t]) (auto simp: t_def freed_lock_def)
qed

section \<open>Pages that have a bit\<close>

text \<open>
  The bitmap has eight bits per byte, and the search goes on to \<open>bm_size * PAGE_SIZE\<close>, far behind
  it. What the allocator takes for the state of a page without a bit is the memory behind the
  bitmap, which belongs to others: whatever is to hold at all times can only speak of the pages
  that have a bit, and of searches that end among them.
\<close>

definition bit_count :: "'a pmm_scheme \<Rightarrow> nat" where
  "bit_count s = 8 * unat (bm_size (pmm_bitmap s))"

definition bitmap_bytes :: "'a pmm_scheme \<Rightarrow> u64 set" where
  "bitmap_bytes s = region (bm_data (pmm_bitmap s)) (bm_size (pmm_bitmap s))"

lemma bit_count_div: "unat i < bit_count s \<longleftrightarrow> i div 8 < bm_size (pmm_bitmap s)"
  by (simp add: bit_count_def word_less_nat_alt unat_div div_less_iff_less_mult mult.commute)

lemma bitmap_byte_own: "unat i < bit_count s \<Longrightarrow> bitmap_byte (pmm_bitmap s) i \<in> bitmap_bytes s"
  by (simp add: bitmap_bytes_def bitmap_byte_def region_offset bit_count_div)

lemma page_used_outside:
  assumes "pmm_bitmap t = pmm_bitmap s" and "unat i < bit_count s"
    and "\<And>a. a \<in> bitmap_bytes s \<Longrightarrow> mem t a = mem s a"
  shows "page_used t i = page_used s i"
  unfolding page_used_def assms(1)
  by (rule bitmap_get_cong) (rule assms(3) [OF bitmap_byte_own [OF assms(2)]])

lemma bit_count_positive: "pmm_inv s \<Longrightarrow> 0 < bit_count s"
  by (auto simp: pmm_inv_def search_limit_def bit_count_def unat_gt_0)

lemma bit_count_limit: "bit_count s \<le> 2 ^ 52 \<Longrightarrow> bit_count s \<le> unat (search_limit s)"
proof -
  assume "bit_count s \<le> 2 ^ 52"
  then have "unat (bm_size (pmm_bitmap s)) * 4096 < 2 ^ 64" by (simp add: bit_count_def)
  then have "unat (search_limit s) = unat (bm_size (pmm_bitmap s)) * 4096"
    by (simp add: search_limit_def PAGE_SIZE_def unat_word_ariths)
  then show ?thesis by (simp add: bit_count_def)
qed

text \<open>The bytes of a page in the direct map.\<close>

definition page_va :: "'a machine_scheme \<Rightarrow> nat \<Rightarrow> u64" where
  "page_va s p = PHYS_TO_VIRT s (of_nat p * PAGE_SIZE)"

definition frame :: "'a machine_scheme \<Rightarrow> nat \<Rightarrow> u64 set" where
  "frame s p = region (page_va s p) PAGE_SIZE"

lemma page_va_offset: "page_va s p = hhdm_offset s + of_nat (p * 4096)"
  by (simp add: page_va_def PHYS_TO_VIRT_def PAGE_SIZE_def add.commute)

lemma PAGE_SIZE_of_nat: "PAGE_SIZE = of_nat 4096"
  by (simp add: PAGE_SIZE_def)

lemma frames_disjoint:
  assumes "p \<noteq> q" and "p < 2 ^ 52" and "q < 2 ^ 52"
  shows "frame s p \<inter> frame s q = {}"
proof -
  have one: "frame s p \<inter> frame s q = {}" if "p < q" "q < 2 ^ 52" for p q
  proof -
    have "p * 4096 + 4096 \<le> q * 4096" using that(1) by simp
    moreover have "q * 4096 + 4096 \<le> 2 ^ 64" using that(2) by simp
    ultimately show ?thesis unfolding frame_def page_va_offset PAGE_SIZE_of_nat by (rule region_apart)
  qed
  show ?thesis using one [of p q] one [of q p] assms by (metis Int_commute linorder_neqE_nat)
qed

text \<open>The bitmap lies in pages that are in use, as \<open>init\<close> leaves it; then no page the search takes holds a byte of it.\<close>

definition bitmap_reserved :: "'a pmm_scheme \<Rightarrow> bool" where
  "bitmap_reserved s \<longleftrightarrow> bit_count s \<le> 2 ^ 52 \<and>
     (\<forall>a \<in> bitmap_bytes s. \<exists>p < bit_count s. a \<in> frame s p \<and> page_used s (of_nat p))"

lemma unused_frame:
  assumes "bitmap_reserved s" and "q < 2 ^ 52" and "q < bit_count s \<Longrightarrow> \<not> page_used s (of_nat q)"
  shows "frame s q \<inter> bitmap_bytes s = {}"
proof -
  have False if a: "a \<in> frame s q" "a \<in> bitmap_bytes s" for a
  proof -
    obtain p where p: "p < bit_count s" "a \<in> frame s p" "page_used s (of_nat p)"
      using assms(1) a(2) by (auto simp: bitmap_reserved_def)
    then have "p \<noteq> q" using assms(3) by blast
    moreover have "p < 2 ^ 52" using p(1) assms(1) by (simp add: bitmap_reserved_def)
    ultimately have "frame s p \<inter> frame s q = {}" using assms(2) by (intro frames_disjoint)
    with a(1) p(2) show False by blast
  qed
  then show ?thesis by blast
qed

text \<open>
  There is room for \<open>n\<close> pages ahead of the search: a run of free pages that have a bit. As long as
  there is, the search takes its pages from these, and the room shrinks by what it takes.
\<close>

definition room_ahead :: "'a pmm_scheme \<Rightarrow> nat \<Rightarrow> bool" where
  "room_ahead s n \<longleftrightarrow> (\<exists>p. unat (last_page_idx s) \<le> p \<and> p + n \<le> bit_count s \<and> free_run s p n)"

lemma room_ahead_mono: "room_ahead s n \<Longrightarrow> k \<le> n \<Longrightarrow> room_ahead s k"
  unfolding room_ahead_def by (meson add_le_mono free_run_sub order_refl order_trans)

lemma room_ahead_cong:
  assumes "pmm_bitmap t = pmm_bitmap s" and "last_page_idx t = last_page_idx s" and "bit_count s \<le> 2 ^ 64"
    and "\<And>i. unat i < bit_count s \<Longrightarrow> page_used t i = page_used s i" and "room_ahead s n"
  shows "room_ahead t n"
proof -
  obtain p where p: "unat (last_page_idx s) \<le> p" "p + n \<le> bit_count s" "free_run s p n"
    using assms(5) by (auto simp: room_ahead_def)
  have count: "bit_count t = bit_count s" by (simp add: bit_count_def assms(1))
  have "\<not> page_used t (of_nat i)" if "p \<le> i" "i < p + n" for i
  proof -
    have "unat (of_nat i :: u64) = i" using that(2) p(2) assms(3) by (intro unat_of_nat_u64) simp
    then show ?thesis using assms(4) [of "of_nat i"] that p(2,3) by (simp add: free_run_def)
  qed
  then show ?thesis using p(1,2) assms(2) count by (auto simp: room_ahead_def free_run_def)
qed

lemma alloc_ahead:
  assumes inv: "pmm_inv s" "\<not> locked (pmm_lock s)" "bit_count s \<le> 2 ^ 52" and pages: "pages \<noteq> 0"
    and room: "room_ahead s (unat pages + n)"
  obtains p t where "pmm_alloc pages s = Some (of_nat p * PAGE_SIZE, t)"
    and "t = (take_run s p (unat pages))\<lparr>pmm_lock := freed_lock s\<rparr>" and "pmm_inv t" and "\<not> locked (pmm_lock t)"
    and "0 < p" and "p + unat pages \<le> bit_count s" and "free_run s p (unat pages)" and "room_ahead t n"
    and "\<And>q. unat (last_page_idx s) \<le> q \<Longrightarrow> free_run s q (unat pages) \<Longrightarrow> p \<le> q"
proof -
  let ?n = "unat pages" and ?lim = "unat (search_limit s)" and ?last = "unat (last_page_idx s)"
  have n: "0 < ?n" "0 < pages" using pages by (simp_all add: unat_gt_0 word_gt_0)
  obtain q where q: "?last \<le> q" "q + (?n + n) \<le> bit_count s" "free_run s q (?n + n)"
    using room by (auto simp: room_ahead_def)
  have limit: "bit_count s \<le> ?lim" by (rule bit_count_limit [OF inv(3)])
  obtain r1 t1 where pass1: "inner_alloc pages (search_limit s) s = (r1, t1)" by fastforce
  have "free_run s q ?n" by (rule free_run_sub [OF q(3)]) simp_all
  then have "\<not> no_run s ?last ?n ?lim" using q(1,2) limit by (auto simp: no_run_def)
  with inner_alloc_spec [OF n(2) pass1] obtain p where p: "first_run s ?last ?n ?lim p"
    "r1 = of_nat p * PAGE_SIZE" "t1 = take_run s p ?n" by blast
  note addr = first_run_address [OF inv(1) n(1)]
  have p_pos: "0 < p" "r1 \<noteq> 0" using p first_run_address [OF inv(1) n(1)] inner_alloc_spec [OF n(2) pass1]
    free_run_positive [OF inv(1) n(1)] page_addr_nonzero [of p] inv(1)
    by (auto simp: first_run_def pmm_inv_def)
  have "p \<le> q" using p(1) q(1) \<open>free_run s q ?n\<close> by (auto simp: first_run_def not_less [symmetric])
  then have below: "p + ?n \<le> bit_count s" using q(2) by simp
  have "alloc_passes pages s = (r1, t1)"
    using pass1 p_pos(2) by (simp add: alloc_passes_def search_limit_def)
  from pmm_alloc_eq [OF inv(2) pages this]
  have alloc: "pmm_alloc pages s = Some (of_nat p * PAGE_SIZE, (take_run s p ?n)\<lparr>pmm_lock := freed_lock s\<rparr>)"
    by (simp add: p(2,3))
  let ?t = "(take_run s p ?n)\<lparr>pmm_lock := freed_lock s\<rparr>" and ?k = "max q (p + ?n)"
  have small: "p + ?n < 2 ^ 64" using below inv(3) by simp
  have last: "unat (last_page_idx ?t) = p + ?n" using small by (simp add: take_run_def del: of_nat_add)
  have "\<not> page_used ?t (of_nat i)" if "?k \<le> i" "i < ?k + n" for i
  proof -
    have "i < q + (?n + n)" "q \<le> i" "p + ?n \<le> i" using that \<open>p \<le> q\<close> by auto
    moreover from this have "unat (of_nat i :: u64) = i" using q(2) inv(3) by (intro unat_of_nat_u64) simp
    ultimately show ?thesis using q(3) page_used_take_run [OF small, of s "of_nat i"] by (simp add: free_run_def)
  qed
  then have "free_run ?t ?k n" by (simp add: free_run_def)
  moreover have "?k + n \<le> bit_count ?t" using q(2) \<open>p \<le> q\<close> by (simp add: bit_count_def take_run_def)
  ultimately have "room_ahead ?t n" unfolding room_ahead_def using last by (intro exI [of _ ?k]) simp
  moreover have "pmm_inv ?t" using pmm_inv_take_run [OF inv(1), of p ?n] below limit by simp
  moreover have "free_run s p ?n" using p(1) by (simp add: first_run_def)
  moreover have "p \<le> q" if "?last \<le> q" "free_run s q ?n" for q
    using p(1) that by (auto simp: first_run_def not_less [symmetric])
  ultimately show ?thesis using alloc p_pos(1) below by (intro that [of p ?t]) (simp_all add: freed_lock_def)
qed

section \<open>Ownership of pages\<close>

text \<open>
  A run of the allocator: \<open>owned\<close> holds the blocks (address, number of pages) that were
  handed out and not yet given back. Between calls the clients write memory, anywhere but
  in the bitmap itself.
\<close>

inductive pmm_run :: "'a pmm_scheme \<Rightarrow> 'a pmm_scheme \<Rightarrow> (u64 \<times> u64) set \<Rightarrow> bool"
  for s0 :: "'a pmm_scheme" where
  pmm_start: "pmm_run s0 s0 {}"
| pmm_alloc_step: "pmm_run s0 s owned \<Longrightarrow> pages \<noteq> 0 \<Longrightarrow> pmm_alloc pages s = Some (r, t) \<Longrightarrow> r \<noteq> 0 \<Longrightarrow>
    pmm_run s0 t (insert (r, pages) owned)"
| pmm_fail_step: "pmm_run s0 s owned \<Longrightarrow> pmm_alloc pages s = Some (0, t) \<Longrightarrow> pmm_run s0 t owned"
| pmm_free_step: "pmm_run s0 s owned \<Longrightarrow> (r, pages) \<in> owned \<Longrightarrow> pmm_free r pages s = Some t \<Longrightarrow>
    pmm_run s0 t (owned - {(r, pages)})"
| pmm_write_step: "pmm_run s0 s owned \<Longrightarrow> a \<notin> bitmap_bytes s \<Longrightarrow>
    pmm_run s0 (s\<lparr>mem := store8 a v (mem s)\<rparr>) owned"

inductive_cases pmm_run_elim: "pmm_run s0 s owned"

text \<open>The pages of a block.\<close>

definition block_pages :: "u64 \<times> u64 \<Rightarrow> nat set" where
  "block_pages b = {unat (fst b div PAGE_SIZE) ..< unat (fst b div PAGE_SIZE) + unat (snd b)}"

definition block_ok :: "'a pmm_scheme \<Rightarrow> u64 \<times> u64 \<Rightarrow> bool" where
  "block_ok s b \<longleftrightarrow> (\<exists>p. fst b = of_nat p * PAGE_SIZE \<and> 0 < p \<and>
     p + unat (snd b) \<le> unat (search_limit s) \<and> snd b \<noteq> 0 \<and>
     (\<forall>i. p \<le> i \<and> i < p + unat (snd b) \<and> i < bit_count s \<longrightarrow> page_used s (of_nat i)))"

definition owned_inv :: "'a pmm_scheme \<Rightarrow> (u64 \<times> u64) set \<Rightarrow> bool" where
  "owned_inv s owned \<longleftrightarrow> pmm_inv s \<and> \<not> locked (pmm_lock s) \<and> (\<forall>b \<in> owned. block_ok s b) \<and>
     (\<forall>b \<in> owned. \<forall>c \<in> owned. b \<noteq> c \<longrightarrow> block_pages b \<inter> block_pages c \<inter> {..<bit_count s} = {})"

lemma block_pages_eq:
  assumes "p < 2 ^ 52"
  shows "block_pages (of_nat p * PAGE_SIZE, n) = {p ..< p + unat n}"
proof -
  have "unat (of_nat p :: u64) = p" using assms by (intro unat_of_nat_u64) simp
  then show ?thesis by (simp add: block_pages_def page_addr_div [OF assms])
qed

lemma block_okE:
  assumes "block_ok s b" and "pmm_inv s"
  obtains p where "fst b = of_nat p * PAGE_SIZE" and "0 < p" and "p < 2 ^ 52" and "snd b \<noteq> 0"
    and "p + unat (snd b) \<le> unat (search_limit s)" and "block_pages b = {p ..< p + unat (snd b)}"
    and "\<And>i. i \<in> block_pages b \<Longrightarrow> i < bit_count s \<Longrightarrow> page_used s (of_nat i)"
proof -
  from assms(1) obtain p where p: "fst b = of_nat p * PAGE_SIZE" "0 < p" "snd b \<noteq> 0"
    "p + unat (snd b) \<le> unat (search_limit s)"
    "\<forall>i. p \<le> i \<and> i < p + unat (snd b) \<and> i < bit_count s \<longrightarrow> page_used s (of_nat i)"
    by (auto simp: block_ok_def)
  then have "p < 2 ^ 52" using assms(2) by (simp add: pmm_inv_def)
  moreover from block_pages_eq [OF this, of "snd b"] p(1)
  have "block_pages b = {p ..< p + unat (snd b)}" by (cases b) simp
  ultimately show ?thesis using p by (intro that [of p]) auto
qed

lemma block_ok_mono:
  assumes "block_ok s b" and "pmm_bitmap t = pmm_bitmap s"
    and "\<And>i. i \<in> block_pages b \<Longrightarrow> i < bit_count s \<Longrightarrow> page_used s (of_nat i) \<Longrightarrow> page_used t (of_nat i)"
    and "pmm_inv s"
  shows "block_ok t b"
proof -
  have same: "search_limit t = search_limit s" "bit_count t = bit_count s"
    by (simp_all add: search_limit_def bit_count_def assms(2))
  obtain p where p: "fst b = of_nat p * PAGE_SIZE" "0 < p" "snd b \<noteq> 0"
    "p + unat (snd b) \<le> unat (search_limit s)" "block_pages b = {p ..< p + unat (snd b)}"
    "\<And>i. i \<in> block_pages b \<Longrightarrow> i < bit_count s \<Longrightarrow> page_used s (of_nat i)"
    by (rule block_okE [OF assms(1,4)]) blast
  then show ?thesis using assms(3) unfolding block_ok_def same by (intro exI [of _ p]) auto
qed

lemma owned_inv_alloc:
  assumes "owned_inv s owned" and "pages \<noteq> 0" and "pmm_alloc pages s = Some (r, t)" and "r \<noteq> 0"
  shows "owned_inv t (insert (r, pages) owned)"
proof -
  from assms(1) have inv: "pmm_inv s" "\<not> locked (pmm_lock s)" and ok: "\<forall>b \<in> owned. block_ok s b"
    by (auto simp: owned_inv_def)
  obtain p where p: "r = of_nat p * PAGE_SIZE" "0 < p" "p + unat pages \<le> unat (search_limit s)"
      "free_run s p (unat pages)" "t = (take_run s p (unat pages))\<lparr>pmm_lock := freed_lock s\<rparr>"
    and t: "pmm_inv t" "\<not> locked (pmm_lock t)" "pmm_bitmap t = pmm_bitmap s"
    by (rule pmm_alloc_cases [OF inv assms(2)]) (use assms(3,4) in auto)
  have small: "p + unat pages < 2 ^ 64" and p52: "p < 2 ^ 52" using inv p(3) by (auto simp: pmm_inv_def)
  have pages_r: "block_pages (r, pages) = {p ..< p + unat pages}"
    using block_pages_eq [OF p52] p(1) by simp
  have used: "page_used t i \<longleftrightarrow> p \<le> unat i \<and> unat i < p + unat pages \<or> page_used s i" for i
    using page_used_take_run [OF small] p(5) by simp
  have lim: "search_limit t = search_limit s" "bit_count t = bit_count s"
    by (simp_all add: search_limit_def bit_count_def t(3))
  have new: "block_ok t (r, pages)"
  proof -
    have "page_used t (of_nat i)" if "p \<le> i" "i < p + unat pages" for i
    proof -
      have "unat (of_nat i :: u64) = i" using that small by (intro unat_of_nat_u64) simp
      with that used show ?thesis by simp
    qed
    with p assms(2) lim show ?thesis by (auto simp: block_ok_def)
  qed
  have old: "block_ok t b" "block_pages b \<inter> block_pages (r, pages) \<inter> {..<bit_count s} = {}" if "b \<in> owned" for b
  proof -
    have okb: "block_ok s b" using ok that by blast
    show "block_ok t b" by (rule block_ok_mono [OF okb t(3) _ inv(1)]) (simp add: used)
    have "page_used s (of_nat i)" if "i \<in> block_pages b" "i < bit_count s" for i
      by (rule block_okE [OF okb inv(1)]) (use that in blast)
    then show "block_pages b \<inter> block_pages (r, pages) \<inter> {..<bit_count s} = {}"
      using p(4) unfolding pages_r free_run_def by fastforce
  qed
  have pairs: "\<forall>b \<in> owned. \<forall>c \<in> owned. b \<noteq> c \<longrightarrow> block_pages b \<inter> block_pages c \<inter> {..<bit_count s} = {}"
    using assms(1) by (simp add: owned_inv_def)
  have "block_pages b \<inter> block_pages c \<inter> {..<bit_count s} = {}"
    if "b \<in> insert (r, pages) owned" "c \<in> insert (r, pages) owned" "b \<noteq> c" for b c
    using that pairs old(2) by (metis Int_commute insertE)
  with t new old(1) show ?thesis by (simp add: owned_inv_def lim)
qed

lemma owned_inv_fail:
  assumes "owned_inv s owned" and "pmm_alloc pages s = Some (0, t)"
  shows "owned_inv t owned"
proof (cases "pages = 0")
  case True
  with assms show ?thesis by (simp add: pmm_alloc_def)
next
  case False
  from assms(1) have inv: "pmm_inv s" "\<not> locked (pmm_lock s)"
    by (auto simp: owned_inv_def)
  have t: "pmm_inv t" "\<not> locked (pmm_lock t)" "pmm_bitmap t = pmm_bitmap s" "mem t = mem s"
    by (rule pmm_alloc_cases [OF inv False]; use assms(2) in auto)+
  have "search_limit t = search_limit s" "bit_count t = bit_count s"
    by (simp_all add: search_limit_def bit_count_def t(3))
  moreover have "page_used t = page_used s" unfolding page_used_def t(3,4) ..
  ultimately have "block_ok t = block_ok s" "bit_count t = bit_count s" by (simp_all add: block_ok_def fun_eq_iff)
  with t assms(1) show ?thesis by (auto simp: owned_inv_def)
qed

lemma owned_inv_free:
  assumes "owned_inv s owned" and "(r, pages) \<in> owned" and "pmm_free r pages s = Some t"
  shows "owned_inv t (owned - {(r, pages)})"
proof -
  from assms(1) have inv: "pmm_inv s" "\<not> locked (pmm_lock s)" and ok: "\<forall>b \<in> owned. block_ok s b"
    by (auto simp: owned_inv_def)
  obtain p where p: "r = of_nat p * PAGE_SIZE" "0 < p" "p < 2 ^ 52"
    "p + unat pages \<le> unat (search_limit s)" "block_pages (r, pages) = {p ..< p + unat pages}"
    by (rule block_okE [of s "(r, pages)"]) (use ok inv assms(2) in auto)
  have t: "pmm_inv t" "\<not> locked (pmm_lock t)" "pmm_bitmap t = pmm_bitmap s"
    "page_used t i \<longleftrightarrow> page_used s i \<and> \<not> (p \<le> unat i \<and> unat i < p + unat pages)" for i
    by (rule pmm_free_cases [OF inv p(2,4,3)]; use assms(3) p(1) in auto)+
  have count: "bit_count t = bit_count s" by (simp add: bit_count_def t(3))
  have "block_ok t b" if "b \<in> owned - {(r, pages)}" for b
  proof (rule block_ok_mono [OF _ t(3) _ inv(1)])
    from that ok show okb: "block_ok s b" by blast
    fix i assume i: "i \<in> block_pages b" "i < bit_count s" "page_used s (of_nat i)"
    obtain q where q: "q + unat (snd b) \<le> unat (search_limit s)"
      "block_pages b = {q ..< q + unat (snd b)}"
      by (rule block_okE [OF okb inv(1)])
    have "i < 2 ^ 64" using i(1) q inv(1) by (simp add: pmm_inv_def)
    then have "unat (of_nat i :: u64) = i" by (rule unat_of_nat_u64)
    moreover have "i \<notin> block_pages (r, pages)"
      using that i(1,2) assms(1,2) unfolding owned_inv_def by blast
    ultimately show "page_used t (of_nat i)" using i(3) by (simp add: t(4) p(5))
  qed
  with t assms(1) show ?thesis by (auto simp: owned_inv_def count)
qed

lemma owned_inv_write:
  assumes "owned_inv s owned" and "a \<notin> bitmap_bytes s"
  shows "owned_inv (s\<lparr>mem := store8 a v (mem s)\<rparr>) owned"
proof -
  let ?t = "s\<lparr>mem := store8 a v (mem s)\<rparr>"
  have inv: "pmm_inv s" using assms(1) by (simp add: owned_inv_def)
  have same: "search_limit ?t = search_limit s" "bit_count ?t = bit_count s"
    by (simp_all add: search_limit_def bit_count_def)
  have used: "page_used ?t i = page_used s i" if "unat i < bit_count s" for i
    by (rule page_used_outside [OF _ that]) (use assms(2) in \<open>auto simp: store8_apply\<close>)
  have "pmm_inv ?t" using inv used [of 0] bit_count_positive [OF inv] by (simp add: pmm_inv_def same)
  moreover have "block_ok ?t b" if b: "b \<in> owned" for b
  proof (rule block_ok_mono [OF _ _ _ inv])
    from b assms(1) show okb: "block_ok s b" by (simp add: owned_inv_def)
    fix i assume i: "i \<in> block_pages b" "i < bit_count s" "page_used s (of_nat i)"
    obtain q where "q + unat (snd b) \<le> unat (search_limit s)" "block_pages b = {q ..< q + unat (snd b)}"
      by (rule block_okE [OF okb inv])
    then have "i < 2 ^ 64" using i(1) inv by (simp add: pmm_inv_def)
    then have "unat (of_nat i :: u64) = i" by (rule unat_of_nat_u64)
    with i(2,3) used [of "of_nat i"] show "page_used ?t (of_nat i)" by simp
  qed simp
  ultimately show ?thesis using assms(1) by (simp add: owned_inv_def same)
qed

lemma pmm_run_owned_inv:
  assumes "pmm_run s0 s owned" and "pmm_inv s0" and "\<not> locked (pmm_lock s0)"
  shows "owned_inv s owned"
  using assms(1)
proof induction
  case pmm_start
  with assms(2,3) show ?case by (simp add: owned_inv_def)
qed (auto intro: owned_inv_alloc owned_inv_fail owned_inv_free owned_inv_write)

section \<open>Initialisation\<close>

text \<open>
  The pages of a memory map entry. Entries are page aligned and do not reach the last page
  of the address space, as the boot protocol guarantees for usable memory.
\<close>

definition page_aligned :: "u64 \<Rightarrow> bool" where
  "page_aligned a \<longleftrightarrow> a mod PAGE_SIZE = 0"

definition entry_ok :: "memmap_entry \<Rightarrow> bool" where
  "entry_ok e \<longleftrightarrow> page_aligned (me_base e) \<and> unat (me_base e) + unat (me_length e) + 4096 \<le> 2 ^ 64"

definition page_in_entry :: "memmap_entry \<Rightarrow> u64 \<Rightarrow> bool" where
  "page_in_entry e i \<longleftrightarrow> me_base e div PAGE_SIZE \<le> i \<and>
     unat i * 4096 < unat (me_base e) + unat (me_length e)"

lemma unat_PAGE_SIZE [simp]: "unat PAGE_SIZE = 4096"
  by (simp add: PAGE_SIZE_def)

lemma page_aligned_iff: "page_aligned a \<longleftrightarrow> 4096 dvd unat a"
proof -
  have "page_aligned a \<longleftrightarrow> unat (a mod PAGE_SIZE) = 0" by (simp add: page_aligned_def unat_eq_0)
  then show ?thesis by (simp add: unat_mod dvd_eq_mod_eq_0)
qed

text \<open>The pages of \<open>e\<close> from offset \<open>j\<close> on.\<close>

definition page_from :: "memmap_entry \<Rightarrow> u64 \<Rightarrow> u64 \<Rightarrow> bool" where
  "page_from e j i \<longleftrightarrow> unat (me_base e) + unat j \<le> unat i * 4096 \<and>
     unat i * 4096 < unat (me_base e) + unat (me_length e)"

lemma page_from_0: "entry_ok e \<Longrightarrow> page_from e 0 i \<longleftrightarrow> page_in_entry e i"
  by (auto simp: entry_ok_def page_from_def page_in_entry_def word_le_nat_alt unat_div
      page_aligned_iff elim!: dvdE)

lemma page_from_step:
  assumes "entry_ok e" and "page_aligned j" and "j < me_length e"
  shows "page_from e j i \<longleftrightarrow> i = (me_base e + j) div PAGE_SIZE \<or> page_from e (j + PAGE_SIZE) i"
    and "page_aligned (j + PAGE_SIZE)" and "unat (j + PAGE_SIZE) = unat j + 4096"
proof -
  have sum: "unat (me_base e + j) = unat (me_base e) + unat j"
    using assms(1,3) by (intro unat_add_lem [THEN iffD1]) (auto simp: entry_ok_def word_less_nat_alt)
  show next_j: "unat (j + PAGE_SIZE) = unat j + 4096"
  proof -
    have "unat j + unat PAGE_SIZE < 2 ^ 64"
      using assms(1,3) by (simp add: entry_ok_def word_less_nat_alt)
    then show ?thesis by (subst unat_add_lem [THEN iffD1]) simp_all
  qed
  show "page_aligned (j + PAGE_SIZE)" using assms(2) by (simp add: page_aligned_iff next_j)
  obtain k where k: "unat (me_base e) + unat j = 4096 * k"
    using assms(1,2) by (metis dvdE dvd_add page_aligned_iff entry_ok_def)
  have "i = (me_base e + j) div PAGE_SIZE \<longleftrightarrow> unat i = k"
    by (simp add: word_unat_eq_iff unat_div sum k)
  then show "page_from e j i \<longleftrightarrow> i = (me_base e + j) div PAGE_SIZE \<or> page_from e (j + PAGE_SIZE) i"
    using assms(3) k by (auto simp: page_from_def next_j word_less_nat_alt)
qed

lemma free_entry_pages_spec:
  assumes "entry_ok e" and "page_aligned j"
  shows "\<exists>m'. free_entry_pages e j b m = Some m' \<and>
    (\<forall>i. bitmap_get b i m' \<longleftrightarrow> bitmap_get b i m \<and> \<not> page_from e j i)"
  using assms(2)
proof (induction "unat (me_length e) - unat j" arbitrary: j m rule: less_induct)
  case less
  show ?case
  proof (cases "j < me_length e")
    case False
    then have "\<not> page_from e j i" for i by (auto simp: page_from_def word_less_nat_alt)
    with False show ?thesis by (subst free_entry_pages.simps) simp
  next
    case True
    note step = page_from_step [OF assms(1) less.prems True]
    let ?m = "bitmap_set b ((me_base e + j) div PAGE_SIZE) False m"
    have "\<exists>m'. free_entry_pages e (j + PAGE_SIZE) b ?m = Some m' \<and>
      (\<forall>i. bitmap_get b i m' \<longleftrightarrow> bitmap_get b i ?m \<and> \<not> page_from e (j + PAGE_SIZE) i)"
      by (rule less.hyps) (use True step in \<open>auto simp: word_less_nat_alt\<close>)
    then show ?thesis
      using True by (subst free_entry_pages.simps) (auto simp: step(1) bitmap_get_set)
  qed
qed

lemma free_entries_spec:
  assumes "\<forall>e \<in> set es. me_usable e \<longrightarrow> entry_ok e"
  shows "\<exists>m'. free_entries es b m = Some m' \<and>
    (\<forall>i. bitmap_get b i m' \<longleftrightarrow> bitmap_get b i m \<and> \<not> (\<exists>e \<in> set es. me_usable e \<and> page_in_entry e i))"
  using assms
proof (induction es arbitrary: m)
  case (Cons e es)
  show ?case
  proof (cases "me_usable e")
    case True
    with Cons.prems have "entry_ok e" by simp
    then obtain m1 where m1: "free_entry_pages e 0 b m = Some m1"
      "\<forall>i. bitmap_get b i m1 \<longleftrightarrow> bitmap_get b i m \<and> \<not> page_in_entry e i"
      using free_entry_pages_spec [of e 0 b m] by (auto simp: page_from_0 page_aligned_def)
    obtain m2 where "free_entries es b m1 = Some m2"
      "\<forall>i. bitmap_get b i m2 \<longleftrightarrow> bitmap_get b i m1 \<and> \<not> (\<exists>e \<in> set es. me_usable e \<and> page_in_entry e i)"
      using Cons.IH [of m1] Cons.prems by auto
    with m1 True show ?thesis by auto
  next
    case False
    with Cons show ?thesis by simp
  qed
qed simp

text \<open>Where the bitmap is placed: at the start of the first usable entry it fits into.\<close>

definition shrink_entry :: "u64 \<Rightarrow> memmap_entry \<Rightarrow> memmap_entry" where
  "shrink_entry n e = e\<lparr>me_length := me_length e - n, me_base := me_base e + n\<rparr>"

lemma place_bitmap_spec:
  assumes "\<exists>e \<in> set es. me_usable e \<and> bm_size (pmm_bitmap s) \<le> me_length e"
  shows "\<exists>pre e post. es = pre @ e # post \<and> me_usable e \<and> bm_size (pmm_bitmap s) \<le> me_length e \<and>
    place_bitmap es s = (pre @ shrink_entry (bm_size (pmm_bitmap s)) e # post,
      s\<lparr>pmm_bitmap := (pmm_bitmap s)\<lparr>bm_data := PHYS_TO_VIRT s (me_base e)\<rparr>,
        mem := snd (memset (PHYS_TO_VIRT s (me_base e)) 0xff (bm_size (pmm_bitmap s)) (mem s))\<rparr>)"
  using assms
proof (induction es)
  case (Cons e es)
  show ?case
  proof (cases "me_usable e \<and> bm_size (pmm_bitmap s) \<le> me_length e")
    case True
    then show ?thesis
      by (intro exI [of _ "[]"] exI [of _ e] exI [of _ es])
         (simp add: Let_def shrink_entry_def PHYS_TO_VIRT_def)
  next
    case False
    with Cons.prems have "\<exists>e \<in> set es. me_usable e \<and> bm_size (pmm_bitmap s) \<le> me_length e" by auto
    from Cons.IH [OF this] obtain pre e' post where es: "es = pre @ e' # post" "me_usable e'"
      "bm_size (pmm_bitmap s) \<le> me_length e'"
      and eq: "place_bitmap es s = (pre @ shrink_entry (bm_size (pmm_bitmap s)) e' # post,
      s\<lparr>pmm_bitmap := (pmm_bitmap s)\<lparr>bm_data := PHYS_TO_VIRT s (me_base e')\<rparr>,
        mem := snd (memset (PHYS_TO_VIRT s (me_base e')) 0xff (bm_size (pmm_bitmap s)) (mem s))\<rparr>)"
      by blast
    have "place_bitmap (e # es) s = (e # fst (place_bitmap es s), snd (place_bitmap es s))"
      unfolding place_bitmap.simps Let_def using False by (simp only: if_False case_prod_beta)
    with es eq show ?thesis by (intro exI [of _ "e # pre"] exI [of _ e'] exI [of _ post]) simp
  qed
qed simp

lemma ALIGN_UP_aligned: "page_aligned (ALIGN_UP a PAGE_SIZE)"
proof -
  have "ALIGN_UP a PAGE_SIZE = (a + PAGE_SIZE - 1) AND NOT (mask 12)"
    by (simp add: ALIGN_UP_def PAGE_SIZE_def mask_eq_exp_minus_1)
  then have "take_bit 12 (ALIGN_UP a PAGE_SIZE) = 0"
    by (simp add: take_bit_eq_mask bit_eq_iff bit_and_iff bit_not_iff)
  then show ?thesis
    by (simp add: page_aligned_def PAGE_SIZE_def take_bit_eq_mod)
qed

text \<open>The size the bitmap gets, and the usable pages of a memory map.\<close>

definition bitmap_size_for :: "memmap_entry list \<Rightarrow> u64" where
  "bitmap_size_for memmap = ALIGN_UP (highest_addr memmap 0 div PAGE_SIZE div 8) PAGE_SIZE"

definition usable_page :: "memmap_entry list \<Rightarrow> u64 \<Rightarrow> bool" where
  "usable_page memmap i \<longleftrightarrow> (\<exists>e \<in> set memmap. me_usable e \<and> page_in_entry e i)"

lemma shrink_entry_ok:
  assumes "entry_ok e" and "n \<le> me_length e" and "page_aligned n"
  shows "entry_ok (shrink_entry n e)"
    and "page_in_entry (shrink_entry n e) i \<longleftrightarrow>
      page_in_entry e i \<and> unat (me_base e) + unat n \<le> unat i * 4096"
proof -
  have sum: "unat (me_base e + n) = unat (me_base e) + unat n"
    using assms(1,2) by (intro unat_add_lem [THEN iffD1]) (auto simp: entry_ok_def word_le_nat_alt)
  have len: "unat (me_length e - n) = unat (me_length e) - unat n"
    using assms(2) by (rule unat_sub)
  have n: "unat n \<le> unat (me_length e)" using assms(2) by (simp add: word_le_nat_alt)
  show ok: "entry_ok (shrink_entry n e)"
    using assms n by (simp add: entry_ok_def shrink_entry_def sum len page_aligned_iff)
  show "page_in_entry (shrink_entry n e) i \<longleftrightarrow>
      page_in_entry e i \<and> unat (me_base e) + unat n \<le> unat i * 4096"
    using n unfolding page_from_0 [OF ok, symmetric] page_from_0 [OF assms(1), symmetric]
    by (auto simp: page_from_def shrink_entry_def sum len)
qed

lemma bit_ff: "n < 8 \<Longrightarrow> bit (0xff :: u8) n"
  by (auto simp: less_Suc_eq numeral_eq_Suc)

lemma bitmap_get_ones:
  assumes "\<And>a. a \<in> region (bm_data b) (bm_size b) \<Longrightarrow> m a = 0xff" and "i div 8 < bm_size b"
  shows "bitmap_get b i m"
proof -
  have "m (bm_data b + i div 8) = 0xff" using assms by (simp add: in_region_iff)
  moreover have "bit (0xff :: u8) (unat (i mod 8))" by (rule bit_ff) (simp add: unat_mod)
  ultimately show ?thesis by (simp add: bitmap_get_bit)
qed

lemma bitmap_overwrite: "(b :: bitmap)\<lparr>bm_size := n, bm_data := d\<rparr> = \<lparr>bm_data = d, bm_size = n\<rparr>"
  by (cases b) simp

lemma pmm_init_eq:
  assumes ok: "\<forall>e \<in> set memmap. me_usable e \<longrightarrow> entry_ok e"
    and fits: "\<exists>e \<in> set memmap. me_usable e \<and> bitmap_size_for memmap \<le> me_length e"
  obtains pre e post t where "memmap = pre @ e # post" and "me_usable e"
    and "bitmap_size_for memmap \<le> me_length e"
    and "pmm_init memmap s = Some (pre @ shrink_entry (bitmap_size_for memmap) e # post, t)"
    and "pmm_bitmap t = \<lparr>bm_data = PHYS_TO_VIRT s (me_base e), bm_size = bitmap_size_for memmap\<rparr>"
    and "\<And>i. i div 8 < bitmap_size_for memmap \<Longrightarrow>
      page_used t i \<longleftrightarrow> \<not> usable_page (pre @ shrink_entry (bitmap_size_for memmap) e # post) i"
    and "last_page_idx t = last_page_idx s" and "pmm_lock t = pmm_lock s"
    and "\<exists>m. t = s\<lparr>pmm_bitmap := pmm_bitmap t, mem := m\<rparr>"
proof -
  let ?n = "bitmap_size_for memmap"
  define s1 where "s1 = s\<lparr>pmm_bitmap := (pmm_bitmap s)\<lparr>bm_size := ?n\<rparr>\<rparr>"
  have "bm_size (pmm_bitmap s1) = ?n" by (simp add: s1_def)
  with place_bitmap_spec [of memmap s1] fits
  obtain pre e post where split: "memmap = pre @ e # post" "me_usable e" "?n \<le> me_length e"
    and placed: "place_bitmap memmap s1 = (pre @ shrink_entry ?n e # post,
      s1\<lparr>pmm_bitmap := (pmm_bitmap s1)\<lparr>bm_data := PHYS_TO_VIRT s1 (me_base e)\<rparr>,
        mem := snd (memset (PHYS_TO_VIRT s1 (me_base e)) 0xff ?n (mem s1))\<rparr>)"
    by auto
  let ?map = "pre @ shrink_entry ?n e # post"
  let ?b = "\<lparr>bm_data = PHYS_TO_VIRT s (me_base e), bm_size = ?n\<rparr>"
  let ?m = "snd (memset (PHYS_TO_VIRT s (me_base e)) 0xff ?n (mem s))"
  have map_ok: "\<forall>e \<in> set ?map. me_usable e \<longrightarrow> entry_ok e"
    using ok split shrink_entry_ok(1) [of e ?n] ALIGN_UP_aligned by (auto simp: bitmap_size_for_def)
  obtain m' where m': "free_entries ?map ?b ?m = Some m'"
    and bits: "\<forall>i. bitmap_get ?b i m' \<longleftrightarrow> bitmap_get ?b i ?m \<and> \<not> usable_page ?map i"
    using free_entries_spec [OF map_ok, of ?b ?m] by (auto simp: usable_page_def)
  define t where "t = s1\<lparr>pmm_bitmap := ?b, mem := m'\<rparr>"
  have "pmm_init memmap s = Some (?map, t)"
    using placed m' unfolding pmm_init_def bitmap_size_for_def [symmetric] Let_def s1_def [symmetric]
    by (simp add: bitmap_overwrite t_def s1_def PHYS_TO_VIRT_def)
  moreover have "page_used t i \<longleftrightarrow> \<not> usable_page ?map i" if "i div 8 < ?n" for i
    using that bits bitmap_get_ones [of ?b ?m i]
    by (auto simp: page_used_def t_def memset_apply)
  ultimately show ?thesis
    by (intro that [OF split, of t]) (auto simp: t_def s1_def)
qed

section \<open>Properties\<close>

text \<open>A small allocator to run the operations on: eight bits of bitmap, page 0 in use.\<close>

definition pmm_sample :: pmm where
  "pmm_sample = \<lparr>mem = (\<lambda>a. if a = 0 then 1 else 0), rflags = 0x202, hhdm_offset = 0,
     virtual_base = 0, physical_base = 0,
     pmm_lock = \<lparr>locked = False, restore_interrupts = False\<rparr>,
     pmm_bitmap = \<lparr>bm_data = 0, bm_size = 1\<rparr>, last_page_idx = 0\<rparr>"

lemma pmm_sample_inv: "pmm_inv pmm_sample" "\<not> locked (pmm_lock pmm_sample)"
  by (simp_all add: pmm_inv_def search_limit_def page_used_def bitmap_get_bit pmm_sample_def
      PAGE_SIZE_def)

lemma pmm_sample_allocs:
  "do { (a, t) \<leftarrow> pmm_alloc 2 pmm_sample; (b, u) \<leftarrow> pmm_alloc 1 t; Some (a, b) } =
     Some (0x1000, 0x3000)"
  by code_simp

lemma pmm_sample_run:
  obtains s where "pmm_run pmm_sample s {(0x3000, 1), (0x1000, 2)}" "bm_data (pmm_bitmap s) = 0" "bm_size (pmm_bitmap s) = 1"
proof -
  obtain t u where t: "pmm_alloc 2 pmm_sample = Some (0x1000, t)" "pmm_alloc 1 t = Some (0x3000, u)"
    using pmm_sample_allocs by (auto split: bind_splits)
  have inv: "pmm_inv t" "\<not> locked (pmm_lock t)" "pmm_bitmap t = pmm_bitmap pmm_sample"
    by (rule pmm_alloc_cases [OF pmm_sample_inv, of 2]; use t(1) in auto)+
  have "pmm_bitmap u = pmm_bitmap t"
    by (rule pmm_alloc_cases [OF inv(1,2), of 1]) (use t(2) in auto)
  then have bm: "bm_data (pmm_bitmap u) = 0" "bm_size (pmm_bitmap u) = 1" using inv(3) by (simp_all add: pmm_sample_def)
  have "pmm_run pmm_sample t {(0x1000, 2)}"
    by (rule pmm_alloc_step [OF pmm_start _ t(1)]) simp_all
  then have "pmm_run pmm_sample u {(0x3000, 1), (0x1000, 2)}"
    by (rule pmm_alloc_step [OF _ _ t(2)]) simp_all
  then show ?thesis using bm by (rule that)
qed

text \<open>
  C1: However allocations, frees of owned blocks and writes anywhere outside the bitmap follow one
  another, no page that has a bit in the bitmap belongs to two of the blocks handed out and not yet
  freed, such pages are marked used, and no block starts at the null page. For pages without a bit, which
  the search also hands out, nothing of the kind holds: their state is in the memory of others.
\<close>

theorem pmm_blocks_disjoint:
  assumes "pmm_run s0 s owned" and "pmm_inv s0" and "\<not> locked (pmm_lock s0)"
  shows "(\<forall>b \<in> owned. \<forall>c \<in> owned. b \<noteq> c \<longrightarrow>
      block_pages b \<inter> block_pages c \<inter> {p. p < 8 * unat (bm_size (pmm_bitmap s))} = {}) \<and>
    (\<forall>b \<in> owned. 0 \<notin> block_pages b \<and>
      (\<forall>i \<in> block_pages b. i < 8 * unat (bm_size (pmm_bitmap s)) \<longrightarrow> page_used s (of_nat i)))"
proof -
  have inv: "owned_inv s owned" using assms by (rule pmm_run_owned_inv)
  have "0 \<notin> block_pages b \<and> (\<forall>i \<in> block_pages b. i < bit_count s \<longrightarrow> page_used s (of_nat i))" if "b \<in> owned" for b
    using that inv block_okE [of s b] unfolding owned_inv_def
    by (metis atLeastLessThan_iff leD)
  with inv show ?thesis by (simp add: owned_inv_def bit_count_def lessThan_def)
qed

text \<open>Two blocks, and a write to a byte the search reads behind the bitmap.\<close>

theorem pmm_blocks_disjoint_witness:
  "\<exists>s. pmm_run pmm_sample s {(0x3000, 1), (0x1000, 2)} \<and> mem s 0x10 = 0xff \<and>
    block_pages (0x3000, 1) \<inter> block_pages (0x1000, 2) \<inter> {p. p < 8} = {} \<and> page_used s 1 \<and> page_used s 2 \<and> page_used s 3"
proof -
  obtain s0 where s0: "pmm_run pmm_sample s0 {(0x3000, 1), (0x1000, 2)}" "bm_data (pmm_bitmap s0) = 0" "bm_size (pmm_bitmap s0) = 1"
    by (rule pmm_sample_run)
  let ?s = "s0\<lparr>mem := store8 0x10 0xff (mem s0)\<rparr>"
  have "0x10 \<notin> bitmap_bytes s0" using s0(2,3) by (simp add: bitmap_bytes_def in_region_iff)
  then have s: "pmm_run pmm_sample ?s {(0x3000, 1), (0x1000, 2)}" by (rule pmm_write_step [OF s0(1)])
  have pages: "block_pages (0x1000, 2) = {1..<3}" "block_pages (0x3000, 1) = {3..<4}"
    using block_pages_eq [of 1 2] block_pages_eq [of 3 1] by (simp_all add: PAGE_SIZE_def del: One_nat_def)
  have size: "8 * unat (bm_size (pmm_bitmap ?s)) = 8" using s0(3) by simp
  note both = pmm_blocks_disjoint [OF s pmm_sample_inv, unfolded size]
  have "block_pages (0x3000, 1) \<inter> block_pages (0x1000, 2) \<inter> {p. p < 8} = {}"
    using conjunct1 [OF both] by simp
  moreover have used: "page_used ?s (of_nat i)"
    if "b \<in> {(0x3000, 1), (0x1000, 2)}" "i \<in> block_pages b" "i < 8" for b i
    using conjunct2 [OF both] that by blast
  have "page_used ?s 1" "page_used ?s 2" "page_used ?s 3"
    using used [of "(0x1000, 2)" 1] used [of "(0x1000, 2)" 2] used [of "(0x3000, 1)" 3] by (simp_all add: pages)
  ultimately show ?thesis using s by (intro exI [of _ ?s]) (simp add: store8_apply)
qed

text \<open>
  C16: A request for a positive number of pages returns with the lock free and the
  interrupt flag as it was. Either it returns the address of a run of free pages within the
  search limit and exactly these pages become used, or it returns the null pointer, leaves
  memory alone, and no run of that length is free.
\<close>

theorem pmm_alloc_correct:
  assumes "pmm_inv s" and "\<not> locked (pmm_lock s)" and "pages \<noteq> 0"
  shows "\<exists>r t. pmm_alloc pages s = Some (r, t) \<and> pmm_inv t \<and> \<not> locked (pmm_lock t) \<and>
    rflags t = rflags s \<and>
    (if r = 0 then mem t = mem s \<and> no_run s 0 (unat pages) (unat (search_limit s))
     else \<exists>p. r = of_nat p * PAGE_SIZE \<and> 0 < p \<and> p + unat pages \<le> unat (search_limit s) \<and>
       free_run s p (unat pages) \<and>
       (\<forall>i. page_used t i \<longleftrightarrow> p \<le> unat i \<and> unat i < p + unat pages \<or> page_used s i))"
proof -
  have lim: "p + unat pages < 2 ^ 64" if "p + unat pages \<le> unat (search_limit s)" for p
    using that assms(1) by (simp add: pmm_inv_def)
  show ?thesis
    by (rule pmm_alloc_cases [OF assms]) (fastforce simp: page_used_take_run [OF lim])
qed

theorem pmm_alloc_correct_witness:
  "\<exists>r t. pmm_alloc 2 pmm_sample = Some (r, t) \<and> \<not> locked (pmm_lock t) \<and> rflags t = rflags pmm_sample"
proof -
  have "(2 :: u64) \<noteq> 0" by simp
  from pmm_alloc_correct [OF pmm_sample_inv this] show ?thesis by blast
qed

text \<open>
  Freeing a block right after it was allocated restores the bitmap as a set of used
  pages, and the same request then succeeds again.
\<close>

lemma pmm_alloc_free_roundtrip:
  assumes "pmm_inv s" and "\<not> locked (pmm_lock s)" and "pages \<noteq> 0"
    and "pmm_alloc pages s = Some (r, t)" and "r \<noteq> 0"
  shows "\<exists>u. pmm_free r pages t = Some u \<and> page_used u = page_used s \<and>
    rflags u = rflags s \<and> (\<exists>r' v. pmm_alloc pages u = Some (r', v) \<and> r' \<noteq> 0)"
proof -
  obtain p where p: "r = of_nat p * PAGE_SIZE" "0 < p" "p + unat pages \<le> unat (search_limit s)"
      "free_run s p (unat pages)" "t = (take_run s p (unat pages))\<lparr>pmm_lock := freed_lock s\<rparr>"
    and t: "pmm_inv t" "\<not> locked (pmm_lock t)" "rflags t = rflags s"
    by (rule pmm_alloc_cases [OF assms(1-3)]) (use assms(4,5) in auto)
  have small: "p + unat pages < 2 ^ 64" and p52: "p < 2 ^ 52" using assms(1) p(3) by (auto simp: pmm_inv_def)
  have lim: "search_limit t = search_limit s" using p(5) by simp
  obtain u where u: "pmm_free r pages t = Some u" "pmm_inv u" "\<not> locked (pmm_lock u)"
      "rflags u = rflags t" "pmm_bitmap u = pmm_bitmap t"
      "\<And>i. page_used u i \<longleftrightarrow> page_used t i \<and> \<not> (p \<le> unat i \<and> unat i < p + unat pages)"
    by (rule pmm_free_cases [OF t(1,2) p(2) p(3) [folded lim] p52]) (use p(1) in auto)
  have free: "\<not> page_used s i" if "p \<le> unat i \<and> unat i < p + unat pages" for i
    using p(4) [unfolded free_run_def, rule_format, of "unat i"] that by simp
  have same: "page_used u = page_used s"
    using free u(6) page_used_take_run [OF small, of s] p(5) by (auto simp: fun_eq_iff)
  have "search_limit u = search_limit s" using u(5) lim by (simp add: search_limit_def)
  then have "\<not> no_run u 0 (unat pages) (unat (search_limit u))"
    using same p(3,4) by (auto simp: no_run_def free_run_def)
  then have "\<exists>r' v. pmm_alloc pages u = Some (r', v) \<and> r' \<noteq> 0"
    using pmm_alloc_cases [OF u(2,3) assms(3)] by metis
  with u(1,4) t(3) same show ?thesis by simp
qed

lemma pmm_alloc_free_roundtrip_witness:
  "\<exists>t u. pmm_alloc 2 pmm_sample = Some (0x1000, t) \<and> pmm_free 0x1000 2 t = Some u \<and>
    page_used u = page_used pmm_sample"
proof -
  obtain t where "pmm_alloc 2 pmm_sample = Some (0x1000, t)"
    using pmm_sample_allocs by (auto split: bind_splits)
  with pmm_alloc_free_roundtrip [OF pmm_sample_inv _ this] show ?thesis by auto
qed

lemma pmm_init_pages:
  assumes ok: "\<forall>e \<in> set memmap. me_usable e \<longrightarrow> entry_ok e"
    and fits: "\<exists>e \<in> set memmap. me_usable e \<and> bitmap_size_for memmap \<le> me_length e"
    and apart: "pairwise (\<lambda>e f. \<forall>i. \<not> (page_in_entry e i \<and> page_in_entry f i))
      (set (filter me_usable memmap))" and "distinct memmap"
  obtains memmap' t e where "pmm_init memmap s = Some (memmap', t)" and "e \<in> set memmap" and "me_usable e"
    and "bitmap_size_for memmap \<le> me_length e"
    and "pmm_bitmap t = \<lparr>bm_data = PHYS_TO_VIRT s (me_base e), bm_size = bitmap_size_for memmap\<rparr>"
    and "\<And>i. i div 8 < bitmap_size_for memmap \<Longrightarrow> (page_used t i \<longleftrightarrow> \<not> usable_page memmap i \<or>
        page_in_entry e i \<and> unat i * 4096 < unat (me_base e) + unat (bitmap_size_for memmap))"
    and "\<exists>m. t = s\<lparr>pmm_bitmap := pmm_bitmap t, mem := m\<rparr>"
proof -
  let ?n = "bitmap_size_for memmap"
  obtain pre e post t where split: "memmap = pre @ e # post" and e: "me_usable e" "?n \<le> me_length e"
    and init: "pmm_init memmap s = Some (pre @ shrink_entry ?n e # post, t)"
    and bm: "pmm_bitmap t = \<lparr>bm_data = PHYS_TO_VIRT s (me_base e), bm_size = ?n\<rparr>"
    and used: "\<And>i. i div 8 < ?n \<Longrightarrow> page_used t i \<longleftrightarrow> \<not> usable_page (pre @ shrink_entry ?n e # post) i"
    and rest: "\<exists>m. t = s\<lparr>pmm_bitmap := pmm_bitmap t, mem := m\<rparr>"
    by (rule pmm_init_eq [OF ok fits, where s = s]) (rule that)
  have "entry_ok e" using ok split e by simp
  note shrunk = shrink_entry_ok(2) [OF this e(2), unfolded bitmap_size_for_def, OF ALIGN_UP_aligned,
    folded bitmap_size_for_def]
  have other: "\<not> (page_in_entry f i \<and> page_in_entry e i)" if "f \<in> set pre \<union> set post" "me_usable f" for f i
  proof -
    have "f \<noteq> e" using that(1) assms(4) split by auto
    with apart that split e show ?thesis by (auto simp: pairwise_def)
  qed
  have "usable_page (pre @ shrink_entry ?n e # post) i \<longleftrightarrow> usable_page memmap i \<and>
      \<not> (page_in_entry e i \<and> unat i * 4096 < unat (me_base e) + unat ?n)" for i
  proof -
    have usable: "me_usable (shrink_entry ?n e)" using e by (simp add: shrink_entry_def)
    have "usable_page (pre @ shrink_entry ?n e # post) i \<longleftrightarrow>
        page_in_entry (shrink_entry ?n e) i \<or> (\<exists>f \<in> set pre \<union> set post. me_usable f \<and> page_in_entry f i)"
      using usable by (auto simp: usable_page_def)
    moreover have "usable_page memmap i \<longleftrightarrow>
        page_in_entry e i \<or> (\<exists>f \<in> set pre \<union> set post. me_usable f \<and> page_in_entry f i)"
      using e by (subst split) (auto simp: usable_page_def)
    ultimately show ?thesis using other shrunk [of i] by (auto simp: not_less)
  qed
  with used have bits: "\<forall>i. i div 8 < ?n \<longrightarrow> (page_used t i \<longleftrightarrow> \<not> usable_page memmap i \<or>
      page_in_entry e i \<and> unat i * 4096 < unat (me_base e) + unat ?n)" by blast
  have "e \<in> set memmap" by (subst split) simp
  with init bm bits e rest show ?thesis by (intro that) blast+
qed

text \<open>
  What initialisation leaves to the operations: if page 0 is not usable and every usable page has a
  bit, the allocator's invariant holds and the bitmap lies in pages that are in use.
\<close>

lemma page_in_entry_frame:
  assumes "entry_ok e" and "k < unat n" and "n \<le> me_length e"
  obtains i where "page_in_entry e i" and "unat i * 4096 \<le> unat (me_base e) + k"
    and "unat (me_base e) + k < unat i * 4096 + 4096" and "unat i < 2 ^ 52"
proof -
  let ?a = "unat (me_base e) + k"
  have k: "?a < unat (me_base e) + unat (me_length e)" "?a < 2 ^ 64"
    using assms by (auto simp: word_le_nat_alt entry_ok_def)
  then have small: "?a div 4096 < 2 ^ 52" by (simp add: div_less_iff_less_mult)
  then have i: "unat (of_nat (?a div 4096) :: u64) = ?a div 4096" by (intro unat_of_nat_u64) simp
  have "page_in_entry e (of_nat (?a div 4096))"
    using k(1) i by (auto simp: page_in_entry_def word_le_nat_alt unat_div intro: div_le_mono)
  with i small show ?thesis by (intro that [of "of_nat (?a div 4096)"]) simp_all
qed

lemma pmm_init_ready:
  assumes ok: "\<forall>e \<in> set memmap. me_usable e \<longrightarrow> entry_ok e"
    and fits: "\<exists>e \<in> set memmap. me_usable e \<and> bitmap_size_for memmap \<le> me_length e"
    and apart: "pairwise (\<lambda>e f. \<forall>i. \<not> (page_in_entry e i \<and> page_in_entry f i))
      (set (filter me_usable memmap))" and "distinct memmap"
    and first: "last_page_idx s = 0" "\<not> locked (pmm_lock s)" "\<not> usable_page memmap 0"
    and size: "0 < bitmap_size_for memmap" "unat (bitmap_size_for memmap) < 2 ^ 36"
    and bits: "\<And>i. usable_page memmap i \<Longrightarrow> i div 8 < bitmap_size_for memmap"
  obtains memmap' t e where "pmm_init memmap s = Some (memmap', t)" and "pmm_inv t" and "\<not> locked (pmm_lock t)"
    and "bitmap_reserved t" and "last_page_idx t = 0" and "bit_count t = 8 * unat (bitmap_size_for memmap)"
    and "e \<in> set memmap" and "me_usable e"
    and "\<And>i. i div 8 < bitmap_size_for memmap \<Longrightarrow> (page_used t i \<longleftrightarrow> \<not> usable_page memmap i \<or>
        page_in_entry e i \<and> unat i * 4096 < unat (me_base e) + unat (bitmap_size_for memmap))"
    and "\<exists>m. t = s\<lparr>pmm_bitmap := pmm_bitmap t, mem := m\<rparr>"
proof -
  let ?n = "bitmap_size_for memmap"
  obtain memmap' t e where init: "pmm_init memmap s = Some (memmap', t)" and e: "e \<in> set memmap" "me_usable e"
    "?n \<le> me_length e" and bm: "pmm_bitmap t = \<lparr>bm_data = PHYS_TO_VIRT s (me_base e), bm_size = ?n\<rparr>"
    and used: "\<And>i. i div 8 < ?n \<Longrightarrow> (page_used t i \<longleftrightarrow> \<not> usable_page memmap i \<or>
        page_in_entry e i \<and> unat i * 4096 < unat (me_base e) + unat ?n)"
    and rest: "\<exists>m. t = s\<lparr>pmm_bitmap := pmm_bitmap t, mem := m\<rparr>"
    by (rule pmm_init_pages [OF ok fits apart assms(4), of s]) blast
  have e_ok: "entry_ok e" using ok e by blast
  have t: "last_page_idx t = 0" "pmm_lock t = pmm_lock s" "hhdm_offset t = hhdm_offset s"
    using rest first(1) by (metis pmm.select_convs pmm.update_convs machine.select_convs machine.update_convs
        surjective)+
  have count: "bit_count t = 8 * unat ?n" by (simp add: bit_count_def bm)
  have limit: "unat (search_limit t) = unat ?n * 4096" "search_limit t \<noteq> 0"
  proof -
    show "unat (search_limit t) = unat ?n * 4096"
      using size(2) by (simp add: search_limit_def bm PAGE_SIZE_def unat_word_ariths)
    with size(1) show "search_limit t \<noteq> 0" by (auto simp: word_less_nat_alt)
  qed
  have "pmm_inv t"
    using limit size used [of 0] first(3) t(1) by (simp add: pmm_inv_def word_gt_0)
  moreover have "bitmap_reserved t"
    unfolding bitmap_reserved_def
  proof (intro conjI ballI)
    show "bit_count t \<le> 2 ^ 52" using size(2) count by simp
  next
    fix a assume "a \<in> bitmap_bytes t"
    then obtain k where k: "k < ?n" "a = bm_data (pmm_bitmap t) + k"
      by (auto simp: bitmap_bytes_def bm in_region_iff intro: that [of "a - bm_data (pmm_bitmap t)"])
    obtain i where i: "page_in_entry e i" "unat i * 4096 \<le> unat (me_base e) + unat k"
      "unat (me_base e) + unat k < unat i * 4096 + 4096" "unat i < 2 ^ 52"
      by (rule page_in_entry_frame [OF e_ok _ e(3), of "unat k"]) (use k(1) in \<open>simp_all add: word_less_nat_alt\<close>)
    have "usable_page memmap i" using i(1) e by (auto simp: usable_page_def)
    then have bit: "i div 8 < ?n" by (rule bits)
    then have "unat i < bit_count t" by (simp add: bit_count_div bm)
    moreover have "page_used t (of_nat (unat i))"
      using used [OF bit] i k(1) by (simp add: word_less_nat_alt)
    moreover have "a \<in> frame t (unat i)"
    proof -
      have "a - page_va t (unat i) = of_nat (unat (me_base e) + unat k - unat i * 4096)"
        using k(2) i(2) by (simp add: page_va_def PHYS_TO_VIRT_def bm t(3) PAGE_SIZE_def of_nat_diff)
      moreover have "unat (of_nat (unat (me_base e) + unat k - unat i * 4096) :: u64) < 4096"
        using i(2,3) by (subst unat_of_nat_u64) auto
      ultimately show ?thesis by (simp add: frame_def in_region_iff word_less_nat_alt del: of_nat_diff)
    qed
    ultimately show "\<exists>p < bit_count t. a \<in> frame t p \<and> page_used t (of_nat p)" by blast
  qed
  ultimately show ?thesis using init e used rest t first count by (intro that [of memmap' t e]) (simp_all add: used)
qed

text \<open>
  C27: For a page-aligned memory map with room for the bitmap, initialisation succeeds and,
  within the bitmap, the pages left free are exactly the usable ones of the map it leaves
  behind; that map lost at most the pages the bitmap itself lies in. If usable entries do
  not overlap, the bitmap's own pages are in use.
\<close>

theorem pmm_init_correct:
  assumes ok: "\<forall>e \<in> set memmap. me_usable e \<longrightarrow> entry_ok e"
    and fits: "\<exists>e \<in> set memmap. me_usable e \<and> bitmap_size_for memmap \<le> me_length e"
    and apart: "pairwise (\<lambda>e f. \<forall>i. \<not> (page_in_entry e i \<and> page_in_entry f i))
      (set (filter me_usable memmap))" and "distinct memmap"
  shows "\<exists>memmap' t e. pmm_init memmap s = Some (memmap', t) \<and> e \<in> set memmap \<and> me_usable e \<and>
    pmm_bitmap t = \<lparr>bm_data = PHYS_TO_VIRT s (me_base e), bm_size = bitmap_size_for memmap\<rparr> \<and>
    (\<forall>i. i div 8 < bitmap_size_for memmap \<longrightarrow>
      (page_used t i \<longleftrightarrow> \<not> usable_page memmap i \<or>
        page_in_entry e i \<and> unat i * 4096 < unat (me_base e) + unat (bitmap_size_for memmap)))"
  by (rule pmm_init_pages [OF assms, of s]) blast

definition memmap_sample :: "memmap_entry list" where
  "memmap_sample =
     [\<lparr>me_base = 0, me_length = 0x1000, me_usable = False\<rparr>,
      \<lparr>me_base = 0x1000, me_length = 0x8000, me_usable = True\<rparr>,
      \<lparr>me_base = 0x9000, me_length = 0x1000, me_usable = False\<rparr>,
      \<lparr>me_base = 0xA000, me_length = 0x6000, me_usable = True\<rparr>]"

theorem pmm_init_correct_witness:
  "\<exists>memmap' t e. pmm_init memmap_sample pmm_sample = Some (memmap', t) \<and> e \<in> set memmap_sample \<and>
    pmm_bitmap t = \<lparr>bm_data = PHYS_TO_VIRT pmm_sample (me_base e), bm_size = 0x1000\<rparr>"
proof -
  have size: "bitmap_size_for memmap_sample = 0x1000" by code_simp
  have 1: "\<forall>e \<in> set memmap_sample. me_usable e \<longrightarrow> entry_ok e"
    by (simp add: memmap_sample_def entry_ok_def page_aligned_def PAGE_SIZE_def)
  have 2: "\<exists>e \<in> set memmap_sample. me_usable e \<and> bitmap_size_for memmap_sample \<le> me_length e"
    unfolding size by (simp add: memmap_sample_def)
  have 3: "pairwise (\<lambda>e f. \<forall>i. \<not> (page_in_entry e i \<and> page_in_entry f i))
      (set (filter me_usable memmap_sample))"
    by (auto simp: memmap_sample_def pairwise_def page_in_entry_def word_le_nat_alt unat_div)
  have 4: "distinct memmap_sample" by (simp add: memmap_sample_def)
  from pmm_init_correct [OF 1 2 3 4, of pmm_sample] show ?thesis unfolding size by blast
qed

text \<open>A machine with two megabytes of memory, all but page 0 of it usable: what initialisation leaves.\<close>

definition boot_memmap :: "memmap_entry list" where
  "boot_memmap = [\<lparr>me_base = 0, me_length = 0x1000, me_usable = False\<rparr>,
     \<lparr>me_base = 0x1000, me_length = 0x1ff000, me_usable = True\<rparr>]"

lemma boot_memmap_size: "bitmap_size_for boot_memmap = 0x1000"
  by code_simp

lemma boot_memmap_usable: "usable_page boot_memmap i \<longleftrightarrow> 1 \<le> unat i \<and> unat i < 512"
  by (auto simp: usable_page_def boot_memmap_def page_in_entry_def word_le_nat_alt PAGE_SIZE_def)

lemma boot_pmm_init:
  assumes "last_page_idx s = 0" and "\<not> locked (pmm_lock s)"
  obtains memmap' t where "pmm_init boot_memmap s = Some (memmap', t)" and "pmm_inv t" and "\<not> locked (pmm_lock t)"
    and "bitmap_reserved t" and "last_page_idx t = 0" and "bit_count t = 32768"
    and "\<And>i. unat i < 32768 \<Longrightarrow> page_used t i \<longleftrightarrow> \<not> (2 \<le> unat i \<and> unat i < 512)"
    and "free_run t 2 510" and "room_ahead t 510" and "\<exists>m. t = s\<lparr>pmm_bitmap := pmm_bitmap t, mem := m\<rparr>"
proof -
  let ?n = "bitmap_size_for boot_memmap"
  have 1: "\<forall>e \<in> set boot_memmap. me_usable e \<longrightarrow> entry_ok e"
    by (simp add: boot_memmap_def entry_ok_def page_aligned_def PAGE_SIZE_def)
  have 2: "\<exists>e \<in> set boot_memmap. me_usable e \<and> ?n \<le> me_length e"
    unfolding boot_memmap_size by (simp add: boot_memmap_def)
  have 3: "pairwise (\<lambda>e f. \<forall>i. \<not> (page_in_entry e i \<and> page_in_entry f i)) (set (filter me_usable boot_memmap))"
    by (auto simp: boot_memmap_def pairwise_def)
  have 4: "distinct boot_memmap" "\<not> usable_page boot_memmap 0" "0 < ?n" "unat ?n < 2 ^ 36"
    by (simp_all add: boot_memmap_size boot_memmap_usable) (simp add: boot_memmap_def)
  have bit: "i div 8 < ?n \<longleftrightarrow> unat i < 32768" for i
    by (simp add: boot_memmap_size word_less_nat_alt unat_div div_less_iff_less_mult)
  have 5: "i div 8 < ?n" if "usable_page boot_memmap i" for i
    using that by (simp add: bit boot_memmap_usable)
  obtain memmap' t e where t: "pmm_init boot_memmap s = Some (memmap', t)" "pmm_inv t" "\<not> locked (pmm_lock t)"
    "bitmap_reserved t" "last_page_idx t = 0" "bit_count t = 8 * unat ?n" "e \<in> set boot_memmap" "me_usable e"
    and used: "\<And>i. i div 8 < ?n \<Longrightarrow> (page_used t i \<longleftrightarrow> \<not> usable_page boot_memmap i \<or>
        page_in_entry e i \<and> unat i * 4096 < unat (me_base e) + unat ?n)"
    and rest: "\<exists>m. t = s\<lparr>pmm_bitmap := pmm_bitmap t, mem := m\<rparr>"
    by (rule pmm_init_ready [OF 1 2 3 4(1) assms 4(2-4) 5]) blast+
  have e: "e = \<lparr>me_base = 0x1000, me_length = 0x1ff000, me_usable = True\<rparr>"
    using t(7,8) by (auto simp: boot_memmap_def)
  have bits: "page_used t i \<longleftrightarrow> \<not> (2 \<le> unat i \<and> unat i < 512)" if "unat i < 32768" for i
    using used [of i] that unfolding bit boot_memmap_usable
    by (auto simp: e page_in_entry_def boot_memmap_size word_le_nat_alt PAGE_SIZE_def)
  have "\<not> page_used t (of_nat i)" if "2 \<le> i" "i < 512" for i
  proof -
    have "unat (of_nat i :: u64) = i" using that by (intro unat_of_nat_u64) simp
    with bits [of "of_nat i"] that show ?thesis by simp
  qed
  then have free: "free_run t 2 510" by (simp add: free_run_def)
  have count: "bit_count t = 32768" using t(6) by (simp add: boot_memmap_size)
  have "room_ahead t 510"
    unfolding room_ahead_def using free t(5) count by (intro exI [of _ 2]) simp
  with t bits free count rest show ?thesis by (intro that [of memmap' t]) simp_all
qed

text \<open>
  The limit \<open>alloc\<close> searches up to is \<open>PAGE_SIZE\<close> bits per byte of the bitmap, not
  eight: once every page of the bitmap is in use, a request that finds zero bytes in the
  memory behind the bitmap is granted, with the address of a page that has no bit.
\<close>

lemma pmm_alloc_past_bitmap:
  assumes "pmm_inv s" and "\<not> locked (pmm_lock s)" and "pages \<noteq> 0"
    and full: "\<And>i. unat i < 8 * unat (bm_size (pmm_bitmap s)) \<Longrightarrow> page_used s i"
    and behind: "free_run s q (unat pages)" "q + unat pages \<le> unat (search_limit s)"
  shows "\<exists>p t. pmm_alloc pages s = Some (of_nat p * PAGE_SIZE, t) \<and>
    8 * unat (bm_size (pmm_bitmap s)) \<le> p \<and> p < 2 ^ 52"
proof -
  obtain r t where alloc: "pmm_alloc pages s = Some (r, t)"
    and fail: "r = 0 \<Longrightarrow> no_run s 0 (unat pages) (unat (search_limit s))"
    and ok: "r \<noteq> 0 \<Longrightarrow> \<exists>p. r = of_nat p * PAGE_SIZE \<and> p + unat pages \<le> unat (search_limit s) \<and>
      free_run s p (unat pages)"
    by (rule pmm_alloc_cases [OF assms(1-3)]) blast
  have "r \<noteq> 0" using fail behind by (auto simp: no_run_def)
  with ok obtain p where p: "r = of_nat p * PAGE_SIZE" "p + unat pages \<le> unat (search_limit s)"
    "free_run s p (unat pages)" by blast
  have small: "p < 2 ^ 52" using p(2) assms(1) by (simp add: pmm_inv_def)
  then have "unat (of_nat p :: u64) = p" by (intro unat_of_nat_u64) simp
  moreover have "\<not> page_used s (of_nat p)"
    using p(3) assms(3) by (auto simp: free_run_def unat_gt_0)
  ultimately have "8 * unat (bm_size (pmm_bitmap s)) \<le> p"
    using full [of "of_nat p"] by (metis not_le)
  with alloc p(1) small show ?thesis by blast
qed

lemma pmm_alloc_past_bitmap_witness:
  "\<exists>p t. pmm_alloc 1 (pmm_sample\<lparr>mem := (\<lambda>a. if a = 0 then 0xff else 0)\<rparr>) =
    Some (of_nat p * PAGE_SIZE, t) \<and> 8 \<le> p"
proof -
  let ?s = "pmm_sample\<lparr>mem := (\<lambda>a. if a = 0 then 0xff else 0)\<rparr>"
  have bits: "page_used ?s i \<longleftrightarrow> unat i < 8" for i
  proof -
    have "i div 8 = 0 \<longleftrightarrow> unat i < 8"
      by (simp add: word_unat_eq_iff unat_div div_eq_0_iff)
    moreover have "bit (0xff :: u8) (unat i)" if "unat i < 8" using that by (rule bit_ff)
    ultimately show ?thesis by (simp add: page_used_def bitmap_get_bit pmm_sample_def unat_mod)
  qed
  have 1: "pmm_inv ?s"
    using pmm_sample_inv by (simp add: pmm_inv_def search_limit_def bits)
  have 2: "free_run ?s 8 (unat (1 :: u64))" by (auto simp: free_run_def bits)
  have 3: "\<not> locked (pmm_lock ?s)" "8 * unat (bm_size (pmm_bitmap ?s)) = 8"
    "8 + unat (1 :: u64) \<le> unat (search_limit ?s)"
    by (simp_all add: search_limit_def pmm_sample_def PAGE_SIZE_def)
  have "\<exists>p t. pmm_alloc 1 ?s = Some (of_nat p * PAGE_SIZE, t) \<and>
    8 * unat (bm_size (pmm_bitmap ?s)) \<le> p \<and> p < 2 ^ 52"
    by (rule pmm_alloc_past_bitmap [OF 1 3(1) one_neq_zero _ 2 3(3)]) (simp only: 3(2) bits)
  then show ?thesis unfolding 3(2) by blast
qed

end
