(* ===== verification/Ringbuffer.thy ===== *)
theory Ringbuffer
  imports Prelude
begin

text \<open>
  The bounded buffer of \<open>src/kernel/utils/ringbuffer.hpp\<close>, which holds the packets of a
  socket until they are read. A full buffer drops its oldest item. The contract clients
  rely on is the locale \<open>lossy_fifo\<close>; the ring buffer is its instance for every size.
\<close>

section \<open>Operations\<close>

record 'a ringbuffer =
  rb_data :: "'a list"
  rb_head :: nat
  rb_tail :: nat

text \<open>\<open>sz\<close> is the template parameter \<open>Size\<close>, \<open>junk\<close> the uninitialised array \<open>new T[Size]\<close>.\<close>

definition rb_new :: "'a list \<Rightarrow> 'a ringbuffer" where
  "rb_new junk = \<lparr>rb_data = junk, rb_head = 0, rb_tail = 0\<rparr>"

definition rb_write :: "nat \<Rightarrow> 'a \<Rightarrow> 'a ringbuffer \<Rightarrow> 'a ringbuffer" where
  "rb_write sz item b =
     (let b = (if (rb_head b + 1) mod sz = rb_tail b then b\<lparr>rb_tail := (rb_tail b + 1) mod sz\<rparr> else b);
          b = b\<lparr>rb_data := (rb_data b)[rb_head b := item]\<rparr>
      in b\<lparr>rb_head := (rb_head b + 1) mod sz\<rparr>)"

definition rb_read :: "nat \<Rightarrow> 'a ringbuffer \<Rightarrow> 'a option \<times> 'a ringbuffer" where
  "rb_read sz b =
     (if rb_head b = rb_tail b then (None, b)
      else let item = rb_data b ! rb_tail b
           in (Some item, b\<lparr>rb_tail := (rb_tail b + 1) mod sz\<rparr>))"

definition rb_is_empty :: "'a ringbuffer \<Rightarrow> bool" where
  "rb_is_empty b \<longleftrightarrow> rb_head b = rb_tail b"

section \<open>The contract\<close>

primrec read_many :: "('b \<Rightarrow> 'a option \<times> 'b) \<Rightarrow> nat \<Rightarrow> 'b \<Rightarrow> 'a option list \<times> 'b" where
  "read_many get 0 b = ([], b)"
| "read_many get (Suc n) b = (let (x, b) = get b; (xs, b) = read_many get n b in (x # xs, b))"

lemma read_many_snoc:
  "fst (read_many get (Suc n) b) = fst (read_many get n b) @ [fst (get (snd (read_many get n b)))]"
  by (induction n arbitrary: b) (simp_all add: case_prod_beta)

locale lossy_fifo =
  fixes put :: "'a \<Rightarrow> 'b \<Rightarrow> 'b"
    and get :: "'b \<Rightarrow> 'a option \<times> 'b"
    and items :: "'b \<Rightarrow> 'a list"
    and ok :: "'b \<Rightarrow> bool"
    and cap :: nat
  assumes put_ok: "ok b \<Longrightarrow> ok (put x b)"
    and put_items: "ok b \<Longrightarrow>
      items (put x b) = drop (Suc (length (items b)) - cap) (items b @ [x])"
    and get_empty: "ok b \<Longrightarrow> items b = [] \<Longrightarrow> get b = (None, b)"
    and get_item: "ok b \<Longrightarrow> items b = x # xs \<Longrightarrow> \<exists>c. get b = (Some x, c) \<and> ok c \<and> items c = xs"
    and within: "ok b \<Longrightarrow> length (items b) \<le> cap"
begin

lemma puts_items:
  "ok b \<Longrightarrow> ok (fold put xs b) \<and>
    items (fold put xs b) = drop (length (items b) + length xs - cap) (items b @ xs)"
proof (induction xs arbitrary: b)
  case Nil
  then show ?case using within [of b] by simp
next
  case (Cons x xs)
  let ?d = "Suc (length (items b)) - cap"
  note ok = Cons.prems
  have len: "length (items (put x b)) = Suc (length (items b)) - ?d" using ok by (simp add: put_items)
  have "items (put x b) @ xs = drop ?d (items b @ x # xs)"
  proof (cases ?d)
    case (Suc k)
    then have "Suc k \<le> Suc (length (items b))" by simp
    with put_items [OF ok, of x] Suc show ?thesis by (cases "k = length (items b)") auto
  qed (use put_items [OF ok, of x] in simp)
  moreover have "length (items (put x b)) + length xs - cap + ?d = length (items b) + length (x # xs) - cap"
    using within [OF ok] unfolding len by auto
  ultimately have "drop (length (items (put x b)) + length xs - cap) (items (put x b) @ xs) =
      drop (length (items b) + length (x # xs) - cap) (items b @ x # xs)"
    by (simp only: drop_drop)
  with Cons.IH [OF put_ok [OF ok], of x] show ?case by (simp only: fold_simps comp_apply)
qed

lemma gets_items:
  "ok b \<Longrightarrow> n \<le> length (items b) \<Longrightarrow>
    fst (read_many get n b) = map Some (take n (items b)) \<and> ok (snd (read_many get n b)) \<and>
    items (snd (read_many get n b)) = drop n (items b)"
proof (induction n arbitrary: b)
  case (Suc n)
  then obtain x xs where xs: "items b = x # xs" by (cases "items b") auto
  with get_item [OF Suc.prems(1) xs] obtain c where c: "get b = (Some x, c)" "ok c" "items c = xs"
    by blast
  with Suc.IH [of c] Suc.prems(2) xs show ?case by (auto simp: case_prod_beta)
qed simp

end

section \<open>The ring buffer meets the contract\<close>

definition rb_ok :: "nat \<Rightarrow> 'a ringbuffer \<Rightarrow> bool" where
  "rb_ok sz b \<longleftrightarrow> length (rb_data b) = sz \<and> rb_head b < sz \<and> rb_tail b < sz"

definition rb_count :: "nat \<Rightarrow> 'a ringbuffer \<Rightarrow> nat" where
  "rb_count sz b = (if rb_tail b \<le> rb_head b then rb_head b - rb_tail b
     else rb_head b + sz - rb_tail b)"

definition rb_items :: "nat \<Rightarrow> 'a ringbuffer \<Rightarrow> 'a list" where
  "rb_items sz b = map (\<lambda>i. rb_data b ! ((rb_tail b + i) mod sz)) [0..<rb_count sz b]"

lemma step_mod: "i < sz \<Longrightarrow> Suc i mod sz = (if Suc i = sz then 0 else Suc i)"
  by simp

lemma wrap_mod: "t < sz \<Longrightarrow> i < sz \<Longrightarrow> (t + i) mod sz = (if t + i < sz then t + i else t + i - sz)"
  for t i :: nat
  by (simp add: mod_if)

lemma rb_count_less: "rb_ok sz b \<Longrightarrow> rb_count sz b < sz"
  by (auto simp: rb_ok_def rb_count_def)

lemma rb_items_length [simp]: "length (rb_items sz b) = rb_count sz b"
  by (simp add: rb_items_def)

lemma rb_write_ok: "rb_ok sz b \<Longrightarrow> rb_ok sz (rb_write sz x b)"
  by (auto simp: rb_ok_def rb_write_def Let_def)

lemma rb_write_items:
  assumes ok: "rb_ok sz b"
  shows "rb_items sz (rb_write sz x b) =
    drop (Suc (rb_count sz b) - (sz - 1)) (rb_items sz b @ [x])"
proof (cases "sz = 1")
  case True
  with ok show ?thesis by (simp add: rb_ok_def rb_items_def rb_count_def rb_write_def)
next
  case False
  let ?h = "rb_head b" and ?t = "rb_tail b" and ?c = "rb_count sz b"
  let ?full = "(?h + 1) mod sz = ?t"
  let ?w = "rb_write sz x b"
  have len: "length (rb_data b) = sz" "?h < sz" "?t < sz" using ok by (auto simp: rb_ok_def)
  have full: "?full \<longleftrightarrow> ?c = sz - 1"
    using len by (cases "?h + 1 = sz") (auto simp: rb_count_def)
  have count: "rb_count sz ?w = (if ?full then sz - 1 else Suc ?c)"
    using len False by (auto simp: rb_count_def rb_write_def Let_def step_mod split: if_splits)
  show ?thesis
  proof (rule nth_equalityI)
    show "length (rb_items sz ?w) = length (drop (Suc ?c - (sz - 1)) (rb_items sz b @ [x]))"
      using count full rb_count_less [OF ok] False by auto
  next
    fix i assume "i < length (rb_items sz ?w)"
    then have i: "i < rb_count sz ?w" by simp
    have data: "rb_items sz ?w ! i = (rb_data b)[?h := x] ! ((rb_tail ?w + i) mod sz)"
      using i by (simp add: rb_items_def) (simp add: rb_write_def Let_def)
    let ?k = "if ?full then Suc i else i"
    have place: "(rb_tail ?w + i) mod sz = (?t + ?k) mod sz"
      using len by (auto simp: rb_write_def Let_def mod_simps)
    have k: "?k \<le> ?c" using i count full rb_count_less [OF ok] by (auto split: if_splits)
    have at_head: "(?t + ?k) mod sz = ?h \<longleftrightarrow> ?k = ?c"
      using k len rb_count_less [OF ok] by (subst wrap_mod) (auto simp: rb_count_def split: if_splits)
    have "drop (Suc ?c - (sz - 1)) (rb_items sz b @ [x]) ! i = (rb_items sz b @ [x]) ! ?k"
      using i count full rb_count_less [OF ok] by (auto simp: nth_append split: if_splits)
    also have "\<dots> = (rb_data b)[?h := x] ! ((?t + ?k) mod sz)"
      using k at_head len by (auto simp: nth_append rb_items_def nth_list_update)
    finally show "rb_items sz ?w ! i = drop (Suc ?c - (sz - 1)) (rb_items sz b @ [x]) ! i"
      using data place by simp
  qed
qed

lemma rb_read_empty: "rb_ok sz b \<Longrightarrow> rb_items sz b = [] \<Longrightarrow> rb_read sz b = (None, b)"
  by (auto simp: rb_ok_def rb_items_def rb_count_def rb_read_def split: if_splits)

lemma rb_read_item:
  assumes ok: "rb_ok sz b" and items: "rb_items sz b = x # xs"
  shows "\<exists>c. rb_read sz b = (Some x, c) \<and> rb_ok sz c \<and> rb_items sz c = xs"
proof -
  let ?c = "b\<lparr>rb_tail := (rb_tail b + 1) mod sz\<rparr>"
  have len: "length (rb_data b) = sz" "rb_head b < sz" "rb_tail b < sz" using ok by (auto simp: rb_ok_def)
  have count: "rb_count sz b = Suc (length xs)" using items by (metis length_Cons rb_items_length)
  then have ne: "rb_head b \<noteq> rb_tail b" by (auto simp: rb_count_def split: if_splits)
  have "rb_items sz b ! 0 = rb_data b ! rb_tail b" using count len by (simp add: rb_items_def del: upt_Suc)
  then have "rb_data b ! rb_tail b = x" using items by simp
  with ne have "rb_read sz b = (Some x, ?c)" by (simp add: rb_read_def Let_def)
  moreover have "rb_ok sz ?c" using ok by (auto simp: rb_ok_def)
  moreover have "rb_items sz ?c = tl (rb_items sz b)"
  proof -
    have "rb_count sz ?c = length xs"
      using count len ne by (auto simp: rb_count_def step_mod split: if_splits)
    then show ?thesis
      unfolding rb_items_def count upt_conv_Cons [OF zero_less_Suc] list.map tl_def
      by (simp add: map_Suc_upt [symmetric] mod_simps comp_def del: upt_Suc)
  qed
  ultimately show ?thesis using items by simp
qed

interpretation rb: lossy_fifo "rb_write sz" "rb_read sz" "rb_items sz" "rb_ok sz" "sz - 1" for sz
  by unfold_locales
     (auto simp: rb_write_ok rb_write_items rb_read_empty rb_read_item dest: rb_count_less)


section \<open>Properties\<close>

text \<open>
  C29: Whatever sequence of items is written into a new buffer, reading returns the most
  recent \<open>Size - 1\<close> of them (all, if there are fewer) in the order written, and then nothing.
\<close>

theorem ringbuffer_keeps_latest:
  assumes "length junk = sz" and "0 < sz" and "n = min (length xs) (sz - 1)"
  shows "fst (read_many (rb_read sz) (Suc n) (fold (rb_write sz) xs (rb_new junk))) =
    map Some (drop (length xs - n) xs) @ [None]"
proof -
  let ?b = "fold (rb_write sz) xs (rb_new junk)"
  have new: "rb_ok sz (rb_new junk)" "rb_items sz (rb_new junk) = []"
    using assms(1,2) by (simp_all add: rb_ok_def rb_new_def rb_items_def rb_count_def)
  have "length xs - (sz - 1) = length xs - n" using assms(3) by simp
  then have b: "rb_ok sz ?b" "rb_items sz ?b = drop (length xs - n) xs"
    using rb.puts_items [OF new(1), of xs] new(2) by auto
  then have "length (rb_items sz ?b) = n" using assms(3) by simp
  with rb.gets_items [OF b(1), of n] b(2) rb.get_empty [of sz "snd (read_many (rb_read sz) n ?b)"]
  show ?thesis unfolding read_many_snoc by simp
qed

theorem ringbuffer_keeps_latest_witness:
  "fst (read_many (rb_read 4) 4 (fold (rb_write 4) [1, 2, 3, 4, 5] (rb_new [0, 0, 0, 0]))) =
    [Some 3, Some 4, Some (5 :: nat), None]"
  using ringbuffer_keeps_latest [of "[0, 0, 0, 0]" 4 3 "[1, 2, 3, 4, 5 :: nat]"]
  by (simp add: numeral_eq_Suc)

end
