(* ===== verification/Format.thy ===== *)
theory Format
  imports Prelude "HOL-Library.Signed_Division"
begin

text \<open>
  The conversions of numbers to text (\<open>src/kernel/libc/format.cpp\<close>). A buffer is the list
  of the characters written so far; the functions return it in place of the length, which
  is the length of the list. An \<open>int64_t\<close> is an integer in its range, divided towards zero
  as in C++; negating the least one overflows, and is taken to wrap around.
\<close>

section \<open>Operations\<close>

function int_digits :: "int \<Rightarrow> u8 list \<Rightarrow> u8 list" where
  "int_digits integer buffer =
     (let digit = integer smod 10;
          buffer = buffer @ [word_of_int (digit + 0x30)];
          integer = integer sdiv 10
      in if integer \<noteq> 0 then int_digits integer buffer else buffer)"
  by pat_completeness auto
termination
proof (relation "measure (\<lambda>(integer, buffer). nat \<bar>integer\<bar>)")
  fix x integer :: int and y buffer
  assume "integer = x sdiv 10" "integer \<noteq> 0"
  moreover from this have "x \<noteq> 0" by auto
  ultimately have "\<bar>integer\<bar> < \<bar>x\<bar>" by (simp add: signed_divide_int_def abs_mult)
  then show "((integer, y), (x, buffer)) \<in> measure (\<lambda>(integer, buffer). nat \<bar>integer\<bar>)" by simp
qed simp

definition hex_chars :: "u8 list" where
  "hex_chars = [0x30, 0x31, 0x32, 0x33, 0x34, 0x35, 0x36, 0x37, 0x38, 0x39,
     0x61, 0x62, 0x63, 0x64, 0x65, 0x66]"

function hex_digits :: "u64 \<Rightarrow> u8 list \<Rightarrow> u8 list" where
  "hex_digits integer buffer =
     (let remainder = integer mod 16;
          buffer = buffer @ [hex_chars ! unat remainder];
          integer = integer div 16
      in if integer > 0 then hex_digits integer buffer else buffer)"
  by pat_completeness auto
termination
  by (relation "measure (\<lambda>(x, b). unat x)") (auto simp: unat_div word_gt_0 word_unat_eq_iff intro!: div_less_dividend Nat.gr0I)

text \<open>The reversal in place: swap position \<open>i\<close> with its mirror image, up to the middle.\<close>

function reverse_loop :: "nat \<Rightarrow> 'a list \<Rightarrow> 'a list" where
  "reverse_loop i buffer =
     (if i < length buffer div 2 then
        let temp = buffer ! i;
            buffer' = buffer[i := buffer ! (length buffer - i - 1)]
        in reverse_loop (i + 1) (buffer'[length buffer - i - 1 := temp])
      else buffer)"
  by pat_completeness auto
termination
  by (relation "measure (\<lambda>(i, buffer). length buffer - i)") auto

declare int_digits.simps [simp del] hex_digits.simps [simp del] reverse_loop.simps [simp del]

definition int_to_str :: "int \<Rightarrow> u8 list" where
  "int_to_str integer =
     (let negative = integer < 0;
          integer = (if negative then signed_take_bit 63 (- integer) else integer);
          buffer = int_digits integer [];
          buffer = (if negative then buffer @ [0x2d] else buffer)
      in reverse_loop 0 buffer)"

text \<open>The argument is unsigned, so the sign test of the source is always false.\<close>

definition uint_to_hex :: "u64 \<Rightarrow> u8 list" where
  "uint_to_hex integer =
     (let integer = (if integer < 0 then - integer else integer)
      in reverse_loop 0 (hex_digits integer []))"

section \<open>The reversal\<close>

lemma reverse_loop_nth:
  "i \<le> length b div 2 \<Longrightarrow> length (reverse_loop i b) = length b \<and>
    (\<forall>k < length b. reverse_loop i b ! k =
      (if i \<le> k \<and> k < length b - i then b ! (length b - 1 - k) else b ! k))"
proof (induction i b rule: reverse_loop.induct)
  case (1 i b)
  show ?case
  proof (cases "i < length b div 2")
    case True
    let ?b = "b[i := b ! (length b - i - 1), length b - i - 1 := b ! i]"
    have eq: "reverse_loop i b = reverse_loop (i + 1) ?b"
      using True by (subst reverse_loop.simps) (simp add: Let_def)
    have ih: "length (reverse_loop (i + 1) ?b) = length ?b \<and> (\<forall>k < length ?b. reverse_loop (i + 1) ?b ! k =
      (if i + 1 \<le> k \<and> k < length ?b - (i + 1) then ?b ! (length ?b - 1 - k) else ?b ! k))"
      using "1.IH" [OF True refl refl] True by simp
    show ?thesis
    proof (intro conjI allI impI)
      fix k assume k: "k < length b"
      consider "k < i" | "k = i" | "i < k" "k < length b - i - 1" | "k = length b - i - 1"
        | "length b - i - 1 < k" by linarith
      then show "reverse_loop i b ! k =
          (if i \<le> k \<and> k < length b - i then b ! (length b - 1 - k) else b ! k)"
        unfolding eq using ih k True by cases (auto simp: nth_list_update)
    qed (use eq ih in simp)
  next
    case False
    with "1.prems" have i: "i = length b div 2" by simp
    have "reverse_loop i b = b" using False by (subst reverse_loop.simps) simp
    moreover have "length b - 1 - k = k" if "i \<le> k" "k < length b - i" for k
      using that i by linarith
    ultimately show ?thesis by auto
  qed
qed

lemma reverse_loop_0 [simp]: "reverse_loop 0 b = rev b"
  using reverse_loop_nth [of 0 b] by (intro nth_equalityI) (auto simp: rev_nth)

section \<open>Reading the text back\<close>

definition digit_value :: "u8 \<Rightarrow> nat" where
  "digit_value c = (if 0x61 \<le> c then unat c - 0x57 else unat c - 0x30)"

definition number_value :: "nat \<Rightarrow> u8 list \<Rightarrow> nat" where
  "number_value base cs = foldl (\<lambda>n c. base * n + digit_value c) 0 cs"

definition decimal_value :: "u8 list \<Rightarrow> int" where
  "decimal_value cs =
     (case cs of c # ds \<Rightarrow> if c = 0x2d then - int (number_value 10 ds) else int (number_value 10 cs)
      | [] \<Rightarrow> 0)"

definition is_digit :: "nat \<Rightarrow> u8 \<Rightarrow> bool" where
  "is_digit base c \<longleftrightarrow> (0x30 \<le> c \<and> c \<le> 0x39 \<or> 0x61 \<le> c \<and> c \<le> 0x66) \<and> digit_value c < base"

lemma number_value_snoc: "number_value base (cs @ [c]) = base * number_value base cs + digit_value c"
  by (simp add: number_value_def)

text \<open>
  What the digit loops produce: the digits of \<open>n\<close>, least significant first, without
  superfluous zeros and no more of them than \<open>n\<close> needs.
\<close>

definition digits_of :: "nat \<Rightarrow> nat \<Rightarrow> u8 list \<Rightarrow> bool" where
  "digits_of base n ds \<longleftrightarrow> ds \<noteq> [] \<and> number_value base (rev ds) = n \<and>
     (\<forall>c \<in> set ds. is_digit base c) \<and> (n \<noteq> 0 \<longrightarrow> last ds \<noteq> 0x30) \<and>
     base ^ (length ds - 1) \<le> max 1 n"

lemma digits_of_single:
  assumes "is_digit base c" and "digit_value c = n" and "n < base"
  shows "digits_of base n [c]"
  using assms by (auto simp: digits_of_def number_value_def digit_value_def)

lemma digits_of_Cons:
  assumes "is_digit base c" and "digit_value c = n mod base" and "digits_of base (n div base) ds"
    and "n div base \<noteq> 0"
  shows "digits_of base n (c # ds)"
proof -
  have "base ^ length ds \<le> n"
  proof -
    obtain k where k: "length ds = Suc k" using assms(3) by (cases ds) (auto simp: digits_of_def)
    have "base ^ k \<le> n div base" using assms(3,4) k by (simp add: digits_of_def)
    then have "base ^ Suc k \<le> base * (n div base)" by simp
    also have "\<dots> \<le> n" by simp
    finally show ?thesis using k by simp
  qed
  with assms show ?thesis by (auto simp: digits_of_def number_value_snoc)
qed

lemma decimal_digit:
  assumes "n < 10"
  shows "is_digit 10 (word_of_int (int n + 0x30))" and "digit_value (word_of_int (int n + 0x30)) = n"
proof -
  have "n \<in> {0, 1, 2, 3, 4, 5, 6, 7, 8, 9}" using assms by auto
  then show "is_digit 10 (word_of_int (int n + 0x30))"
    and "digit_value (word_of_int (int n + 0x30)) = n"
    by (auto simp: is_digit_def digit_value_def)
qed

lemma hex_digit:
  assumes "n < 16"
  shows "is_digit 16 (hex_chars ! n)" and "digit_value (hex_chars ! n) = n"
proof -
  have "n \<in> {0, 1, 2, 3, 4, 5, 6, 7, 8, 9, 10, 11, 12, 13, 14, 15}" using assms by simp arith
  then show "is_digit 16 (hex_chars ! n)" and "digit_value (hex_chars ! n) = n"
    by (auto simp: is_digit_def digit_value_def hex_chars_def)
qed

lemma int_digits_spec: "\<exists>ds. int_digits (int n) b = b @ ds \<and> digits_of 10 n ds"
proof (induction n arbitrary: b rule: less_induct)
  case (less n)
  let ?c = "word_of_int (int (n mod 10) + 0x30)"
  have div: "int n sdiv 10 = int (n div 10)" "int n smod 10 = int (n mod 10)"
    by (simp_all add: signed_divide_int_def signed_modulo_int_def zdiv_int zmod_int sgn_if)
  have digit: "is_digit 10 ?c" "digit_value ?c = n mod 10" by (rule decimal_digit; simp)+
  show ?case
  proof (cases "n div 10 = 0")
    case True
    then have "int_digits (int n) b = b @ [?c]" by (subst int_digits.simps) (simp add: Let_def div)
    moreover have "digits_of 10 n [?c]" by (rule digits_of_single) (use True digit in auto)
    ultimately show ?thesis by blast
  next
    case False
    then have "n div 10 < n" by (intro div_less_dividend) auto
    from less.IH [OF this, of "b @ [?c]"] obtain ds
      where ds: "int_digits (int (n div 10)) (b @ [?c]) = (b @ [?c]) @ ds" "digits_of 10 (n div 10) ds" by blast
    have "int_digits (int n) b = b @ ?c # ds"
      using False ds(1) by (subst int_digits.simps) (simp add: Let_def div)
    with digits_of_Cons [OF digit ds(2) False] show ?thesis by blast
  qed
qed

lemma hex_digits_spec: "\<exists>ds. hex_digits w b = b @ ds \<and> digits_of 16 (unat w) ds"
proof (induction w b rule: hex_digits.induct)
  case (1 w b)
  let ?c = "hex_chars ! unat (w mod 16)"
  have m: "unat (w mod 16) = unat w mod 16" "unat (w div 16) = unat w div 16"
    by (simp_all add: unat_mod unat_div)
  have digit: "is_digit 16 ?c" "digit_value ?c = unat w mod 16"
    unfolding m by (rule hex_digit; simp)+
  show ?case
  proof (cases "w div 16 = 0")
    case True
    then have "hex_digits w b = b @ [?c]" by (subst hex_digits.simps) (simp add: Let_def)
    moreover have "digits_of 16 (unat w) [?c]"
      using True m(2) by (intro digits_of_single digit(1)) (auto simp: digit(2) div_eq_0_iff)
    ultimately show ?thesis by blast
  next
    case False
    then have pos: "0 < w div 16" by (simp add: word_gt_0)
    from "1.IH" [OF refl refl refl pos] obtain ds
      where ds: "hex_digits (w div 16) (b @ [?c]) = (b @ [?c]) @ ds" "digits_of 16 (unat (w div 16)) ds" by blast
    have "hex_digits w b = b @ ?c # ds"
      using pos ds(1) by (subst hex_digits.simps) (simp add: Let_def)
    moreover have "unat w div 16 \<noteq> 0" using False m(2) by (metis unat_eq_0)
    ultimately show ?thesis using digits_of_Cons [OF digit] ds(2) m(2) by metis
  qed
qed

section \<open>Properties\<close>

text \<open>
  C35: For every 64-bit integer but the least one, \<open>int_to_str\<close> writes its decimal
  representation: reading the text back gives the integer, there are only digits behind an
  optional minus sign, no leading zero, and at most 20 characters (19 for the digits).
\<close>

theorem int_to_str_roundtrip:
  assumes "- (2 ^ 63) < i" and "i < 2 ^ 63"
  shows "decimal_value (int_to_str i) = i \<and> length (int_to_str i) \<le> 20 \<and>
    (\<exists>c cs. int_to_str i = (if i < 0 then [0x2d] else []) @ c # cs \<and>
      (\<forall>d \<in> set (c # cs). is_digit 10 d) \<and> (i \<noteq> 0 \<longrightarrow> c \<noteq> 0x30))"
proof -
  let ?n = "nat \<bar>i\<bar>"
  have wrap: "signed_take_bit 63 (- i) = - i"
    using assms by (intro signed_take_bit_int_eq_self) simp_all
  obtain ds where ds: "int_digits (int ?n) [] = ds" "digits_of 10 ?n ds"
    using int_digits_spec [of ?n "[]"] by auto
  have str: "int_to_str i = (if i < 0 then [0x2d] else []) @ rev ds"
    using ds(1) by (auto simp: int_to_str_def Let_def wrap abs_if)
  obtain c cs where ccs: "rev ds = c # cs" using ds(2) by (cases "rev ds") (auto simp: digits_of_def)
  have "set (c # cs) = set ds" using ccs by (metis set_rev)
  then have digits: "\<forall>d \<in> set (c # cs). is_digit 10 d" using ds(2) by (simp add: digits_of_def)
  have last_c: "last ds = c" using ccs by (metis hd_rev list.sel(1))
  have lead: "i \<noteq> 0 \<longrightarrow> c \<noteq> 0x30"
    using ds(2) last_c by (simp add: digits_of_def)
  have val: "number_value 10 (rev ds) = ?n" using ds(2) by (simp add: digits_of_def)
  have "c \<noteq> 0x2d" using digits by (auto simp: is_digit_def)
  then have "decimal_value (int_to_str i) = i"
    using val str ccs by (auto simp: decimal_value_def)
  moreover have "length ds \<le> 19"
  proof (rule ccontr)
    assume "\<not> length ds \<le> 19"
    then have "(10 :: nat) ^ 19 \<le> 10 ^ (length ds - 1)" by (intro power_increasing) auto
    also have "\<dots> \<le> max 1 ?n" using ds(2) by (simp add: digits_of_def)
    also have "\<dots> < 10 ^ 19" using assms by auto
    finally show False by simp
  qed
  then have "length (int_to_str i) \<le> 20" using str by simp
  ultimately show ?thesis using str ccs digits lead by auto
qed

theorem int_to_str_roundtrip_witness:
  "decimal_value (int_to_str (- 1207)) = - 1207 \<and> int_to_str (- 1207) = [0x2d, 0x31, 0x32, 0x30, 0x37]"
proof -
  have "int_to_str (- 1207) = [0x2d, 0x31, 0x32, 0x30, 0x37]" by code_simp
  with int_to_str_roundtrip [of "- 1207"] show ?thesis by simp
qed

text \<open>
  \<open>uint_to_hex\<close> writes the hexadecimal representation of every 64-bit word: lower-case
  digits that read back as the word, at most 16 of them, and no leading zero.
\<close>

lemma uint_to_hex_roundtrip:
  "number_value 16 (uint_to_hex w) = unat w \<and> length (uint_to_hex w) \<le> 16 \<and>
   (\<forall>d \<in> set (uint_to_hex w). is_digit 16 d) \<and> (w \<noteq> 0 \<longrightarrow> hd (uint_to_hex w) \<noteq> 0x30)"
proof -
  obtain ds where ds: "hex_digits w [] = ds" "digits_of 16 (unat w) ds"
    using hex_digits_spec [of w "[]"] by auto
  have str: "uint_to_hex w = rev ds" using ds(1) by (simp add: uint_to_hex_def Let_def)
  have "length ds \<le> 16"
  proof (rule ccontr)
    assume "\<not> length ds \<le> 16"
    then have "(16 :: nat) ^ 16 \<le> 16 ^ (length ds - 1)" by (intro power_increasing) auto
    also have "\<dots> \<le> max 1 (unat w)" using ds(2) by (simp add: digits_of_def)
    also have "\<dots> < 16 ^ 16" using unat_u64_less [of w] by simp
    finally show False by simp
  qed
  then show ?thesis using ds(2) unfolding str by (auto simp: digits_of_def hd_rev unat_eq_0)
qed

lemma uint_to_hex_roundtrip_witness: "hd (uint_to_hex 0xbeef) \<noteq> 0x30 \<and> is_digit 16 (last (uint_to_hex 0xbeef))"
proof -
  have "number_value 16 (uint_to_hex 0xbeef) = 0xbeef" using uint_to_hex_roundtrip [of "0xbeef"] by simp
  then have "uint_to_hex 0xbeef \<noteq> []" by (auto simp: number_value_def)
  then show ?thesis using uint_to_hex_roundtrip [of "0xbeef"] by simp
qed

text \<open>
  The least 64-bit integer is written wrongly: its negation overflows, every remainder
  is negative, and the characters are not digits.
\<close>

lemma int_to_str_least: "\<exists>c \<in> set (tl (int_to_str (- (2 ^ 63)))). \<not> is_digit 10 c"
  by code_simp

end
