(* ===== verification/Linked_List.thy ===== *)
theory Linked_List
  imports Prelude "HOL-Library.Monad_Syntax"
begin

text \<open>
  The doubly linked list of \<open>src/kernel/utils/list.hpp\<close>, which holds the open files and
  sockets of a task. Nodes live in a store indexed by address, 0 being the null pointer;
  reading or writing through an address without a node is a fault, the value \<open>None\<close>. The
  address of a new node is the allocator's and an argument of \<open>push\<close>.
\<close>

section \<open>Operations\<close>

record 'a node =
  nd_value :: 'a
  nd_prev :: u64
  nd_next :: u64

record 'a dll =
  dll_nodes :: "u64 \<rightharpoonup> 'a node"
  dll_head :: u64
  dll_size :: u64

definition dll_empty :: "'a dll" where
  "dll_empty = \<lparr>dll_nodes = Map.empty, dll_head = 0, dll_size = 0\<rparr>"

definition dll_node :: "'a \<Rightarrow> 'a node" where
  "dll_node v = \<lparr>nd_value = v, nd_prev = 0, nd_next = 0\<rparr>"

definition set_prev :: "u64 \<Rightarrow> u64 \<Rightarrow> 'a dll \<Rightarrow> 'a dll option" where
  "set_prev a p l =
     do { n \<leftarrow> dll_nodes l a; Some (l\<lparr>dll_nodes := (dll_nodes l)(a \<mapsto> n\<lparr>nd_prev := p\<rparr>)\<rparr>) }"

definition set_next :: "u64 \<Rightarrow> u64 \<Rightarrow> 'a dll \<Rightarrow> 'a dll option" where
  "set_next a p l =
     do { n \<leftarrow> dll_nodes l a; Some (l\<lparr>dll_nodes := (dll_nodes l)(a \<mapsto> n\<lparr>nd_next := p\<rparr>)\<rparr>) }"

definition dll_push :: "u64 \<Rightarrow> 'a \<Rightarrow> 'a dll \<Rightarrow> 'a dll option" where
  "dll_push node v l =
     do {
       let l = l\<lparr>dll_nodes := (dll_nodes l)(node \<mapsto> dll_node v)\<rparr>;
       l \<leftarrow> (if dll_head l = 0 then Some (l\<lparr>dll_head := node\<rparr>)
            else do {
              l \<leftarrow> set_next node (dll_head l) l;
              h \<leftarrow> dll_nodes l (dll_head l);
              l \<leftarrow> (if nd_next h \<noteq> 0 then set_prev (nd_next h) node l else Some l);
              Some (l\<lparr>dll_head := node\<rparr>) });
       Some (l\<lparr>dll_size := dll_size l + 1\<rparr>) }"

text \<open>Unlinking and deleting the node \<open>current\<close>, whose contents are \<open>n\<close>.\<close>

definition dll_unlink :: "u64 \<Rightarrow> 'a node \<Rightarrow> 'a dll \<Rightarrow> 'a dll option" where
  "dll_unlink current n l =
     do {
       l \<leftarrow> (if current = dll_head l then
              let l = l\<lparr>dll_head := nd_next n\<rparr>
              in if dll_head l \<noteq> 0 then set_prev (dll_head l) 0 l else Some l
            else do {
              l \<leftarrow> set_next (nd_prev n) (nd_next n) l;
              if nd_next n \<noteq> 0 then set_prev (nd_next n) (nd_prev n) l else Some l });
       let l = l\<lparr>dll_size := dll_size l - 1\<rparr>;
       Some (l\<lparr>dll_nodes := (dll_nodes l)(current := None)\<rparr>) }"

partial_function (option) dll_remove_loop :: "'a \<Rightarrow> u64 \<Rightarrow> 'a dll \<Rightarrow> 'a dll option" where
  "dll_remove_loop v current l =
     (if current = 0 then Some l
      else do {
        n \<leftarrow> dll_nodes l current;
        if nd_value n = v then dll_unlink current n l
        else dll_remove_loop v (nd_next n) l })"

definition dll_remove :: "'a \<Rightarrow> 'a dll \<Rightarrow> 'a dll option" where
  "dll_remove v l = dll_remove_loop v (dll_head l) l"

partial_function (option) dll_get_loop :: "'a \<Rightarrow> u64 \<Rightarrow> 'a dll \<Rightarrow> 'a option option" where
  "dll_get_loop v current l =
     (if current = 0 then Some None
      else do {
        n \<leftarrow> dll_nodes l current;
        if nd_value n = v then Some (Some v) else dll_get_loop v (nd_next n) l })"

definition dll_get :: "'a \<Rightarrow> 'a dll \<Rightarrow> 'a option option" where
  "dll_get v l = dll_get_loop v (dll_head l) l"

definition dll_is_empty :: "'a dll \<Rightarrow> bool" where
  "dll_is_empty l \<longleftrightarrow> dll_head l = 0"

text \<open>The destructor deletes every node from \<open>current\<close> on.\<close>

partial_function (option) dll_destroy_loop :: "u64 \<Rightarrow> 'a dll \<Rightarrow> 'a dll option" where
  "dll_destroy_loop current l =
     (if current \<noteq> 0 then do {
        n \<leftarrow> dll_nodes l current;
        dll_destroy_loop (nd_next n) (l\<lparr>dll_nodes := (dll_nodes l)(current := None)\<rparr>) }
      else Some l)"

definition dll_destroy :: "'a dll \<Rightarrow> 'a dll option" where
  "dll_destroy l = dll_destroy_loop (dll_head l) l"

declare dll_remove_loop.simps [code] dll_get_loop.simps [code] dll_destroy_loop.simps [code]

text \<open>A list filled by pushes alone, each with the address of its node.\<close>

primrec dll_pushes :: "(u64 \<times> 'a) list \<Rightarrow> 'a dll \<Rightarrow> 'a dll option" where
  "dll_pushes [] l = Some l"
| "dll_pushes (x # xs) l = do { l \<leftarrow> dll_push (fst x) (snd x) l; dll_pushes xs l }"

section \<open>The chain of next pointers\<close>

primrec chain :: "(u64 \<rightharpoonup> 'a node) \<Rightarrow> u64 \<Rightarrow> (u64 \<times> 'a) list \<Rightarrow> bool" where
  "chain h p [] \<longleftrightarrow> p = 0"
| "chain h p (x # xs) \<longleftrightarrow> p = fst x \<and> p \<noteq> 0 \<and>
     (\<exists>n. h p = Some n \<and> nd_value n = snd x \<and> chain h (nd_next n) xs)"

lemma chain_update_prev:
  "h a = Some n \<Longrightarrow> chain (h(a \<mapsto> n\<lparr>nd_prev := q\<rparr>)) p xs \<longleftrightarrow> chain h p xs"
  by (induction xs arbitrary: p) auto

lemma chain_outside: "a \<notin> fst ` set xs \<Longrightarrow> chain (h(a := v)) p xs \<longleftrightarrow> chain h p xs"
  by (induction xs arbitrary: p) auto

lemma chain_head: "chain h p xs \<Longrightarrow> p = (case xs of [] \<Rightarrow> 0 | x # _ \<Rightarrow> fst x)"
  by (cases xs) auto

lemma chain_get:
  "chain (dll_nodes l) p xs \<Longrightarrow>
    dll_get_loop v p l = Some (if v \<in> snd ` set xs then Some v else None)"
proof (induction xs arbitrary: p)
  case Nil
  then show ?case by (subst dll_get_loop.simps) simp
next
  case (Cons x xs)
  then show ?case by (subst dll_get_loop.simps) (cases "snd x = v"; force)
qed

text \<open>The search of \<open>remove\<close> stops at the first node with the value, or does nothing.\<close>

lemma chain_remove_absent:
  "chain (dll_nodes l) p xs \<Longrightarrow> v \<notin> snd ` set xs \<Longrightarrow> dll_remove_loop v p l = Some l"
proof (induction xs arbitrary: p)
  case Nil
  then show ?case by (subst dll_remove_loop.simps) simp
next
  case (Cons x xs)
  then show ?case by (subst dll_remove_loop.simps) auto
qed

lemma chain_remove_found:
  "chain (dll_nodes l) p (xs @ (a, v) # ys) \<Longrightarrow> v \<notin> snd ` set xs \<Longrightarrow>
    \<exists>n. dll_nodes l a = Some n \<and> a \<noteq> 0 \<and> dll_remove_loop v p l = dll_unlink a n l \<and>
      chain (dll_nodes l) (nd_next n) ys"
proof (induction xs arbitrary: p)
  case Nil
  then show ?case by (subst dll_remove_loop.simps) auto
next
  case (Cons x xs)
  then show ?case by (subst dll_remove_loop.simps) auto
qed

text \<open>
  What the prev pointers of a list filled by pushes hold: null in the first two nodes, and
  from the third node on the address of the node two places ahead.
\<close>

fun skewed :: "(u64 \<rightharpoonup> 'a node) \<Rightarrow> (u64 \<times> 'a) list \<Rightarrow> bool" where
  "skewed h (x # y # z # xs) \<longleftrightarrow>
     map_option nd_prev (h (fst z)) = Some (fst x) \<and> skewed h (y # z # xs)"
| "skewed h _ \<longleftrightarrow> True"

definition pushed_list :: "'a dll \<Rightarrow> (u64 \<times> 'a) list \<Rightarrow> bool" where
  "pushed_list l xs \<longleftrightarrow> chain (dll_nodes l) (dll_head l) xs \<and> distinct (map fst xs) \<and>
     dll_size l = of_nat (length xs) \<and> skewed (dll_nodes l) xs \<and> dll_nodes l 0 = None \<and>
     (\<forall>x \<in> set (take 2 xs). map_option nd_prev (dll_nodes l (fst x)) = Some 0)"

lemma skewed_cong: "(\<And>a. a \<in> fst ` set (drop 2 xs) \<Longrightarrow> map_option nd_prev (h a) = map_option nd_prev (h' a)) \<Longrightarrow>
    skewed h xs = skewed h' xs"
  by (induction h xs rule: skewed.induct) auto

lemma pushed_list_push:
  assumes "pushed_list l xs" and "a \<noteq> 0" and "a \<notin> fst ` set xs"
  shows "\<exists>l'. dll_push a v l = Some l' \<and> pushed_list l' ((a, v) # xs)"
proof (cases xs)
  case Nil
  with assms show ?thesis
    by (auto simp: pushed_list_def dll_push_def dll_node_def Let_def)
next
  case (Cons y ys)
  show ?thesis
  proof (cases ys)
    case Nil
    with Cons assms show ?thesis
      by (auto simp: pushed_list_def dll_push_def dll_node_def Let_def set_next_def)
  next
    case (Cons z zs)
    note xs = \<open>xs = y # ys\<close> Cons
    from assms(1) xs obtain ny nz where n: "dll_nodes l (fst y) = Some ny" "nd_next ny = fst z"
        "dll_nodes l (fst z) = Some nz" and head: "dll_head l = fst y" "fst y \<noteq> 0" "fst z \<noteq> 0"
      by (auto simp: pushed_list_def)
    have d: "a \<noteq> fst y" "a \<noteq> fst z" "fst y \<noteq> fst z" "a \<notin> fst ` set zs" "fst z \<notin> fst ` set zs"
      using assms(1,3) xs by (auto simp: pushed_list_def)
    define h where "h = (dll_nodes l)(a \<mapsto> \<lparr>nd_value = v, nd_prev = 0, nd_next = fst y\<rparr>)"
    define h' where "h' = h(fst z \<mapsto> nz\<lparr>nd_prev := a\<rparr>)"
    have h'_at: "h' a = Some \<lparr>nd_value = v, nd_prev = 0, nd_next = fst y\<rparr>" "h' (fst z) = Some (nz\<lparr>nd_prev := a\<rparr>)"
      and h'_other: "\<And>b. b \<noteq> a \<Longrightarrow> b \<noteq> fst z \<Longrightarrow> h' b = dll_nodes l b"
      using d by (simp_all add: h'_def h_def)
    have "chain h' (fst y) xs"
    proof -
      have "chain h (fst y) xs"
        using assms(1,3) head(1) by (simp add: h_def chain_outside pushed_list_def)
      moreover have "h (fst z) = Some nz" using n d by (simp add: h_def)
      ultimately show ?thesis by (simp add: h'_def chain_update_prev)
    qed
    then have "chain h' a ((a, v) # xs)" using assms(2) h'_at(1) by simp
    moreover have "skewed h' ((a, v) # xs)"
    proof -
      have "skewed h' xs = skewed (dll_nodes l) xs"
      proof (rule skewed_cong)
        fix b assume "b \<in> fst ` set (drop 2 xs)"
        then have "b \<in> fst ` set zs" by (simp add: xs)
        then have "b \<noteq> a" "b \<noteq> fst z" using d(4,5) by blast+
        then show "map_option nd_prev (h' b) = map_option nd_prev (dll_nodes l b)" by (simp add: h'_other)
      qed
      with assms(1) h'_at(2) show ?thesis by (simp add: xs pushed_list_def)
    qed
    moreover have "\<forall>x \<in> set (take 2 ((a, v) # xs)). map_option nd_prev (h' (fst x)) = Some 0"
      using assms(1) h'_at(1) h'_other d by (auto simp: xs pushed_list_def)
    moreover have "dll_push a v l = Some (l\<lparr>dll_nodes := h', dll_head := a, dll_size := dll_size l + 1\<rparr>)"
      using n head d by (simp add: dll_push_def dll_node_def set_next_def set_prev_def h'_def h_def)
    moreover have "h' 0 = None" using h'_other [of 0] assms(1,2) head(3) by (simp add: pushed_list_def)
    ultimately show ?thesis using assms by (simp add: pushed_list_def)
  qed
qed

lemma pushes_pushed_list:
  "pushed_list l ys \<Longrightarrow> distinct (map fst xs) \<Longrightarrow> 0 \<notin> fst ` set xs \<Longrightarrow> fst ` set xs \<inter> fst ` set ys = {} \<Longrightarrow>
    \<exists>l'. dll_pushes xs l = Some l' \<and> pushed_list l' (rev xs @ ys)"
proof (induction xs arbitrary: l ys)
  case (Cons x xs)
  have "fst x \<noteq> 0" "fst x \<notin> fst ` set ys" using Cons.prems by auto
  from pushed_list_push [OF Cons.prems(1) this, of "snd x"] obtain l1
    where l1: "dll_push (fst x) (snd x) l = Some l1" "pushed_list l1 (x # ys)" by auto
  have "distinct (map fst xs)" "0 \<notin> fst ` set xs" "fst ` set xs \<inter> fst ` set (x # ys) = {}"
    using Cons.prems by auto
  from Cons.IH [OF l1(2) this] l1(1) show ?case by auto
qed simp

lemma pushed_list_empty: "pushed_list dll_empty []"
  by (simp add: pushed_list_def dll_empty_def)

text \<open>Unlinking the head keeps the rest of the chain.\<close>

lemma unlink_head:
  assumes "chain (dll_nodes l) (dll_head l) (x # xs)" and "distinct (map fst (x # xs))"
    and "dll_nodes l (fst x) = Some n"
  shows "\<exists>l'. dll_unlink (fst x) n l = Some l' \<and> chain (dll_nodes l') (dll_head l') xs \<and>
    dll_size l' = dll_size l - 1 \<and> dll_nodes l' (fst x) = None"
proof (cases xs)
  case Nil
  with assms show ?thesis by (auto simp: dll_unlink_def Let_def)
next
  case (Cons y ys)
  with assms obtain m where m: "nd_next n = fst y" "fst y \<noteq> 0" "dll_nodes l (fst y) = Some m"
      "dll_head l = fst x" "fst x \<noteq> fst y" "fst x \<notin> fst ` set xs" by auto
  have "chain ((dll_nodes l)(fst y \<mapsto> m\<lparr>nd_prev := 0\<rparr>, fst x := None)) (fst y) xs"
    using assms(1,3) m by (simp add: chain_outside chain_update_prev)
  with m show ?thesis by (auto simp: dll_unlink_def Let_def set_prev_def)
qed

section \<open>Properties\<close>

text \<open>
  A list filled by pushes into distinct new nodes holds its values: \<open>get\<close> finds exactly
  the pushed values, the size is their number, removing an absent value changes nothing, and
  removing the value pushed last unlinks and deletes its node and keeps all others.
\<close>

lemma dll_push_get_remove:
  assumes "distinct (map fst xs)" and "0 \<notin> fst ` set xs"
  shows "\<exists>l. dll_pushes xs dll_empty = Some l \<and> dll_size l = of_nat (length xs) \<and>
    (\<forall>v. dll_get v l = Some (if v \<in> snd ` set xs then Some v else None)) \<and>
    (\<forall>v. v \<notin> snd ` set xs \<longrightarrow> dll_remove v l = Some l) \<and>
    (xs \<noteq> [] \<longrightarrow> (\<exists>l'. dll_remove (snd (last xs)) l = Some l' \<and>
      chain (dll_nodes l') (dll_head l') (tl (rev xs)) \<and> dll_size l' = of_nat (length xs - 1) \<and>
      dll_nodes l' (fst (last xs)) = None))"
proof -
  obtain l where l: "dll_pushes xs dll_empty = Some l" "pushed_list l (rev xs)"
    using pushes_pushed_list [OF pushed_list_empty assms] by auto
  have ch: "chain (dll_nodes l) (dll_head l) (rev xs)" using l(2) by (simp add: pushed_list_def)
  have sz: "dll_size l = of_nat (length xs)" using l(2) by (simp add: pushed_list_def)
  have "\<exists>l'. dll_remove (snd (last xs)) l = Some l' \<and>
      chain (dll_nodes l') (dll_head l') (tl (rev xs)) \<and> dll_size l' = of_nat (length xs - 1) \<and>
      dll_nodes l' (fst (last xs)) = None" if "xs \<noteq> []"
  proof -
    let ?x = "last xs"
    have rev: "rev xs = ?x # tl (rev xs)" using that by (metis hd_rev list.collapse rev_is_Nil_conv)
    have ch': "chain (dll_nodes l) (dll_head l) (?x # tl (rev xs))" using ch rev by metis
    then obtain n where n: "dll_nodes l (fst ?x) = Some n" "dll_head l = fst ?x"
        "dll_remove (snd ?x) l = dll_unlink (fst ?x) n l"
      using chain_remove_found [of l "dll_head l" "[]" "fst ?x" "snd ?x" "tl (rev xs)"]
      by (auto simp: dll_remove_def)
    have "distinct (map fst (rev xs))" using assms(1) by (simp add: rev_map [symmetric])
    then have "distinct (map fst (?x # tl (rev xs)))" using rev by metis
    from unlink_head [OF ch' this n(1)] n(3) sz that show ?thesis
      by (auto simp: of_nat_diff Suc_leI)
  qed
  with l(1) sz ch show ?thesis
    by (auto simp: dll_get_def chain_get dll_remove_def chain_remove_absent)
qed

lemma dll_push_get_remove_witness:
  "\<exists>l. dll_pushes [(16, ''a''), (32, ''b'')] dll_empty = Some l \<and>
    dll_get ''a'' l = Some (Some ''a'') \<and> dll_get ''c'' l = Some None"
  using dll_push_get_remove [of "[(16, ''a''), (32, ''b'')]"] by auto

text \<open>
  The prev pointers are wrong, because \<open>push\<close> writes the one of the node behind the
  old head: in a list of at least two pushed nodes, removing the value of the second node
  dereferences a null pointer; and removing the third one's unlinks the second with it.
\<close>

lemma dll_remove_faults:
  assumes "distinct (map fst xs)" and "0 \<notin> fst ` set xs" and "rev xs = (a, u) # (b, v) # ys" and "u \<noteq> v"
  shows "\<exists>l. dll_pushes xs dll_empty = Some l \<and> dll_remove v l = None \<and>
    (\<forall>c w zs. ys = (c, w) # zs \<longrightarrow> w \<noteq> u \<longrightarrow> w \<noteq> v \<longrightarrow>
      (\<exists>l'. dll_remove w l = Some l' \<and> chain (dll_nodes l') (dll_head l') ((a, u) # zs) \<and>
        dll_size l' = of_nat (length xs - 1)))"
proof -
  obtain l where l: "dll_pushes xs dll_empty = Some l" "pushed_list l (rev xs)"
    using pushes_pushed_list [OF pushed_list_empty assms(1,2)] by auto
  have ch: "chain (dll_nodes l) (dll_head l) ((a, u) # (b, v) # ys)" and dist: "distinct (map fst ((a, u) # (b, v) # ys))"
    and skew: "skewed (dll_nodes l) ((a, u) # (b, v) # ys)"
    and prev: "map_option nd_prev (dll_nodes l b) = Some 0" and sz: "dll_size l = of_nat (length xs)"
    using l(2) assms(3) by (auto simp: pushed_list_def)
  have head: "dll_head l = a" "a \<noteq> b" using ch dist by auto
  obtain n where n: "dll_nodes l b = Some n" "dll_remove v l = dll_unlink b n l"
    using chain_remove_found [of l "dll_head l" "[(a, u)]" b v ys] ch assms(4) by (auto simp: dll_remove_def)
  have "dll_nodes l 0 = None" using l(2) by (simp add: pushed_list_def)
  then have "dll_remove v l = None"
    using n prev head by (simp add: dll_unlink_def set_next_def)
  moreover have "\<exists>l'. dll_remove w l = Some l' \<and> chain (dll_nodes l') (dll_head l') ((a, u) # zs) \<and>
        dll_size l' = of_nat (length xs - 1)" if ys: "ys = (c, w) # zs" and w: "w \<noteq> u" "w \<noteq> v" for c w zs
  proof -
    have "chain (dll_nodes l) (dll_head l) ([(a, u), (b, v)] @ (c, w) # zs)"
      using ch ys by (simp only: append_Cons append_Nil)
    then obtain k where k: "dll_nodes l c = Some k" "dll_remove w l = dll_unlink c k l"
        "chain (dll_nodes l) (nd_next k) zs"
      using chain_remove_found [of l "dll_head l" "[(a, u), (b, v)]" c w zs] w
      by (auto simp: dll_remove_def)
    have pk: "nd_prev k = a" using skew ys k(1) by simp
    obtain m where m: "dll_nodes l a = Some m" "nd_value m = u" "a \<noteq> 0" using ch by auto
    have d: "a \<noteq> c" "a \<notin> fst ` set zs" "c \<notin> fst ` set zs" using dist ys by auto
    have "\<exists>l'. dll_unlink c k l = Some l' \<and> dll_head l' = a \<and> dll_size l' = dll_size l - 1 \<and>
        chain (dll_nodes l') (nd_next k) zs \<and> dll_nodes l' a = Some (m\<lparr>nd_next := nd_next k\<rparr>)"
    proof (cases zs)
      case Nil
      with k m d head pk show ?thesis by (simp add: dll_unlink_def set_next_def)
    next
      case (Cons z zs')
      then obtain nz where z: "nd_next k = fst z" "fst z \<noteq> 0" "dll_nodes l (fst z) = Some nz" "a \<noteq> fst z" "c \<noteq> fst z"
        using k(3) d by auto
      have "chain ((dll_nodes l)(a \<mapsto> m\<lparr>nd_next := fst z\<rparr>, fst z \<mapsto> nz\<lparr>nd_prev := a\<rparr>, c := None)) (fst z) zs"
        using k(3) z d by (simp add: chain_outside chain_update_prev)
      with k m d head pk z show ?thesis by (simp add: dll_unlink_def set_next_def set_prev_def)
    qed
    then obtain l' where l': "dll_unlink c k l = Some l'" "dll_head l' = a" "dll_size l' = dll_size l - 1"
        "chain (dll_nodes l') (nd_next k) zs" "dll_nodes l' a = Some (m\<lparr>nd_next := nd_next k\<rparr>)"
      by blast
    have "xs \<noteq> []" using assms(3) by auto
    then have "dll_size l' = of_nat (length xs - 1)" using l'(3) sz by (simp add: of_nat_diff Suc_leI)
    with l' k(2) m show ?thesis by auto
  qed
  ultimately show ?thesis using l(1) by blast
qed

lemma dll_remove_faults_witness:
  "\<exists>l. dll_pushes [(16, ''a''), (32, ''b'')] dll_empty = Some l \<and> dll_remove ''a'' l = None"
  using dll_remove_faults [of "[(16, ''a''), (32, ''b'')]" 32 "''b''" 16 "''a''" "[]"] by auto

end
