(* ===== verification/Hashmap.thy ===== *)
theory Hashmap
  imports Prelude
begin

text \<open>
  The string hash map of \<open>src/kernel/utils/hashmap.hpp\<close>, which holds the children of a
  directory. A bucket is the list of its entries, followed from its first entry along the
  next pointers; an entry stores the hash of its key and not the key. The contract the file
  system relies on is the locale \<open>first_wins_map\<close>.
\<close>

section \<open>Operations\<close>

record 'v hm_entry =
  key_hash :: u32
  hm_value :: 'v

type_synonym 'v hashmap = "'v hm_entry list list"

text \<open>The djb2 hash of a string; \<open>char\<close> is signed, so a character is sign extended.\<close>

definition hash_step :: "u32 \<Rightarrow> u8 \<Rightarrow> u32" where
  "hash_step hash c = (push_bit 5 hash + hash) XOR scast c"

definition hash_key :: "u8 list \<Rightarrow> u32" where
  "hash_key key = foldl hash_step 5381 key"

text \<open>
  \<open>new\<close> does not clear the array of buckets. \<open>stale i\<close> is the chain that is met behind what the memory
  of bucket \<open>i\<close> happens to hold: no entry behind a null pointer, entries of an earlier map behind a
  pointer that was left there.
\<close>

definition hm_new :: "(nat \<Rightarrow> 'v hm_entry list) \<Rightarrow> nat \<Rightarrow> 'v hashmap" where
  "hm_new stale capacity = map stale [0..<capacity]"

definition hm_index :: "u32 \<Rightarrow> 'v hashmap \<Rightarrow> nat" where
  "hm_index hash m = unat hash mod length m"

text \<open>The walk to the last entry looks at every hash but the last entry's.\<close>

fun chain_insert :: "u32 \<Rightarrow> 'v hm_entry \<Rightarrow> 'v hm_entry list \<Rightarrow> 'v hm_entry list" where
  "chain_insert hash new [] = [new]"
| "chain_insert hash new [e] = [e, new]"
| "chain_insert hash new (e # f # es) =
     (if key_hash e = hash then e # f # es else e # chain_insert hash new (f # es))"

definition hm_insert :: "u8 list \<Rightarrow> 'v \<Rightarrow> 'v hashmap \<Rightarrow> 'v hashmap" where
  "hm_insert key v m =
     (let hash = hash_key key; index = hm_index hash m
      in m[index := chain_insert hash \<lparr>key_hash = hash_key key, hm_value = v\<rparr> (m ! index)])"

primrec chain_get :: "u32 \<Rightarrow> 'v hm_entry list \<Rightarrow> 'v option" where
  "chain_get hash [] = None"
| "chain_get hash (e # es) = (if key_hash e = hash then Some (hm_value e) else chain_get hash es)"

definition hm_get :: "u8 list \<Rightarrow> 'v hashmap \<Rightarrow> 'v option" where
  "hm_get key m = (let hash = hash_key key in chain_get hash (m ! hm_index hash m))"

text \<open>The search for the entry with number \<open>n\<close>: the count runs on from bucket to bucket.\<close>

primrec chain_nth :: "nat \<Rightarrow> 'v hm_entry list \<Rightarrow> nat \<Rightarrow> 'v option \<times> nat" where
  "chain_nth n [] count = (None, count)"
| "chain_nth n (e # es) count =
     (if key_hash e \<noteq> 0 then
        if count = n then (Some (hm_value e), count) else chain_nth n es (count + 1)
      else chain_nth n es count)"

primrec buckets_nth :: "nat \<Rightarrow> 'v hashmap \<Rightarrow> nat \<Rightarrow> 'v option" where
  "buckets_nth n [] count = None"
| "buckets_nth n (b # bs) count =
     (case chain_nth n b count of (Some v, _) \<Rightarrow> Some v | (None, count) \<Rightarrow> buckets_nth n bs count)"

definition hm_get_nth :: "nat \<Rightarrow> 'v hashmap \<Rightarrow> 'v option" where
  "hm_get_nth n m = buckets_nth n m 0"

section \<open>The contract\<close>

text \<open>
  A map that keeps the first value inserted under a key; \<open>same\<close> tells which keys it cannot
  tell apart.
\<close>

locale first_wins_map =
  fixes ins :: "'k \<Rightarrow> 'v \<Rightarrow> 'm \<Rightarrow> 'm"
    and look :: "'k \<Rightarrow> 'm \<Rightarrow> 'v option"
    and same :: "'k \<Rightarrow> 'k \<Rightarrow> bool"
    and ok :: "'m \<Rightarrow> bool"
  assumes ins_ok: "ok m \<Longrightarrow> ok (ins k v m)"
    and look_ins: "ok m \<Longrightarrow> look k' (ins k v m) =
      (case look k' m of Some w \<Rightarrow> Some w | None \<Rightarrow> if same k k' then Some v else None)"
begin

lemma look_present: "ok m \<Longrightarrow> look k' m = Some w \<Longrightarrow> look k' (ins k v m) = Some w"
  by (simp add: look_ins)

lemma look_other: "ok m \<Longrightarrow> \<not> same k k' \<Longrightarrow> look k' (ins k v m) = look k' m"
  by (auto simp: look_ins split: option.splits)

lemma look_many:
  "ok m \<Longrightarrow> ok (fold (\<lambda>(k, v). ins k v) kvs m) \<and> look k' (fold (\<lambda>(k, v). ins k v) kvs m) =
    (case look k' m of Some w \<Rightarrow> Some w
     | None \<Rightarrow> map_option snd (find (\<lambda>(k, v). same k k') kvs))"
proof (induction kvs arbitrary: m)
  case (Cons kv kvs)
  obtain k v where kv: "kv = (k, v)" by fastforce
  show ?case
    using Cons.IH [OF ins_ok [OF Cons.prems], of k v] look_ins [OF Cons.prems, of k' k v] kv
    by (auto split: option.splits)
qed (auto split: option.splits)

end

section \<open>The hash map meets the contract\<close>

definition hm_ok :: "'v hashmap \<Rightarrow> bool" where
  "hm_ok m \<longleftrightarrow> m \<noteq> []"

lemma chain_get_insert:
  "chain_get h (chain_insert (key_hash new) new es) =
    (case chain_get h es of Some w \<Rightarrow> Some w
     | None \<Rightarrow> if key_hash new = h then Some (hm_value new) else None)"
  by (induction "key_hash new" new es rule: chain_insert.induct) (auto split: option.splits)

lemma hm_index_less: "hm_ok m \<Longrightarrow> hm_index h m < length m"
  by (simp add: hm_ok_def hm_index_def)

lemma hm_get_insert:
  assumes "hm_ok m"
  shows "hm_get k' (hm_insert k v m) =
    (case hm_get k' m of Some w \<Rightarrow> Some w
     | None \<Rightarrow> if hash_key k = hash_key k' then Some v else None)"
proof (cases "hm_index (hash_key k) m = hm_index (hash_key k') m")
  case True
  have "chain_get h (chain_insert (hash_key k) \<lparr>key_hash = hash_key k, hm_value = v\<rparr> es) =
    (case chain_get h es of Some w \<Rightarrow> Some w | None \<Rightarrow> if hash_key k = h then Some v else None)" for h es
    using chain_get_insert [of h "\<lparr>key_hash = hash_key k, hm_value = v\<rparr>" es]
    by (cases "chain_get h es") simp_all
  with assms True show ?thesis
    by (simp add: hm_get_def hm_insert_def Let_def hm_index_def hm_ok_def)
next
  case False
  then have "hash_key k \<noteq> hash_key k'" by auto
  with False show ?thesis
    by (auto simp: hm_get_def hm_insert_def Let_def hm_index_def split: option.splits)
qed

lemma hm_insert_ok: "hm_ok m \<Longrightarrow> hm_ok (hm_insert k v m)"
  by (simp add: hm_ok_def hm_insert_def Let_def)

interpretation hm: first_wins_map hm_insert hm_get "\<lambda>k k'. hash_key k = hash_key k'" hm_ok
  by unfold_locales (simp_all add: hm_insert_ok hm_get_insert)

lemma hm_new_ok: "0 < n \<Longrightarrow> hm_ok (hm_new stale n)"
  by (simp add: hm_ok_def hm_new_def)

lemma hm_get_new:
  "0 < n \<Longrightarrow> hm_get k (hm_new stale n) = chain_get (hash_key k) (stale (unat (hash_key k) mod n))"
  by (simp add: hm_get_def hm_new_def hm_index_def Let_def)

text \<open>A map whose buckets start out as null pointers.\<close>

abbreviation hm_empty :: "nat \<Rightarrow> 'v hashmap" where
  "hm_empty \<equiv> hm_new (\<lambda>_. [])"

lemma hm_get_empty: "0 < n \<Longrightarrow> hm_get k (hm_empty n) = None"
  by (simp add: hm_get_new)

text \<open>The entries the enumeration visits, in its order.\<close>

definition hm_listed :: "'v hashmap \<Rightarrow> 'v list" where
  "hm_listed m = map hm_value (filter (\<lambda>e. key_hash e \<noteq> 0) (concat m))"

lemma chain_nth_spec:
  "c \<le> n \<Longrightarrow> chain_nth n es c =
    (let vs = map hm_value (filter (\<lambda>e. key_hash e \<noteq> 0) es)
     in if n - c < length vs then (Some (vs ! (n - c)), n) else (None, c + length vs))"
proof (induction es arbitrary: c)
  case (Cons e es)
  show ?case
  proof (cases "key_hash e \<noteq> 0 \<and> c \<noteq> n")
    case True
    then have "n - c = Suc (n - Suc c)" using Cons.prems by arith
    with True Cons show ?thesis by (auto simp: Let_def)
  next
    case False
    with Cons show ?thesis by (auto simp: Let_def)
  qed
qed (simp add: Let_def)

lemma buckets_nth_spec:
  "c \<le> n \<Longrightarrow> buckets_nth n m c =
    (if n - c < length (hm_listed m) then Some (hm_listed m ! (n - c)) else None)"
proof (induction m arbitrary: c)
  case (Cons b bs)
  let ?vs = "map hm_value (filter (\<lambda>e. key_hash e \<noteq> 0) b)"
  have split: "hm_listed (b # bs) = ?vs @ hm_listed bs" by (simp add: hm_listed_def)
  show ?case
  proof (cases "n - c < length ?vs")
    case True
    with Cons.prems show ?thesis by (simp add: chain_nth_spec Let_def split nth_append)
  next
    case False
    then have "c + length ?vs \<le> n" using Cons.prems by simp
    from Cons.IH [OF this] False Cons.prems show ?thesis
      by (auto simp: chain_nth_spec Let_def split nth_append)
  qed
qed (simp add: hm_listed_def)

section \<open>Properties\<close>

text \<open>
  C31: After any inserts into a new map, looking a key up returns the value inserted first
  under a key with the same 32-bit hash, and nothing if there is none; but an entry with this
  hash that the uninitialised bucket of the key leads to comes before all of them.
\<close>

theorem hashmap_first_wins:
  assumes "0 < capacity"
  shows "hm_get key (fold (\<lambda>(k, v). hm_insert k v) kvs (hm_new stale capacity)) =
    (case chain_get (hash_key key) (stale (unat (hash_key key) mod capacity)) of
       Some w \<Rightarrow> Some w
     | None \<Rightarrow> map_option snd (find (\<lambda>(k, v). hash_key k = hash_key key) kvs))"
  using hm.look_many [OF hm_new_ok [OF assms], of kvs stale key] by (simp add: hm_get_new [OF assms])

theorem hashmap_first_wins_witness:
  "hm_get [0x61] (fold (\<lambda>(k, v). hm_insert k v) [([0x62], 1), ([0x61], 2), ([0x61], 3)]
     (hm_new (\<lambda>_. [\<lparr>key_hash = hash_key [0x62], hm_value = 4\<rparr>]) 256)) = Some (2 :: nat)"
proof -
  have "hash_key [0x62] \<noteq> hash_key [0x61]" by (simp add: hash_key_def hash_step_def)
  with hashmap_first_wins [of 256 "[0x61]" "[([0x62], 1), ([0x61], 2), ([0x61], 3 :: nat)]"
      "\<lambda>_. [\<lparr>key_hash = hash_key [0x62], hm_value = 4\<rparr>]"]
  show ?thesis by simp
qed

text \<open>
  C32: Asking for the entries by number, as reading a directory does, gives every entry with
  a non-zero hash exactly once, bucket by bucket, and nothing from their number on.
\<close>

theorem hashmap_enumeration:
  "hm_get_nth n m = (if n < length (hm_listed m) then Some (hm_listed m ! n) else None)"
  by (simp add: hm_get_nth_def buckets_nth_spec)

text \<open>
  Inserting a key that is the last entry of its bucket, here into a map of empty buckets, adds a second entry under the
  same hash: lookups do not see it, but the enumeration lists both.
\<close>

lemma hashmap_duplicate_listed:
  assumes "0 < capacity" and "hash_key key \<noteq> 0"
  shows "let m = hm_insert key v (hm_insert key w (hm_empty capacity))
    in hm_get key m = Some w \<and> hm_get_nth 0 m = Some w \<and> hm_get_nth 1 m = Some v"
proof -
  let ?i = "unat (hash_key key) mod capacity"
  let ?e = "\<lambda>v. \<lparr>key_hash = hash_key key, hm_value = v\<rparr>"
  let ?m = "hm_insert key v (hm_insert key w (hm_empty capacity))"
  have m: "?m = (replicate capacity [])[?i := [?e w, ?e v]]"
    using assms(1) by (simp add: hm_insert_def Let_def hm_index_def hm_new_def map_replicate_const)
  have "concat ((replicate k [])[i := xs]) = xs" if "i < k" for k i and xs :: "'a hm_entry list"
    using that by (induction k arbitrary: i) (auto split: nat.splits)
  then have "hm_listed ?m = [w, v]" using assms unfolding m by (simp add: hm_listed_def)
  then have "hm_get_nth 0 ?m = Some w" "hm_get_nth 1 ?m = Some v"
    by (simp_all add: hm_get_nth_def buckets_nth_spec)
  moreover have "hm_get key ?m = Some w"
    using assms(1) by (simp add: hm_get_insert hm_insert_ok hm_new_ok hm_get_empty)
  ultimately show ?thesis by (simp add: Let_def)
qed

lemma hashmap_duplicate_listed_witness:
  "let m = hm_insert [0x61] 2 (hm_insert [0x61] (1 :: nat) (hm_empty 256))
    in hm_get [0x61] m = Some 1 \<and> hm_get_nth 0 m = Some 1 \<and> hm_get_nth 1 m = Some 2"
  by (rule hashmap_duplicate_listed) (simp_all add: hash_key_def hash_step_def)

end
