(* ===== verification/Slab_Heap.thy ===== *)
theory Slab_Heap
  imports Pmm
begin

text \<open>
  The kernel heap (\<open>src/kernel/memory/heap.cpp\<close>, \<open>heap.hpp\<close>): slabs of one page for the
  sizes 8 to 512, each with a free list threaded through its free blocks, and whole pages
  for larger sizes. Headers and free lists live in the byte memory, at the offsets the
  structures have.
\<close>

section \<open>Layout\<close>

record heap = pmm +
  slab_lock :: spinlock
  slab_8b :: u64
  slab_16b :: u64
  slab_32b :: u64
  slab_64b :: u64
  slab_128b :: u64
  slab_256b :: u64
  slab_512b :: u64

text \<open>\<open>SlabHeader\<close>: the size, the first free block, the next slab, eight bytes each.\<close>

definition HEADER_SIZE :: u64 where
  "HEADER_SIZE = 24"

definition header_slab_size :: "u64 \<Rightarrow> u64" where
  "header_slab_size h = h"

definition header_free_block :: "u64 \<Rightarrow> u64" where
  "header_free_block h = h + 8"

definition header_next :: "u64 \<Rightarrow> u64" where
  "header_next h = h + 16"

definition MAX_BLOCKS :: "u64 \<Rightarrow> u64" where
  "MAX_BLOCKS slab_size = (PAGE_SIZE - HEADER_SIZE) div slab_size"

definition slab_padding :: "u64 \<Rightarrow> u64" where
  "slab_padding slab_size = (if slab_size > HEADER_SIZE then slab_size - HEADER_SIZE else 0)"

definition slab_block :: "u64 \<Rightarrow> u64 \<Rightarrow> u64 \<Rightarrow> u64" where
  "slab_block slab_size slab i = slab + (HEADER_SIZE + slab_padding slab_size) + i * slab_size"

section \<open>Operations\<close>

function link_blocks :: "u64 \<Rightarrow> u64 \<Rightarrow> u64 \<Rightarrow> memory \<Rightarrow> u64 \<times> memory" where
  "link_blocks slab_size slab i m =
     (if i < MAX_BLOCKS slab_size - 1 then
        link_blocks slab_size slab (i + 1)
          (write64 (slab_block slab_size slab i) (slab_block slab_size slab (i + 1)) m)
      else (i, m))"
  by pat_completeness auto
termination
  by (relation "measure (\<lambda>(sz, slab, i, m). unat (MAX_BLOCKS sz - 1) - unat i)")
     (auto simp: unat_inc word_less_nat_alt)

declare link_blocks.simps [simp del]

definition format_slab :: "u64 \<Rightarrow> u64 \<Rightarrow> memory \<Rightarrow> memory" where
  "format_slab slab_size slab m =
     (let m = write64 (header_slab_size slab) slab_size m;
          m = write64 (header_free_block slab) (slab_block slab_size slab 0) m;
          m = write64 (header_next slab) 0 m;
          (i, m) = link_blocks slab_size slab 0 m
      in write64 (slab_block slab_size slab i) 0 m)"

definition new_slab :: "u64 \<Rightarrow> 'a heap_scheme \<Rightarrow> (u64 \<times> 'a heap_scheme) option" where
  "new_slab slab_size s =
     do {
       (page, s) \<leftarrow> pmm_calloc 1 s;
       let slab = PHYS_TO_VIRT s page;
       Some (slab, s\<lparr>mem := format_slab slab_size slab (mem s)\<rparr>) }"

partial_function (option) slab_alloc ::
  "u64 \<Rightarrow> u64 \<Rightarrow> 'a heap_scheme \<Rightarrow> (u64 \<times> 'a heap_scheme) option" where
  "slab_alloc slab_size this s =
     do {
       s \<leftarrow> acquire slab_lock slab_lock_update s;
       if read64 (mem s) (header_free_block this) = 0 then do {
         s \<leftarrow> (if read64 (mem s) (header_next this) = 0 then do {
                (next, s) \<leftarrow> new_slab slab_size s;
                Some (s\<lparr>mem := write64 (header_next this) next (mem s)\<rparr>) }
              else Some s);
         slab_alloc slab_size (read64 (mem s) (header_next this))
           (release slab_lock slab_lock_update s) }
       else
         Some (read64 (mem s) (header_free_block this),
               release slab_lock slab_lock_update
                 (s\<lparr>mem := write64 (header_free_block this)
                    (read64 (mem s) (read64 (mem s) (header_free_block this))) (mem s)\<rparr>)) }"

declare slab_alloc.simps [code]

definition slab_free :: "u64 \<Rightarrow> u64 \<Rightarrow> 'a heap_scheme \<Rightarrow> 'a heap_scheme option" where
  "slab_free this addr s =
     do {
       s \<leftarrow> acquire slab_lock slab_lock_update s;
       let s = s\<lparr>mem := write64 addr (read64 (mem s) (header_free_block this)) (mem s)\<rparr>;
       let s = s\<lparr>mem := write64 (header_free_block this) addr (mem s)\<rparr>;
       Some (release slab_lock slab_lock_update s) }"

definition heap_init :: "'a heap_scheme \<Rightarrow> 'a heap_scheme option" where
  "heap_init s =
     do {
       (p, s) \<leftarrow> new_slab 8 s; let s = s\<lparr>slab_8b := p\<rparr>;
       (p, s) \<leftarrow> new_slab 16 s; let s = s\<lparr>slab_16b := p\<rparr>;
       (p, s) \<leftarrow> new_slab 32 s; let s = s\<lparr>slab_32b := p\<rparr>;
       (p, s) \<leftarrow> new_slab 64 s; let s = s\<lparr>slab_64b := p\<rparr>;
       (p, s) \<leftarrow> new_slab 128 s; let s = s\<lparr>slab_128b := p\<rparr>;
       (p, s) \<leftarrow> new_slab 256 s; let s = s\<lparr>slab_256b := p\<rparr>;
       (p, s) \<leftarrow> new_slab 512 s; Some (s\<lparr>slab_512b := p\<rparr>) }"

definition kmalloc :: "u64 \<Rightarrow> 'a heap_scheme \<Rightarrow> (u64 \<times> 'a heap_scheme) option" where
  "kmalloc sz s =
     (if sz \<le> 8 then slab_alloc 8 (slab_8b s) s
      else if sz \<le> 16 then slab_alloc 16 (slab_16b s) s
      else if sz \<le> 32 then slab_alloc 32 (slab_32b s) s
      else if sz \<le> 64 then slab_alloc 64 (slab_64b s) s
      else if sz \<le> 128 then slab_alloc 128 (slab_128b s) s
      else if sz \<le> 256 then slab_alloc 256 (slab_256b s) s
      else if sz \<le> 512 then slab_alloc 512 (slab_512b s) s
      else do {
        let pages = ALIGN_UP sz PAGE_SIZE div PAGE_SIZE + 1;
        (page, s) \<leftarrow> pmm_alloc pages s;
        let addr = PHYS_TO_VIRT s page;
        let m = write64 (header_slab_size addr) pages (mem s);
        let m = write64 (header_free_block addr) 0 m;
        let m = write64 (header_next addr) 0 m;
        Some (addr + PAGE_SIZE, s\<lparr>mem := m\<rparr>) })"

definition kcalloc :: "u64 \<Rightarrow> 'a heap_scheme \<Rightarrow> (u64 \<times> 'a heap_scheme) option" where
  "kcalloc sz s =
     do { (addr, s) \<leftarrow> kmalloc sz s; Some (addr, s\<lparr>mem := snd (memset addr 0 sz (mem s))\<rparr>) }"

text \<open>For a size no slab has, the source only prints a message.\<close>

definition kfree :: "u64 \<Rightarrow> 'a heap_scheme \<Rightarrow> 'a heap_scheme option" where
  "kfree addr s =
     (if addr AND 0xfff = 0 then
        let header = addr - PAGE_SIZE
        in pmm_free (VIRT_TO_PHYS s header) (read64 (mem s) (header_slab_size header)) s
      else
        let page = ALIGN_DOWN addr PAGE_SIZE
        in if read64 (mem s) (header_slab_size page) \<in> {8, 16, 32, 64, 128, 256, 512}
           then slab_free page addr s
           else Some s)"

text \<open>\<open>strdup\<close> of \<open>libc/string.cpp\<close>, whose copy is a heap block.\<close>

definition strdup :: "u64 \<Rightarrow> 'a heap_scheme \<Rightarrow> (u64 \<times> 'a heap_scheme) option" where
  "strdup str s =
     do {
       len \<leftarrow> strlen (mem s) str;
       (new_str, s) \<leftarrow> kmalloc (len + 1) s;
       let m = snd (memcpy new_str str len (mem s));
       Some (new_str, s\<lparr>mem := store8 (new_str + len) 0 m\<rparr>) }"

interpretation slab_lk: lock_field slab_lock slab_lock_update
  by unfold_locales (auto simp: comp_def)

section \<open>Offsets in a page\<close>

definition slab_sizes :: "nat set" where
  "slab_sizes = {8, 16, 32, 64, 128, 256, 512}"

definition blocks_at :: "nat \<Rightarrow> nat" where
  "blocks_at n = max n 24"

definition block_count :: "nat \<Rightarrow> nat" where
  "block_count n = 4072 div n"

definition block :: "nat \<Rightarrow> u64 \<Rightarrow> nat \<Rightarrow> u64" where
  "block n slab i = slab + of_nat (blocks_at n + i * n)"

lemma slab_sizes_cases:
  assumes "n \<in> slab_sizes"
  obtains "n = 8" | "n = 16" | "n = 32" | "n = 64" | "n = 128" | "n = 256" | "n = 512"
  using assms by (auto simp: slab_sizes_def)

lemma max_blocks:
  assumes "n \<in> slab_sizes"
  shows "unat (MAX_BLOCKS (of_nat n)) = block_count n"
  using assms
  by (cases rule: slab_sizes_cases)
     (simp_all add: MAX_BLOCKS_def HEADER_SIZE_def PAGE_SIZE_def block_count_def)

lemma slab_layout:
  assumes "n \<in> slab_sizes"
  shows "blocks_at n + block_count n * n \<le> 4096" and "8 \<le> n" and "1 < block_count n"
    and "24 \<le> blocks_at n" and "block_count n * n \<le> 4072" and "block_count n < 512"
  using assms by (cases rule: slab_sizes_cases; simp add: block_count_def blocks_at_def)+

lemma slab_block_eq:
  assumes "n \<in> slab_sizes"
  shows "slab_block (of_nat n) slab (of_nat i) = block n slab i"
  using assms
  by (cases rule: slab_sizes_cases)
     (simp_all add: slab_block_def slab_padding_def HEADER_SIZE_def block_def blocks_at_def)

text \<open>The cells of a slab: the header's three and the blocks.\<close>

lemma header_offsets:
  "header_slab_size v = v + of_nat 0" "header_free_block v = v + of_nat 8" "header_next v = v + of_nat 16"
  by (simp_all add: header_slab_size_def header_free_block_def header_next_def)

lemma block_offset:
  assumes "n \<in> slab_sizes" and "i < block_count n"
  shows "blocks_at n + i * n + n \<le> 4096"
proof -
  have "Suc i * n \<le> block_count n * n" using assms(2) by (intro mult_le_mono1) simp
  then show ?thesis using slab_layout(1) [OF assms(1)] by simp
qed

lemma header_block_apart:
  assumes "n \<in> slab_sizes" and "i < block_count n" and "h \<le> 16"
  shows "region (v + of_nat h) 8 \<inter> region (block n v i) (of_nat n) = {}"
proof -
  have "h + 8 \<le> blocks_at n + i * n" using slab_layout(4) [OF assms(1)] assms(3) by simp
  moreover have "blocks_at n + i * n + n \<le> 2 ^ 64" using block_offset [OF assms(1,2)] by simp
  ultimately show ?thesis using region_apart [of h 8 "blocks_at n + i * n" n v] by (simp add: block_def)
qed

lemma blocks_apart:
  assumes "n \<in> slab_sizes" and "i < block_count n" and "j < block_count n" and "i \<noteq> j"
  shows "region (block n v i) (of_nat n) \<inter> region (block n v j) (of_nat n) = {}"
proof -
  have one: "region (block n v i) (of_nat n) \<inter> region (block n v j) (of_nat n) = {}"
    if "i < j" "j < block_count n" for i j
  proof -
    have "Suc i * n \<le> j * n" using that(1) by (intro mult_le_mono1) simp
    then have "blocks_at n + i * n + n \<le> blocks_at n + j * n" by simp
    moreover have "blocks_at n + j * n + n \<le> 2 ^ 64" using block_offset [OF assms(1) that(2)] by simp
    ultimately show ?thesis using region_apart unfolding block_def by blast
  qed
  show ?thesis using one [of i j] one [of j i] assms(2-4) by (metis Int_commute linorder_neqE_nat)
qed

lemma block_cell:
  assumes "n \<in> slab_sizes"
  shows "region (block n v i) 8 \<subseteq> region (block n v i) (of_nat n)"
proof -
  have "(8 :: u64) \<le> of_nat n" using assms by (cases rule: slab_sizes_cases) simp_all
  then show ?thesis by (auto simp: in_region_iff)
qed

lemma block_cells_apart:
  assumes "n \<in> slab_sizes" and "i < block_count n" and "j < block_count n" and "i \<noteq> j"
  shows "region (block n v i) 8 \<inter> region (block n v j) 8 = {}"
  using blocks_apart [OF assms] block_cell [OF assms(1)] by blast

lemma header_cell_apart:
  assumes "n \<in> slab_sizes" and "i < block_count n" and "h \<le> 16"
  shows "region (v + of_nat h) 8 \<inter> region (block n v i) 8 = {}"
    and "region (block n v i) 8 \<inter> region (v + of_nat h) 8 = {}"
  using header_block_apart [OF assms] block_cell [OF assms(1)] by blast+

lemma header_cells_apart:
  "region (v + of_nat 0) 8 \<inter> region (v + of_nat 8) 8 = {}"
  "region (v + of_nat 0) 8 \<inter> region (v + of_nat 16) 8 = {}"
  "region (v + of_nat 8) 8 \<inter> region (v + of_nat 16) 8 = {}"
  "region (v + of_nat 8) 8 \<inter> region (v + of_nat 0) 8 = {}"
  "region (v + of_nat 16) 8 \<inter> region (v + of_nat 0) 8 = {}"
  "region (v + of_nat 16) 8 \<inter> region (v + of_nat 8) 8 = {}"
  using region_apart [of 0 8 8 8 v] region_apart [of 0 8 16 8 v] region_apart [of 8 8 16 8 v]
  by (simp_all add: Int_commute)

text \<open>Alignment is a matter of the low twelve bits.\<close>

lemma page_aligned_take_bit: "page_aligned a \<longleftrightarrow> take_bit 12 a = 0"
  by (simp add: page_aligned_def PAGE_SIZE_def take_bit_eq_mod)

lemma page_aligned_low_bits: "page_aligned a \<longleftrightarrow> a AND 0xfff = 0"
  by (simp add: page_aligned_take_bit take_bit_eq_mask mask_eq_exp_minus_1)

lemma page_aligned_add: "page_aligned a \<Longrightarrow> page_aligned b \<Longrightarrow> page_aligned (a + b)"
  by (simp add: page_aligned_iff unat_word_ariths(1) dvd_mod_iff)

lemma page_aligned_PAGE_SIZE: "page_aligned PAGE_SIZE"
  by (simp add: page_aligned_def)

text \<open>A block of an aligned slab lies in the slab's page, behind its start.\<close>

lemma unat_page_offset:
  assumes "page_aligned v" and "k < 4096"
  shows "unat (v + of_nat k) = unat v + k"
proof -
  obtain q where q: "unat v = 4096 * q" using assms(1) by (auto simp: page_aligned_iff)
  have "unat v < 2 ^ 64" by (rule unat_u64_less)
  then have "q < 2 ^ 52" using q by simp
  then have "unat v + k < 2 ^ LENGTH(64)" using assms(2) q by simp
  moreover have "unat (of_nat k :: u64) = k" using assms(2) by (intro unat_of_nat_u64) simp
  ultimately show ?thesis by (metis unat_add_lem)
qed

lemma unat_ALIGN_DOWN: "unat (ALIGN_DOWN a PAGE_SIZE) = 4096 * (unat a div 4096)"
proof -
  have "ALIGN_DOWN a PAGE_SIZE = a AND NOT (mask 12)"
    by (simp add: ALIGN_DOWN_def PAGE_SIZE_def mask_eq_exp_minus_1)
  also have "\<dots> = push_bit 12 (drop_bit 12 a)"
    by (rule bit_word_eqI) (auto simp: bit_and_iff bit_not_iff bit_mask_iff bit_push_bit_iff bit_drop_bit_eq)
  also have "\<dots> = 4096 * (a div 4096)" by (simp add: push_bit_eq_mult drop_bit_eq_div)
  finally have "unat (ALIGN_DOWN a PAGE_SIZE) = unat (4096 * (a div 4096))" by simp
  moreover have "unat (4096 :: u64) * unat (a div 4096) < 2 ^ LENGTH(64)"
    using unat_u64_less [of a] by (simp add: unat_div)
  ultimately show ?thesis by (simp add: unat_mult_lem [THEN iffD1] unat_div)
qed

lemma unat_low_bits: "unat (a AND 0xfff) = unat (a :: u64) mod 4096"
proof -
  have "a AND 0xfff = a mod 4096"
    using take_bit_eq_mask [of 12 a] take_bit_eq_mod [of 12 a] by (simp add: mask_eq_exp_minus_1)
  then show ?thesis by (simp add: unat_mod)
qed

lemma block_in_page:
  assumes "page_aligned v" and "n \<in> slab_sizes" and "i < block_count n"
  shows "ALIGN_DOWN (block n v i) PAGE_SIZE = v" and "block n v i AND 0xfff \<noteq> 0" and "block n v i \<noteq> 0"
proof -
  let ?k = "blocks_at n + i * n"
  have k: "0 < ?k" "?k < 4096"
    using block_offset [OF assms(2,3)] slab_layout(2,4) [OF assms(2)] by linarith+
  have b: "unat (block n v i) = unat v + ?k" unfolding block_def by (rule unat_page_offset [OF assms(1) k(2)])
  obtain q where q: "unat v = 4096 * q" using assms(1) by (auto simp: page_aligned_iff)
  have d: "(4096 * q + ?k) div 4096 = q" "(4096 * q + ?k) mod 4096 = ?k" using k(2) by simp_all
  show "ALIGN_DOWN (block n v i) PAGE_SIZE = v"
    by (rule word_unat_eq_iff [THEN iffD2]) (simp only: unat_ALIGN_DOWN b q d)
  have "unat (block n v i AND 0xfff) = ?k" by (simp only: unat_low_bits b q d)
  then show "block n v i AND 0xfff \<noteq> 0" using k(1) by auto
  show "block n v i \<noteq> 0" using b k(1) by auto
qed

section \<open>Free lists\<close>

primrec free_list :: "memory \<Rightarrow> u64 \<Rightarrow> u64 list \<Rightarrow> bool" where
  "free_list m p [] \<longleftrightarrow> p = 0"
| "free_list m p (b # bs) \<longleftrightarrow> p = b \<and> p \<noteq> 0 \<and> free_list m (read64 m p) bs"

lemma free_list_cong:
  "(\<And>b. b \<in> set bs \<Longrightarrow> read64 m b = read64 m' b) \<Longrightarrow> free_list m p bs = free_list m' p bs"
  by (induction bs arbitrary: p) auto

definition slab_blocks :: "nat \<Rightarrow> u64 \<Rightarrow> u64 list" where
  "slab_blocks n v = map (block n v) [0..<block_count n]"

text \<open>\<open>v\<close> is a slab of blocks of size \<open>n\<close> with free list \<open>bs\<close>.\<close>

definition slab_free_list :: "nat \<Rightarrow> u64 \<Rightarrow> memory \<Rightarrow> u64 list \<Rightarrow> bool" where
  "slab_free_list n v m bs \<longleftrightarrow> n \<in> slab_sizes \<and> page_aligned v \<and>
     read64 m (header_slab_size v) = of_nat n \<and> free_list m (read64 m (header_free_block v)) bs \<and>
     distinct bs \<and> set bs \<subseteq> set (slab_blocks n v)"

lemma slab_blocksE:
  assumes "b \<in> set (slab_blocks n v)"
  obtains i where "b = block n v i" and "i < block_count n"
  using assms by (auto simp: slab_blocks_def)

lemma slab_blocks_apart:
  assumes "n \<in> slab_sizes" and "b \<in> set (slab_blocks n v)" and "c \<in> set (slab_blocks n v)" and "b \<noteq> c"
  shows "region b (of_nat n) \<inter> region c (of_nat n) = {}"
  using assms blocks_apart [OF assms(1)] by (metis slab_blocksE)

lemma small_count: "n \<in> slab_sizes \<Longrightarrow> 0 < block_count n \<and> block_count n < 2 ^ 64"
  using slab_layout(3,6) [of n] by simp

lemma max_blocks_eq: "n \<in> slab_sizes \<Longrightarrow> MAX_BLOCKS (of_nat n) = of_nat (block_count n)"
  using max_blocks [of n] by (metis unat_of_nat_u64 small_count word_unat_eq_iff)

lemma index_less:
  assumes "n \<in> slab_sizes" and "i < block_count n - 1"
  shows "of_nat i < (of_nat (block_count n) - 1 :: u64)"
proof -
  have "of_nat (block_count n) - 1 = (of_nat (block_count n - 1) :: u64)"
    using small_count [OF assms(1)] by (simp add: of_nat_diff)
  moreover have "unat (of_nat i :: u64) = i" "unat (of_nat (block_count n - 1) :: u64) = block_count n - 1"
    using small_count [OF assms(1)] assms(2) by (intro unat_of_nat_u64; linarith)+
  ultimately show ?thesis using assms(2) by (simp only: word_less_nat_alt)
qed

lemma link_blocks_spec:
  assumes "n \<in> slab_sizes" and "i < block_count n" and "link_blocks (of_nat n) v (of_nat i) m = (j, m')"
  shows "j = of_nat (block_count n - 1) \<and>
    (\<forall>k. i \<le> k \<and> k < block_count n - 1 \<longrightarrow> read64 m' (block n v k) = block n v (Suc k)) \<and>
    (\<forall>a. (\<forall>k. i \<le> k \<and> k < block_count n - 1 \<longrightarrow> a \<notin> region (block n v k) 8) \<longrightarrow> m' a = m a)"
  using assms(2,3)
proof (induction "block_count n - 1 - i" arbitrary: i m)
  case 0
  have i: "i = block_count n - 1" using 0(1,2) by simp
  have "\<not> of_nat i < MAX_BLOCKS (of_nat n) - 1"
    using i small_count [OF assms(1)] by (simp add: max_blocks_eq [OF assms(1)] of_nat_diff)
  then have "(j, m') = (of_nat i, m)" using 0(3) by (subst (asm) link_blocks.simps) simp
  with i show ?case by auto
next
  case (Suc d)
  have i: "i < block_count n - 1" using Suc.hyps(2) by simp
  let ?m = "write64 (block n v i) (block n v (Suc i)) m"
  have "of_nat i < MAX_BLOCKS (of_nat n) - 1"
    using i small_count [OF assms(1)] index_less [OF assms(1), of i] by (simp add: max_blocks_eq [OF assms(1)])
  then have rec: "link_blocks (of_nat n) v (of_nat (Suc i)) ?m = (j, m')"
    using Suc.prems(2) slab_block_eq [OF assms(1), of v i] slab_block_eq [OF assms(1), of v "Suc i"]
    by (subst (asm) link_blocks.simps) (simp add: add.commute)
  have IH: "j = of_nat (block_count n - 1)"
    "\<And>k. Suc i \<le> k \<Longrightarrow> k < block_count n - 1 \<Longrightarrow> read64 m' (block n v k) = block n v (Suc k)"
    "\<And>a. (\<And>k. Suc i \<le> k \<Longrightarrow> k < block_count n - 1 \<Longrightarrow> a \<notin> region (block n v k) 8) \<Longrightarrow> m' a = ?m a"
    using Suc.hyps(1) [OF _ _ rec] Suc.hyps(2) i by auto
  have "read64 m' (block n v i) = read64 ?m (block n v i)"
  proof (rule read64_cong, rule IH(3))
    fix a k assume "a \<in> region (block n v i) 8" "Suc i \<le> k" "k < block_count n - 1"
    moreover from this have "i < block_count n" "k < block_count n" "i \<noteq> k" using i by linarith+
    ultimately show "a \<notin> region (block n v k) 8" using block_cells_apart [OF assms(1), of i k v] by blast
  qed
  then have "read64 m' (block n v k) = block n v (Suc k)" if "i \<le> k" "k < block_count n - 1" for k
    using that IH(2) [of k] by (cases "k = i") (simp_all add: mem_simps)
  moreover have "m' a = m a" if "\<And>k. i \<le> k \<Longrightarrow> k < block_count n - 1 \<Longrightarrow> a \<notin> region (block n v k) 8" for a
    using that [of i] i IH(3) [of a] that by (simp add: write64_outside)
  ultimately show ?case using IH(1) by blast
qed

lemma free_list_blocks:
  assumes "page_aligned v" and "n \<in> slab_sizes"
    and "\<And>k. k < block_count n - 1 \<Longrightarrow> read64 m (block n v k) = block n v (Suc k)"
    and "read64 m (block n v (block_count n - 1)) = 0" and "i < block_count n"
  shows "free_list m (block n v i) (map (block n v) [i..<block_count n])"
  using assms(5)
proof (induction "block_count n - 1 - i" arbitrary: i)
  case 0
  then have "[i..<block_count n] = [i]" "i = block_count n - 1" by (simp_all add: upt_rec)
  with 0 assms(4) block_in_page(3) [OF assms(1,2), of i] show ?case by simp
next
  case (Suc d)
  then have "[i..<block_count n] = i # [Suc i..<block_count n]" "Suc i < block_count n"
    by (simp_all add: upt_rec)
  with Suc assms(3) [of i] block_in_page(3) [OF assms(1,2), of i] show ?case by simp
qed

lemma header_le: "(8 :: nat) \<le> 16"
  by simp

lemma format_slab_spec:
  assumes "n \<in> slab_sizes" and "page_aligned v"
  shows "slab_free_list n v (format_slab (of_nat n) v m) (slab_blocks n v)"
    and "read64 (format_slab (of_nat n) v m) (header_next v) = 0"
    and "\<And>a. a \<notin> region v PAGE_SIZE \<Longrightarrow> format_slab (of_nat n) v m a = m a"
proof -
  let ?c = "block_count n"
  define m1 where "m1 = write64 (header_next v) 0 (write64 (header_free_block v) (block n v 0)
      (write64 (header_slab_size v) (of_nat n) m))"
  obtain j m2 where link: "link_blocks (of_nat n) v (of_nat 0) m1 = (j, m2)" by fastforce
  define m3 where "m3 = write64 (block n v (?c - 1)) 0 m2"
  have c: "?c - 1 < ?c" using small_count [OF assms(1)] by simp
  have spec: "j = of_nat (?c - 1)"
    "\<And>k. k < ?c - 1 \<Longrightarrow> read64 m2 (block n v k) = block n v (Suc k)"
    "\<And>a. (\<And>k. k < ?c - 1 \<Longrightarrow> a \<notin> region (block n v k) 8) \<Longrightarrow> m2 a = m1 a"
    using link_blocks_spec [OF assms(1) _ link] c by auto
  have "format_slab (of_nat n) v m = m3"
    using link spec(1) slab_block_eq [OF assms(1), of v 0] slab_block_eq [OF assms(1), of v "?c - 1"]
    by (simp add: format_slab_def m1_def m3_def)
  note fmt = this
  have frame: "m3 a = m1 a" if "\<And>k. k < ?c \<Longrightarrow> a \<notin> region (block n v k) 8" for a
    using that c spec(3) [of a] by (simp add: m3_def write64_outside)
  have header: "read64 m3 (v + of_nat h) = read64 m1 (v + of_nat h)" if "h \<le> 16" for h
  proof (rule read64_cong, rule frame)
    fix a k assume "a \<in> region (v + of_nat h) 8" "k < ?c"
    then show "a \<notin> region (block n v k) 8" using header_cell_apart(1) [OF assms(1) _ that, of k v] by blast
  qed
  have h1: "read64 m1 (v + of_nat 0) = of_nat n" "read64 m1 (v + of_nat 8) = block n v 0"
    "read64 m1 (v + of_nat 16) = 0"
    unfolding m1_def header_offsets
    by (simp_all only: read64_write64_same read64_write64_disjoint header_cells_apart)
  have "read64 m3 (block n v k) = block n v (Suc k)" if "k < ?c - 1" for k
    using that block_cells_apart [OF assms(1) c, of k v] spec(2) by (simp add: m3_def mem_simps)
  moreover have "read64 m3 (block n v (?c - 1)) = 0" by (simp add: m3_def mem_simps)
  ultimately have "free_list m3 (block n v 0) (slab_blocks n v)"
    using free_list_blocks [OF assms(2,1), of m3 0] c by (simp add: slab_blocks_def)
  moreover have "distinct (slab_blocks n v)"
  proof -
    have "inj_on (block n v) {0..<?c}"
    proof (rule inj_onI)
      fix x y assume xy: "x \<in> {0..<?c}" "y \<in> {0..<?c}" "block n v x = block n v y"
      have "block n v x \<in> region (block n v x) 8" by (simp add: in_region_iff)
      then show "x = y" using block_cells_apart [OF assms(1), of x y v] xy by auto
    qed
    then show ?thesis by (simp add: slab_blocks_def distinct_map)
  qed
  ultimately show "slab_free_list n v (format_slab (of_nat n) v m) (slab_blocks n v)"
    using assms header [of 0] header [of 8] h1 by (simp add: slab_free_list_def fmt header_offsets)
  show "read64 (format_slab (of_nat n) v m) (header_next v) = 0"
    using header [of 16] h1(3) by (simp only: fmt header_offsets)
  show "format_slab (of_nat n) v m a = m a" if "a \<notin> region v PAGE_SIZE" for a
  proof -
    have page: "PAGE_SIZE = of_nat 4096" by (simp add: PAGE_SIZE_def)
    have sub: "region (v + of_nat k) 8 \<subseteq> region v PAGE_SIZE" if "k + 8 \<le> 4096" for k
      using region_inside [of k 8 4096 v] that unfolding page by simp
    have "a \<notin> region (block n v k) 8" if "k < ?c" for k
      using sub [of "blocks_at n + k * n"] block_offset [OF assms(1) that] slab_layout(2) [OF assms(1)]
        \<open>a \<notin> region v PAGE_SIZE\<close> unfolding block_def by auto
    then have "m3 a = m1 a" by (rule frame)
    moreover have "a \<notin> region (v + of_nat h) 8" if "h \<le> 16" for h
      using sub [of h] that \<open>a \<notin> region v PAGE_SIZE\<close> by auto
    then have "a \<notin> region (v + of_nat 0) 8" "a \<notin> region (v + of_nat 8) 8" "a \<notin> region (v + of_nat 16) 8"
      by (metis zero_le, metis header_le, metis order_refl)
    then have "m1 a = m a" unfolding m1_def header_offsets by (metis write64_outside)
    ultimately show ?thesis by (simp add: fmt)
  qed
qed

section \<open>Allocating and freeing in one slab\<close>

text \<open>A heap whose locks are free, and the lock field a critical section leaves behind.\<close>

definition heap_idle :: "'a heap_scheme \<Rightarrow> bool" where
  "heap_idle s \<longleftrightarrow> \<not> locked (slab_lock s) \<and> \<not> locked (pmm_lock s)"

lemma slab_acquire:
  "\<not> locked (slab_lock s) \<Longrightarrow> acquire slab_lock slab_lock_update s =
     Some (s\<lparr>rflags := unset_bit 9 (rflags s),
       slab_lock := \<lparr>locked = True, restore_interrupts = interrupts_enabled s\<rparr>\<rparr>)"
  by (simp add: slab_lk.acquire_free disable_interrupts_def)

lemma slab_release:
  "release slab_lock slab_lock_update
     (s\<lparr>rflags := unset_bit 9 (rflags s), slab_lock := \<lparr>locked = True, restore_interrupts = interrupts_enabled s\<rparr>, mem := m\<rparr>) =
   s\<lparr>mem := m, slab_lock := freed_lock s\<rparr>"
proof -
  have "(s\<lparr>rflags := unset_bit 9 (rflags s), slab_lock := k, mem := m, rflags := rflags s\<rparr>) = s\<lparr>slab_lock := k, mem := m\<rparr>" for k
    by simp
  then show ?thesis
    by (subst slab_lk.release_after [where s = s]) (simp_all add: freed_lock_def)
qed

lemma slab_alloc_free_block:
  assumes "\<not> locked (slab_lock s)" and "read64 (mem s) (header_free_block v) \<noteq> 0"
  shows "slab_alloc n v s = Some (read64 (mem s) (header_free_block v),
    s\<lparr>mem := write64 (header_free_block v)
        (read64 (mem s) (read64 (mem s) (header_free_block v))) (mem s), slab_lock := freed_lock s\<rparr>)"
  using assms by (subst slab_alloc.simps) (simp add: slab_acquire slab_release)

lemma slab_free_eq:
  assumes "\<not> locked (slab_lock s)"
  shows "slab_free v addr s = Some (s\<lparr>mem := write64 (header_free_block v) addr
      (write64 addr (read64 (mem s) (header_free_block v)) (mem s)), slab_lock := freed_lock s\<rparr>)"
  using assms by (simp add: slab_free_def slab_acquire slab_release Let_def)

lemma slab_free_list_alloc:
  assumes "slab_free_list n v m (b # bs)"
  shows "slab_free_list n v (write64 (header_free_block v) (read64 m b) m) bs"
    and "read64 m (header_free_block v) = b" and "b \<noteq> 0"
proof -
  let ?m = "write64 (header_free_block v) (read64 m b) m"
  have n: "n \<in> slab_sizes" and sub: "set (b # bs) \<subseteq> set (slab_blocks n v)"
    and fl: "free_list m (read64 m (header_free_block v)) (b # bs)"
    using assms by (auto simp: slab_free_list_def)
  show "read64 m (header_free_block v) = b" "b \<noteq> 0" using fl by auto
  have "read64 ?m c = read64 m c" if c: "c \<in> set bs" for c
  proof -
    obtain i where "c = block n v i" "i < block_count n" by (rule slab_blocksE [of c n v]) (use sub c in auto)
    then show ?thesis using header_cell_apart(1) [OF n, of i 8 v] by (simp add: header_offsets mem_simps)
  qed
  then have "free_list ?m (read64 m b) bs"
    using fl free_list_cong [of bs ?m m "read64 m b"] by auto
  moreover have "read64 ?m (header_slab_size v) = read64 m (header_slab_size v)"
    unfolding header_offsets by (rule read64_write64_disjoint) (rule header_cells_apart)
  ultimately show "slab_free_list n v ?m bs"
    using assms by (auto simp: slab_free_list_def mem_simps)
qed

lemma slab_free_list_free:
  assumes "slab_free_list n v m bs" and "b \<in> set (slab_blocks n v)" and "b \<notin> set bs"
  shows "slab_free_list n v (write64 (header_free_block v) b
    (write64 b (read64 m (header_free_block v)) m)) (b # bs)"
proof -
  let ?m1 = "write64 b (read64 m (header_free_block v)) m"
  let ?m = "write64 (header_free_block v) b ?m1"
  have n: "n \<in> slab_sizes" and al: "page_aligned v" and sub: "set bs \<subseteq> set (slab_blocks n v)"
    and fl: "free_list m (read64 m (header_free_block v)) bs"
    using assms(1) by (auto simp: slab_free_list_def)
  obtain j where j: "b = block n v j" "j < block_count n" using assms(2) by (rule slab_blocksE)
  have other: "read64 ?m c = read64 m c" if c: "c \<in> set bs" for c
  proof -
    obtain i where i: "c = block n v i" "i < block_count n" by (rule slab_blocksE [of c n v]) (use sub c in auto)
    then have "region b 8 \<inter> region c 8 = {}"
      using block_cells_apart [OF n j(2) i(2)] assms(3) c j(1) by metis
    then show ?thesis
      using i header_cell_apart(1) [OF n i(2), of 8 v] by (simp add: header_offsets mem_simps)
  qed
  have "read64 ?m b = read64 m (header_free_block v)"
    using j header_cell_apart(1) [OF n j(2), of 8 v] by (simp add: header_offsets mem_simps)
  moreover have "b \<noteq> 0" using block_in_page(3) [OF al n j(2)] j(1) by simp
  moreover have "free_list ?m (read64 m (header_free_block v)) bs"
    using fl free_list_cong [of bs ?m m] other by auto
  moreover have "read64 ?m (header_slab_size v) = read64 m (header_slab_size v)"
    using j header_cell_apart(2) [OF n j(2), of 0 v] header_cells_apart(4) [of v]
    unfolding header_offsets by (simp only: read64_write64_disjoint zero_le)
  ultimately show ?thesis
    using assms by (simp add: slab_free_list_def mem_simps)
qed


section \<open>The contract of a pool of blocks\<close>

text \<open>
  What a client of a free list relies on: \<open>pool s bs\<close> says that the blocks \<open>bs\<close> are free in
  \<open>s\<close>; taking delivers the first of them, and giving a block back puts it in front.
\<close>

primrec take_blocks :: "('s \<Rightarrow> ('b \<times> 's) option) \<Rightarrow> nat \<Rightarrow> 's \<Rightarrow> ('b list \<times> 's) option" where
  "take_blocks f 0 s = Some ([], s)"
| "take_blocks f (Suc n) s = do { (b, s) \<leftarrow> f s; (bs, s) \<leftarrow> take_blocks f n s; Some (b # bs, s) }"

primrec give_blocks :: "('b \<Rightarrow> 's \<Rightarrow> 's option) \<Rightarrow> 'b list \<Rightarrow> 's \<Rightarrow> 's option" where
  "give_blocks g [] s = Some s"
| "give_blocks g (b # bs) s = do { s \<leftarrow> g b s; give_blocks g bs s }"

locale block_pool =
  fixes take_block :: "'s \<Rightarrow> ('b \<times> 's) option"
    and give :: "'b \<Rightarrow> 's \<Rightarrow> 's option"
    and pool :: "'s \<Rightarrow> 'b list \<Rightarrow> bool"
    and universe :: "'b set"
  assumes take_pool: "pool s (b # bs) \<Longrightarrow> \<exists>t. take_block s = Some (b, t) \<and> pool t bs"
    and give_pool: "pool s bs \<Longrightarrow> b \<in> universe \<Longrightarrow> b \<notin> set bs \<Longrightarrow>
      \<exists>t. give b s = Some t \<and> pool t (b # bs)"
    and pool_within: "pool s bs \<Longrightarrow> distinct bs \<and> set bs \<subseteq> universe"
begin

lemma take_many:
  "pool s (xs @ ys) \<Longrightarrow> \<exists>t. take_blocks take_block (length xs) s = Some (xs, t) \<and> pool t ys"
proof (induction xs arbitrary: s)
  case (Cons x xs)
  from take_pool [of s x "xs @ ys"] Cons.prems obtain t
    where t: "take_block s = Some (x, t)" "pool t (xs @ ys)" by auto
  with Cons.IH [OF t(2)] show ?case by auto
qed simp

lemma give_many:
  "pool s ys \<Longrightarrow> distinct (xs @ ys) \<Longrightarrow> set xs \<subseteq> universe \<Longrightarrow>
    \<exists>t. give_blocks give xs s = Some t \<and> pool t (rev xs @ ys)"
proof (induction xs arbitrary: s ys)
  case (Cons x xs)
  from give_pool [OF Cons.prems(1), of x] Cons.prems obtain t
    where t: "give x s = Some t" "pool t (x # ys)" by auto
  from Cons.IH [OF t(2)] Cons.prems t(1) show ?case by auto
qed simp

lemma take_give:
  assumes "pool s (xs @ ys)"
  shows "\<exists>t u. take_blocks take_block (length xs) s = Some (xs, t) \<and> give_blocks give (rev xs) t = Some u \<and>
    pool u (xs @ ys)"
proof -
  from take_many [OF assms] obtain t where t: "take_blocks take_block (length xs) s = Some (xs, t)" "pool t ys"
    by blast
  from pool_within [OF assms] have "distinct (rev xs @ ys)" "set (rev xs) \<subseteq> universe" by auto
  from give_many [OF t(2) this] t(1) show ?thesis by auto
qed

end

section \<open>A slab is a pool of blocks\<close>

definition slab_pool :: "nat \<Rightarrow> u64 \<Rightarrow> 'a heap_scheme \<Rightarrow> u64 list \<Rightarrow> bool" where
  "slab_pool n v s bs \<longleftrightarrow> slab_free_list n v (mem s) bs \<and> \<not> locked (slab_lock s)"

lemma slab_pool_alloc:
  assumes "slab_pool n v s (b # bs)"
  shows "slab_alloc k v s = Some (b, s\<lparr>mem := write64 (header_free_block v) (read64 (mem s) b) (mem s),
    slab_lock := freed_lock s\<rparr>)"
    and "slab_pool n v (s\<lparr>mem := write64 (header_free_block v) (read64 (mem s) b) (mem s),
    slab_lock := freed_lock s\<rparr>) bs"
  using assms slab_free_list_alloc [of n v "mem s" b bs] slab_alloc_free_block [of s v k]
  by (simp_all add: slab_pool_def freed_lock_def)

lemma slab_pool_free:
  assumes "slab_pool n v s bs" and "b \<in> set (slab_blocks n v)" and "b \<notin> set bs"
  shows "\<exists>t. slab_free v b s = Some t \<and> slab_pool n v t (b # bs)"
  using assms slab_free_list_free [of n v "mem s" bs b] slab_free_eq [of s v b]
  by (simp add: slab_pool_def freed_lock_def)

lemma kfree_block:
  assumes "slab_free_list n v (mem s) bs" and "b \<in> set (slab_blocks n v)"
  shows "kfree b s = slab_free v b s"
proof -
  have n: "n \<in> slab_sizes" and al: "page_aligned v" and sz: "read64 (mem s) (header_slab_size v) = of_nat n"
    using assms(1) by (auto simp: slab_free_list_def)
  obtain i where i: "b = block n v i" "i < block_count n" using assms(2) by (rule slab_blocksE)
  have "(of_nat n :: u64) \<in> {8, 16, 32, 64, 128, 256, 512}"
    using n by (cases rule: slab_sizes_cases) simp_all
  with block_in_page [OF al n i(2)] i(1) sz show ?thesis by (simp add: kfree_def Let_def)
qed

interpretation slab: block_pool "slab_alloc k v" kfree "slab_pool n v" "set (slab_blocks n v)" for k n v
proof
  show "\<exists>t. slab_alloc k v s = Some (b, t) \<and> slab_pool n v t bs" if "slab_pool n v s (b # bs)"
    for s :: "'a heap_scheme" and b bs
    using slab_pool_alloc [OF that] by blast
  show "\<exists>t. kfree b s = Some t \<and> slab_pool n v t (b # bs)"
    if "slab_pool n v s bs" "b \<in> set (slab_blocks n v)" "b \<notin> set bs" for s :: "'a heap_scheme" and bs b
    using slab_pool_free [OF that] kfree_block [of n v s bs b] that by (simp add: slab_pool_def)
  show "distinct bs \<and> set bs \<subseteq> set (slab_blocks n v)" if "slab_pool n v s bs"
    for s :: "'a heap_scheme" and bs
    using that by (simp add: slab_pool_def slab_free_list_def)
qed

section \<open>Runs of one slab\<close>

text \<open>
  The clients of a slab: they take blocks while there are free ones, free blocks they own,
  and write into blocks they own.
\<close>

inductive slab_run :: "nat \<Rightarrow> u64 \<Rightarrow> 'a heap_scheme \<Rightarrow> 'a heap_scheme \<Rightarrow> u64 set \<Rightarrow> bool"
  for n :: nat and v :: u64 and s0 :: "'a heap_scheme" where
  slab_start: "slab_run n v s0 s0 {}"
| slab_alloc_step: "slab_run n v s0 s owned \<Longrightarrow> read64 (mem s) (header_free_block v) \<noteq> 0 \<Longrightarrow>
    slab_alloc (of_nat n) v s = Some (b, t) \<Longrightarrow> slab_run n v s0 t (insert b owned)"
| slab_free_step: "slab_run n v s0 s owned \<Longrightarrow> b \<in> owned \<Longrightarrow> kfree b s = Some t \<Longrightarrow>
    slab_run n v s0 t (owned - {b})"
| slab_write_step: "slab_run n v s0 s owned \<Longrightarrow> b \<in> owned \<Longrightarrow> a \<in> region b (of_nat n) \<Longrightarrow>
    slab_run n v s0 (s\<lparr>mem := store8 a x (mem s)\<rparr>) owned"

definition slab_split :: "nat \<Rightarrow> u64 \<Rightarrow> 'a heap_scheme \<Rightarrow> u64 set \<Rightarrow> bool" where
  "slab_split n v s owned \<longleftrightarrow> (\<exists>bs. slab_pool n v s bs \<and> set bs \<inter> owned = {} \<and>
     set bs \<union> owned = set (slab_blocks n v))"

lemma slab_pool_nonempty:
  "slab_pool n v s bs \<Longrightarrow> read64 (mem s) (header_free_block v) \<noteq> 0 \<Longrightarrow> \<exists>b bs'. bs = b # bs'"
  by (cases bs) (auto simp: slab_pool_def slab_free_list_def)

lemma slab_pool_write:
  assumes "slab_pool n v s bs" and "b \<in> set (slab_blocks n v)" and "b \<notin> set bs" and "a \<in> region b (of_nat n)"
  shows "slab_pool n v (s\<lparr>mem := store8 a x (mem s)\<rparr>) bs"
proof -
  let ?m = "store8 a x (mem s)"
  have n: "n \<in> slab_sizes" and sub: "set bs \<subseteq> set (slab_blocks n v)"
    using assms(1) by (auto simp: slab_pool_def slab_free_list_def)
  obtain j where j: "b = block n v j" "j < block_count n" using assms(2) by (rule slab_blocksE)
  have header: "read64 ?m (v + of_nat h) = read64 (mem s) (v + of_nat h)" if "h \<le> 16" for h
  proof (rule read64_cong)
    fix c assume "c \<in> region (v + of_nat h) 8"
    then have "c \<noteq> a" using header_block_apart [OF n j(2) that, of v] assms(4) j(1) by blast
    then show "?m c = mem s c" by (simp add: store8_apply)
  qed
  have blocks: "read64 ?m c = read64 (mem s) c" if c: "c \<in> set bs" for c
  proof (rule read64_cong)
    fix d assume d: "d \<in> region c 8"
    obtain i where "c = block n v i" by (rule slab_blocksE [of c n v]) (use sub c in auto)
    then have "d \<in> region c (of_nat n)" using d block_cell [OF n] by blast
    moreover have "region c (of_nat n) \<inter> region b (of_nat n) = {}"
      using slab_blocks_apart [OF n, of c v b] sub c assms(2,3) by blast
    ultimately have "d \<noteq> a" using assms(4) by blast
    then show "?m d = mem s d" by (simp add: store8_apply)
  qed
  have "free_list ?m p bs = free_list (mem s) p bs" for p
    by (rule free_list_cong) (rule blocks)
  with assms(1) header [of 0] header [of 8] show ?thesis
    by (simp add: slab_pool_def slab_free_list_def header_offsets)
qed

lemma slab_run_split:
  assumes "slab_run n v s0 s owned" and "slab_pool n v s0 (slab_blocks n v)"
  shows "slab_split n v s owned"
  using assms(1)
proof induction
  case slab_start
  with assms(2) show ?case by (auto simp: slab_split_def)
next
  case (slab_alloc_step s owned b t)
  then obtain bs where bs: "slab_pool n v s bs" "set bs \<inter> owned = {}" "set bs \<union> owned = set (slab_blocks n v)"
    by (auto simp: slab_split_def)
  obtain c cs where c: "bs = c # cs" using slab_pool_nonempty [OF bs(1)] slab_alloc_step by blast
  have "b = c" "slab_pool n v t cs"
    using slab_pool_alloc(1) [of n v s c cs "of_nat n"] slab_pool_alloc(2) [of n v s c cs] bs(1)
      slab_alloc_step(3) by (auto simp: c)
  moreover have "distinct bs" using slab.pool_within [OF bs(1)] by blast
  ultimately show ?case using bs c by (auto simp: slab_split_def intro!: exI [of _ cs])
next
  case (slab_free_step s owned b t)
  then obtain bs where bs: "slab_pool n v s bs" "set bs \<inter> owned = {}" "set bs \<union> owned = set (slab_blocks n v)"
    by (auto simp: slab_split_def)
  have b: "b \<in> set (slab_blocks n v)" "b \<notin> set bs" using bs slab_free_step(2) by auto
  from slab.give_pool [OF bs(1) b] slab_free_step(3) have "slab_pool n v t (b # bs)" by auto
  with bs b slab_free_step(2) show ?case by (auto simp: slab_split_def intro!: exI [of _ "b # bs"])
next
  case (slab_write_step s owned b a x)
  then obtain bs where bs: "slab_pool n v s bs" "set bs \<inter> owned = {}" "set bs \<union> owned = set (slab_blocks n v)"
    by (auto simp: slab_split_def)
  then have "slab_pool n v (s\<lparr>mem := store8 a x (mem s)\<rparr>) bs"
    using slab_write_step by (intro slab_pool_write [where b = b]) auto
  with bs show ?case by (auto simp: slab_split_def)
qed

section \<open>Properties\<close>

text \<open>A heap whose slab of 512-byte blocks is freshly formatted, at address \<open>0x11000\<close>.\<close>

definition heap_sample :: heap where
  "heap_sample = \<lparr>mem = format_slab 512 0x11000 (\<lambda>a. if a = 0 then 1 else 0), rflags = 0x202, hhdm_offset = 0x10000,
     virtual_base = 0, physical_base = 0,
     pmm_lock = \<lparr>locked = False, restore_interrupts = False\<rparr>,
     pmm_bitmap = \<lparr>bm_data = 0, bm_size = 1\<rparr>, last_page_idx = 0,
     slab_lock = \<lparr>locked = False, restore_interrupts = False\<rparr>,
     slab_8b = 0, slab_16b = 0, slab_32b = 0, slab_64b = 0, slab_128b = 0, slab_256b = 0,
     slab_512b = 0x11000\<rparr>"

lemma heap_sample_pool: "slab_pool 512 0x11000 heap_sample (slab_blocks 512 0x11000)"
proof -
  have "512 \<in> slab_sizes" "page_aligned 0x11000"
    by (simp_all add: slab_sizes_def page_aligned_def PAGE_SIZE_def)
  from format_slab_spec(1) [OF this] show ?thesis
    by (simp add: slab_pool_def heap_sample_def)
qed

lemma slab_blocks_Cons: "0 < block_count n \<Longrightarrow> slab_blocks n v = block n v 0 # map (block n v) [1..<block_count n]"
  by (simp add: slab_blocks_def upt_rec)

text \<open>
  C2: However blocks of a slab are taken, freed and written to by their owners, the blocks
  in use and the free list stay a partition of the slab's blocks: no block is handed out
  twice, two blocks in use never overlap, and none reaches outside the slab's page or into
  its header.
\<close>

theorem slab_blocks_disjoint:
  assumes "slab_run n v s0 s owned" and "slab_pool n v s0 (slab_blocks n v)"
  shows "(\<forall>b \<in> owned. \<forall>c \<in> owned. b \<noteq> c \<longrightarrow> region b (of_nat n) \<inter> region c (of_nat n) = {}) \<and>
    (\<forall>b \<in> owned. region b (of_nat n) \<subseteq> region v PAGE_SIZE - region v HEADER_SIZE) \<and>
    (\<exists>bs. slab_pool n v s bs \<and> set bs \<inter> owned = {} \<and> set bs \<union> owned = set (slab_blocks n v))"
proof -
  have split: "slab_split n v s owned" using assms by (rule slab_run_split)
  then have owned: "owned \<subseteq> set (slab_blocks n v)" by (auto simp: slab_split_def)
  have n: "n \<in> slab_sizes" using assms(2) by (simp add: slab_pool_def slab_free_list_def)
  have inside: "region b (of_nat n) \<subseteq> region v PAGE_SIZE - region v HEADER_SIZE" if b: "b \<in> owned" for b
  proof -
    obtain i where i: "b = block n v i" "i < block_count n"
      by (rule slab_blocksE [of b n v]) (use owned b in auto)
    have sz: "PAGE_SIZE = of_nat 4096" "HEADER_SIZE = of_nat 24" by (simp_all add: PAGE_SIZE_def HEADER_SIZE_def)
    have "region b (of_nat n) \<subseteq> region v PAGE_SIZE"
      using region_inside [of "blocks_at n + i * n" n 4096 v] block_offset [OF n i(2)]
      unfolding i(1) block_def sz by simp
    moreover have "24 \<le> blocks_at n + i * n" using slab_layout(4) [OF n] by simp
    then have "region (v + of_nat 0) (of_nat 24) \<inter> region b (of_nat n) = {}"
      using region_apart [of 0 24 "blocks_at n + i * n" n v] block_offset [OF n i(2)]
      unfolding i(1) block_def by simp
    ultimately show ?thesis unfolding sz by auto
  qed
  moreover have "region b (of_nat n) \<inter> region c (of_nat n) = {}" if "b \<in> owned" "c \<in> owned" "b \<noteq> c" for b c
    using slab_blocks_apart [OF n] owned that by blast
  ultimately show ?thesis using split unfolding slab_split_def by blast
qed

theorem slab_blocks_disjoint_witness:
  "\<exists>s. slab_run 512 0x11000 heap_sample s {0x11200} \<and> region 0x11200 512 \<subseteq> region 0x11000 PAGE_SIZE"
proof -
  have cons: "slab_blocks 512 0x11000 = 0x11200 # map (block 512 0x11000) [1..<7]"
    by (subst slab_blocks_Cons) (simp_all add: block_count_def block_def blocks_at_def)
  note pool = heap_sample_pool [unfolded cons]
  obtain t where t: "slab_alloc (of_nat 512) 0x11000 heap_sample = Some (0x11200, t)"
    using slab_pool_alloc(1) [OF pool] by blast
  have "read64 (mem heap_sample) (header_free_block 0x11000) \<noteq> 0"
    using pool by (simp add: slab_pool_def slab_free_list_def)
  from slab_alloc_step [OF slab_start this t] have run: "slab_run 512 0x11000 heap_sample t {0x11200}" by simp
  from slab_blocks_disjoint [OF run heap_sample_pool] have "region 0x11200 512 \<subseteq> region 0x11000 PAGE_SIZE"
    by auto
  with run show ?thesis by blast
qed

text \<open>The slab \<open>kmalloc\<close> takes a block from: the least slab size that is large enough.\<close>

definition slab_class :: "u64 \<Rightarrow> nat" where
  "slab_class sz = (LEAST n. n \<in> slab_sizes \<and> unat sz \<le> n)"

definition class_slab :: "nat \<Rightarrow> 'a heap_scheme \<Rightarrow> u64" where
  "class_slab n s = (if n = 8 then slab_8b s else if n = 16 then slab_16b s else if n = 32 then slab_32b s
     else if n = 64 then slab_64b s else if n = 128 then slab_128b s else if n = 256 then slab_256b s
     else slab_512b s)"

lemma slab_class_eq:
  assumes "n \<in> slab_sizes" and "unat sz \<le> n" and "\<And>k. k \<in> slab_sizes \<Longrightarrow> k < n \<Longrightarrow> k < unat sz"
  shows "slab_class sz = n"
  unfolding slab_class_def
  by (rule Least_equality) (use assms in \<open>auto simp: not_less [symmetric]\<close>)

lemma kmalloc_small:
  assumes "sz \<le> 512"
  shows "kmalloc sz s = slab_alloc (of_nat (slab_class sz)) (class_slab (slab_class sz) s) s"
    and "unat sz \<le> slab_class sz"
proof -
  have "unat sz \<le> 512" using assms by (simp add: word_le_nat_alt)
  then consider "unat sz \<le> 8" | "8 < unat sz" "unat sz \<le> 16" | "16 < unat sz" "unat sz \<le> 32"
    | "32 < unat sz" "unat sz \<le> 64" | "64 < unat sz" "unat sz \<le> 128" | "128 < unat sz" "unat sz \<le> 256"
    | "256 < unat sz" "unat sz \<le> 512" by linarith
  note cases = this
  have le: "sz \<le> 8 \<longleftrightarrow> unat sz \<le> 8" "sz \<le> 16 \<longleftrightarrow> unat sz \<le> 16" "sz \<le> 32 \<longleftrightarrow> unat sz \<le> 32"
    "sz \<le> 64 \<longleftrightarrow> unat sz \<le> 64" "sz \<le> 128 \<longleftrightarrow> unat sz \<le> 128" "sz \<le> 256 \<longleftrightarrow> unat sz \<le> 256"
    "sz \<le> 512 \<longleftrightarrow> unat sz \<le> 512" by (simp_all add: word_le_nat_alt)
  have eq: "slab_class sz = n" if "n \<in> slab_sizes" "unat sz \<le> n" "n div 2 < unat sz \<or> n = 8" for n
    by (rule slab_class_eq) (use that in \<open>auto simp: slab_sizes_def\<close>)
  have cls: "unat sz \<le> 8 \<Longrightarrow> slab_class sz = 8"
    "8 < unat sz \<Longrightarrow> unat sz \<le> 16 \<Longrightarrow> slab_class sz = 16"
    "16 < unat sz \<Longrightarrow> unat sz \<le> 32 \<Longrightarrow> slab_class sz = 32"
    "32 < unat sz \<Longrightarrow> unat sz \<le> 64 \<Longrightarrow> slab_class sz = 64"
    "64 < unat sz \<Longrightarrow> unat sz \<le> 128 \<Longrightarrow> slab_class sz = 128"
    "128 < unat sz \<Longrightarrow> unat sz \<le> 256 \<Longrightarrow> slab_class sz = 256"
    "256 < unat sz \<Longrightarrow> unat sz \<le> 512 \<Longrightarrow> slab_class sz = 512"
    by (rule eq; simp add: slab_sizes_def)+
  show "kmalloc sz s = slab_alloc (of_nat (slab_class sz)) (class_slab (slab_class sz) s) s"
    using cases by cases (simp_all add: cls kmalloc_def le class_slab_def)
  show "unat sz \<le> slab_class sz"
    using cases by cases (simp_all add: cls)
qed

text \<open>
  C18: A request of at most 512 bytes whose slab has a free block returns the first one, of
  the least slab size that holds the request; freeing it finds the slab again from the
  address alone and restores the free list.
\<close>

theorem kmalloc_kfree_small:
  assumes "sz \<le> 512" and "slab_pool (slab_class sz) (class_slab (slab_class sz) s) s (b # bs)"
  shows "unat sz \<le> slab_class sz \<and> (\<exists>t u. kmalloc sz s = Some (b, t) \<and>
    slab_pool (slab_class sz) (class_slab (slab_class sz) s) t bs \<and> kfree b t = Some u \<and>
    slab_pool (slab_class sz) (class_slab (slab_class sz) s) u (b # bs))"
proof -
  let ?n = "slab_class sz" and ?v = "class_slab (slab_class sz) s"
  obtain t where t: "slab_alloc (of_nat ?n) ?v s = Some (b, t)" "slab_pool ?n ?v t bs"
    using slab.take_pool [OF assms(2)] by blast
  have "b \<in> set (slab_blocks ?n ?v)" "b \<notin> set bs" using slab.pool_within [OF assms(2)] by auto
  from slab.give_pool [OF t(2) this] obtain u where "kfree b t = Some u" "slab_pool ?n ?v u (b # bs)" by blast
  with t kmalloc_small(1) [OF assms(1), of s] kmalloc_small(2) [OF assms(1)] show ?thesis by metis
qed

theorem kmalloc_kfree_small_witness:
  "\<exists>t u. kmalloc 300 heap_sample = Some (0x11200, t) \<and> kfree 0x11200 t = Some u \<and>
    slab_pool 512 0x11000 u (slab_blocks 512 0x11000)"
proof -
  have cls: "slab_class 300 = 512" by (rule slab_class_eq) (auto simp: slab_sizes_def)
  have sl: "class_slab 512 heap_sample = 0x11000" by (simp add: class_slab_def heap_sample_def)
  have cons: "slab_blocks 512 0x11000 = 0x11200 # map (block 512 0x11000) [1..<7]"
    by (subst slab_blocks_Cons) (simp_all add: block_count_def block_def blocks_at_def)
  have "slab_pool (slab_class 300) (class_slab (slab_class 300) heap_sample) heap_sample
      (0x11200 # map (block 512 0x11000) [1..<7])"
    using heap_sample_pool unfolding cls sl cons .
  from kmalloc_kfree_small [OF _ this] show ?thesis unfolding cls sl cons by auto
qed

text \<open>What an allocation of pages leaves alone, and the number of pages a large request takes.\<close>

lemma pmm_alloc_shape:
  assumes "pmm_inv s" and "\<not> locked (pmm_lock s)" and "pages \<noteq> 0" and "pmm_alloc pages s = Some (r, t)"
  shows "\<exists>i m. t = s\<lparr>mem := m, last_page_idx := i, pmm_lock := freed_lock s\<rparr>"
proof -
  obtain r' t' where rt: "alloc_passes pages s = (r', t')" by fastforce
  have "0 < pages" using assms(3) by (simp add: word_gt_0)
  from alloc_passes_outcome [OF this assms(1) rt] have "\<exists>i m. t' = s\<lparr>mem := m, last_page_idx := i\<rparr>"
  proof (cases "r' = 0")
    case True
    with \<open>alloc_outcome _ _ _ _\<close> have "t' = s\<lparr>mem := mem s, last_page_idx := search_limit s\<rparr>"
      by (simp add: alloc_outcome_def)
    then show ?thesis by blast
  next
    case False
    with \<open>alloc_outcome _ _ _ _\<close> show ?thesis by (auto simp: alloc_outcome_def take_run_def)
  qed
  with pmm_alloc_eq [OF assms(2,3) rt] assms(4) show ?thesis by auto
qed

definition large_pages :: "u64 \<Rightarrow> u64" where
  "large_pages sz = ALIGN_UP sz PAGE_SIZE div PAGE_SIZE + 1"

lemma ALIGN_UP_pages:
  assumes "unat sz < 2 ^ 63"
  shows "unat (ALIGN_UP sz PAGE_SIZE div PAGE_SIZE) = (unat sz + 4095) div 4096"
proof -
  have "ALIGN_UP sz PAGE_SIZE = ALIGN_DOWN (sz + 4095) PAGE_SIZE"
    by (simp add: ALIGN_UP_def ALIGN_DOWN_def PAGE_SIZE_def add.commute)
  moreover have "unat (sz + 4095) = unat sz + 4095"
  proof -
    have "unat sz + unat (4095 :: u64) < 2 ^ LENGTH(64)" using assms by simp
    then show ?thesis by (subst unat_add_lem [THEN iffD1]) simp_all
  qed
  ultimately have "unat (ALIGN_UP sz PAGE_SIZE) = 4096 * ((unat sz + 4095) div 4096)"
    by (simp add: unat_ALIGN_DOWN)
  then show ?thesis by (simp add: unat_div)
qed

lemma large_pages_room:
  assumes "unat sz < 2 ^ 63"
  shows "unat (large_pages sz) = (unat sz + 4095) div 4096 + 1" and "large_pages sz \<noteq> 0"
    and "unat sz \<le> (unat (large_pages sz) - 1) * 4096"
proof -
  note q = ALIGN_UP_pages [OF assms]
  have "unat (ALIGN_UP sz PAGE_SIZE div PAGE_SIZE) + unat (1 :: u64) < 2 ^ LENGTH(64)"
    using assms unfolding q by simp
  then show p: "unat (large_pages sz) = (unat sz + 4095) div 4096 + 1"
    unfolding large_pages_def by (subst unat_add_lem [THEN iffD1]) (simp_all add: q)
  then show "large_pages sz \<noteq> 0" by auto
  show "unat sz \<le> (unat (large_pages sz) - 1) * 4096" unfolding p by simp
qed

definition write_header :: "u64 \<Rightarrow> u64 \<Rightarrow> memory \<Rightarrow> memory" where
  "write_header addr pages m = write64 (header_next addr) 0
     (write64 (header_free_block addr) 0 (write64 (header_slab_size addr) pages m))"

lemma kmalloc_large:
  assumes "512 < sz" and "pmm_alloc (large_pages sz) s = Some (page, t)"
  shows "kmalloc sz s = Some (PHYS_TO_VIRT t page + PAGE_SIZE,
    t\<lparr>mem := write_header (PHYS_TO_VIRT t page) (large_pages sz) (mem t)\<rparr>)"
proof -
  have "\<not> sz \<le> n" if "n \<le> 512" for n using assms(1) that by simp
  then have "\<not> sz \<le> 512" "\<not> sz \<le> 256" "\<not> sz \<le> 128" "\<not> sz \<le> 64" "\<not> sz \<le> 32" "\<not> sz \<le> 16" "\<not> sz \<le> 8"
    by simp_all
  with assms(2) show ?thesis by (simp add: kmalloc_def Let_def write_header_def large_pages_def)
qed

lemma write_header_read: "read64 (write_header a pages m) (header_slab_size a) = pages"
  using header_cells_apart [of a] unfolding write_header_def header_offsets
  by (simp only: read64_write64_disjoint read64_write64_same)

lemma write_header_outside: "b \<notin> region a 24 \<Longrightarrow> write_header a pages m b = m b"
proof -
  assume b: "b \<notin> region a 24"
  have "region (a + of_nat h) (of_nat 8) \<subseteq> region a (of_nat 24)" if "h \<le> 16" for h
    by (rule region_inside) (use that in simp_all)
  then have "b \<notin> region (a + of_nat h) 8" if "h \<le> 16" for h using b that by auto
  then have "b \<notin> region (a + of_nat 0) 8" "b \<notin> region (a + of_nat 8) 8" "b \<notin> region (a + of_nat 16) 8"
    by (metis zero_le, metis header_le, metis order_refl)
  then show ?thesis unfolding write_header_def header_offsets by (metis write64_outside)
qed

text \<open>The sample heap as an allocator of pages: page 0 is used, all others are free.\<close>

lemma heap_sample_mem: "a < 512 \<Longrightarrow> mem heap_sample a = (if a = 0 then 1 else 0)"
proof -
  assume "a < 512"
  then have "a \<notin> region 0x11000 PAGE_SIZE"
    by (simp add: in_region_iff PAGE_SIZE_def word_less_nat_alt not_less unat_sub_if')
  then show ?thesis
    using format_slab_spec(3) [where n = 512 and v = "0x11000" and a = a]
    by (simp add: slab_sizes_def page_aligned_def PAGE_SIZE_def heap_sample_def)
qed

lemma heap_sample_used: "i < 4096 \<Longrightarrow> page_used heap_sample i \<longleftrightarrow> i = 0"
proof -
  assume "i < 4096"
  then have "i div 8 < 512" by (simp add: word_less_nat_alt unat_div)
  then have "mem heap_sample (i div 8) = (if i div 8 = 0 then 1 else 0)" by (rule heap_sample_mem)
  then have "page_used heap_sample i \<longleftrightarrow> i div 8 = 0 \<and> unat i mod 8 = 0"
    by (simp add: page_used_def bitmap_get_bit unat_mod) (simp add: heap_sample_def bit_1_iff)
  also have "\<dots> \<longleftrightarrow> i = 0"
    by (simp add: word_unat_eq_iff unat_div) (metis div_mult_mod_eq add_0 mult_zero_left mod_0 div_0)
  finally show ?thesis .
qed

lemma heap_sample_limit: "search_limit heap_sample = 4096"
  by (simp add: heap_sample_def search_limit_def PAGE_SIZE_def)

lemma heap_sample_pmm: "pmm_inv heap_sample" "\<not> locked (pmm_lock heap_sample)"
  "page_aligned (hhdm_offset heap_sample)"
  using heap_sample_used [of 0]
  by (simp_all add: pmm_inv_def heap_sample_limit)
     (simp_all add: heap_sample_def page_aligned_def PAGE_SIZE_def)

lemma header_outside_bitmap:
  assumes "region a 24 \<inter> bitmap_bytes s = {}" and "pmm_bitmap t = pmm_bitmap s" and "unat i < bit_count s"
  shows "page_used (t\<lparr>mem := write_header a n (mem t)\<rparr>) i = page_used t i"
proof (rule page_used_outside)
  show "unat i < bit_count t" using assms(2,3) by (simp add: bit_count_def)
  fix b assume "b \<in> bitmap_bytes t"
  then have "b \<notin> region a 24" using assms(1,2) by (auto simp: bitmap_bytes_def)
  then show "mem (t\<lparr>mem := write_header a n (mem t)\<rparr>) b = mem t b" by (simp add: write_header_outside)
qed simp

text \<open>
  C19: A request of more than 512 bytes for which the page allocator has pages takes whole pages, one for
  the header and enough for the data behind it; freeing the address gives the page allocator back exactly
  the pages it handed out: every page that has a bit in the bitmap is used or free as it was before. The
  bitmap has to lie in pages that are in use, as initialisation leaves it.
\<close>

theorem kmalloc_kfree_large:
  assumes "pmm_inv s" and "\<not> locked (pmm_lock s)" and "page_aligned (hhdm_offset s)"
    and "512 < sz" and "unat sz < 2 ^ 63" and "pmm_alloc (large_pages sz) s = Some (page, t0)" and "page \<noteq> 0"
    and "bitmap_reserved s"
  shows "unat sz \<le> (unat (large_pages sz) - 1) * 4096 \<and>
    (\<exists>t u. kmalloc sz s = Some (PHYS_TO_VIRT s page + PAGE_SIZE, t) \<and>
      kfree (PHYS_TO_VIRT s page + PAGE_SIZE) t = Some u \<and>
      (\<forall>i. unat i < 8 * unat (bm_size (pmm_bitmap s)) \<longrightarrow> page_used u i = page_used s i))"
proof -
  let ?n = "large_pages sz"
  note room = large_pages_room [OF assms(5)]
  obtain p where p: "page = of_nat p * PAGE_SIZE" "0 < p" "p + unat ?n \<le> unat (search_limit s)"
      "free_run s p (unat ?n)" "t0 = (take_run s p (unat ?n))\<lparr>pmm_lock := freed_lock s\<rparr>"
    and t0: "pmm_inv t0" "\<not> locked (pmm_lock t0)" "pmm_bitmap t0 = pmm_bitmap s"
    by (rule pmm_alloc_cases [OF assms(1,2) room(2)]) (use assms(6,7) in auto)
  have small: "p + unat ?n < 2 ^ 64" and p52: "p < 2 ^ 52" using assms(1) p(3) by (auto simp: pmm_inv_def)
  define a where "a = PHYS_TO_VIRT s page"
  have hhdm: "hhdm_offset t0 = hhdm_offset s" using p(5) by (simp add: take_run_def)
  then have addr: "PHYS_TO_VIRT t0 page = a" by (simp add: PHYS_TO_VIRT_def a_def)
  define t where "t = t0\<lparr>mem := write_header a ?n (mem t0)\<rparr>"
  have km: "kmalloc sz s = Some (a + PAGE_SIZE, t)"
    using kmalloc_large [OF assms(4,6)] by (simp add: addr t_def)
  have lim: "search_limit t = search_limit s" using t0(3) by (simp add: search_limit_def t_def)
  have apart: "region a 24 \<inter> bitmap_bytes s = {}"
  proof -
    have "frame s p \<inter> bitmap_bytes s = {}"
      using p(4) room(2) by (intro unused_frame [OF assms(8) p52]) (simp add: free_run_def unat_gt_0)
    moreover have "region a 24 \<subseteq> frame s p"
      using region_inside [of 0 24 4096 a] by (simp add: frame_def page_va_def a_def p(1) PAGE_SIZE_of_nat)
    ultimately show ?thesis by blast
  qed
  have same: "page_used t i = page_used t0 i" if "unat i < bit_count s" for i
    unfolding t_def by (rule header_outside_bitmap [OF apart t0(3) that])
  have inv: "pmm_inv t" using t0(1) same [of 0] bit_count_positive [OF assms(1)] lim
    by (simp add: pmm_inv_def search_limit_def t0(3)) (simp add: t_def)
  have "page_aligned page" using unat_page_addr [OF p52] p(1) by (simp add: page_aligned_iff)
  then have "(a + PAGE_SIZE) AND 0xfff = 0"
    using assms(3) by (simp add: page_aligned_low_bits [symmetric] page_aligned_add a_def PHYS_TO_VIRT_def
        page_aligned_PAGE_SIZE)
  moreover have "\<not> locked (pmm_lock t)" using t0(2) by (simp add: t_def)
  ultimately have kf: "kfree (a + PAGE_SIZE) t = pmm_free (of_nat p * PAGE_SIZE) ?n t"
    using hhdm p(1) by (simp add: kfree_def Let_def t_def write_header_read VIRT_TO_PHYS_def a_def PHYS_TO_VIRT_def)
  have range: "p + unat ?n \<le> unat (search_limit t)" using p(3) lim by simp
  have unl: "\<not> locked (pmm_lock t)" using t0(2) by (simp add: t_def)
  obtain u where u: "pmm_free (of_nat p * PAGE_SIZE) ?n t = Some u"
    "\<And>i. page_used u i \<longleftrightarrow> page_used t i \<and> \<not> (p \<le> unat i \<and> unat i < p + unat ?n)"
    by (rule pmm_free_cases [OF inv unl p(2) range p52]) (rule that)
  have "page_used u i = page_used s i" if i: "unat i < bit_count s" for i
  proof -
    have "\<not> page_used s i" if "p \<le> unat i \<and> unat i < p + unat ?n"
      using p(4) [unfolded free_run_def, rule_format, of "unat i"] that by simp
    then show ?thesis using u(2) [of i] same [OF i] page_used_take_run [OF small, of s i] p(5) by auto
  qed
  with km kf u(1) room(3) show ?thesis unfolding a_def bit_count_def by auto
qed

text \<open>The sample heap with its bitmap as initialisation makes it.\<close>

lemma heap_booted:
  obtains memmap' t where "pmm_init boot_memmap heap_sample = Some (memmap', t)" and "pmm_inv t" and "\<not> locked (pmm_lock t)"
    and "bitmap_reserved t" and "room_ahead t 510" and "bit_count t = 32768" and "hhdm_offset t = 0x10000"
proof -
  have "last_page_idx heap_sample = 0" by (simp add: heap_sample_def)
  from boot_pmm_init [OF this heap_sample_pmm(2)] obtain memmap' t
    where t: "pmm_init boot_memmap heap_sample = Some (memmap', t)" "pmm_inv t" "\<not> locked (pmm_lock t)"
      "bitmap_reserved t" "room_ahead t 510" "bit_count t = 32768"
      and "\<exists>m. t = heap_sample\<lparr>pmm_bitmap := pmm_bitmap t, mem := m\<rparr>" by metis
  then obtain m where "t = heap_sample\<lparr>pmm_bitmap := pmm_bitmap t, mem := m\<rparr>" by blast
  then have "hhdm_offset t = hhdm_offset (heap_sample\<lparr>pmm_bitmap := pmm_bitmap t, mem := m\<rparr>)" by (rule arg_cong)
  then have "hhdm_offset t = 0x10000" by (simp add: heap_sample_def)
  with t show ?thesis by (rule that)
qed

theorem kmalloc_kfree_large_witness:
  "\<exists>memmap' s page t u. pmm_init boot_memmap heap_sample = Some (memmap', s) \<and>
    kmalloc 5000 s = Some (PHYS_TO_VIRT s page + PAGE_SIZE, t) \<and>
    kfree (PHYS_TO_VIRT s page + PAGE_SIZE) t = Some u \<and>
    page_used u 2 = page_used s 2 \<and> page_used u 3 = page_used s 3 \<and> page_used u 5 = page_used s 5"
proof -
  have n: "unat (large_pages 5000) = 3" "large_pages 5000 \<noteq> 0" by (simp_all add: large_pages_room)
  obtain memmap' s where s: "pmm_init boot_memmap heap_sample = Some (memmap', s)" "pmm_inv s" "\<not> locked (pmm_lock s)"
    "bitmap_reserved s" "room_ahead s 510" "bit_count s = 32768" "hhdm_offset s = 0x10000" by (rule heap_booted)
  have "bit_count s \<le> 2 ^ 52" "room_ahead s (unat (large_pages 5000) + 507)" using s(5,6) by (simp_all add: n)
  then obtain p t0 where alloc: "pmm_alloc (large_pages 5000) s = Some (of_nat p * PAGE_SIZE, t0)"
    "0 < p" "p + unat (large_pages 5000) \<le> bit_count s"
    using alloc_ahead [OF s(2,3) _ n(2)] by metis
  have "of_nat p * PAGE_SIZE \<noteq> 0" using alloc(2,3) s(6) by (intro page_addr_nonzero) simp_all
  moreover have "page_aligned (hhdm_offset s)" by (simp add: s(7) page_aligned_def PAGE_SIZE_def)
  ultimately have both: "\<exists>t u. kmalloc 5000 s = Some (PHYS_TO_VIRT s (of_nat p * PAGE_SIZE) + PAGE_SIZE, t) \<and>
      kfree (PHYS_TO_VIRT s (of_nat p * PAGE_SIZE) + PAGE_SIZE) t = Some u \<and>
      (\<forall>i. unat i < 8 * unat (bm_size (pmm_bitmap s)) \<longrightarrow> page_used u i = page_used s i)"
    using kmalloc_kfree_large [OF s(2,3) _ _ _ alloc(1) _ s(4)] by simp
  then obtain t u where "kmalloc 5000 s = Some (PHYS_TO_VIRT s (of_nat p * PAGE_SIZE) + PAGE_SIZE, t)"
      "kfree (PHYS_TO_VIRT s (of_nat p * PAGE_SIZE) + PAGE_SIZE) t = Some u"
      "\<And>i. unat i < bit_count s \<Longrightarrow> page_used u i = page_used s i" unfolding bit_count_def by blast
  with s(1,6) show ?thesis by (intro exI [of _ memmap'] exI [of _ s] exI [of _ "of_nat p * PAGE_SIZE"] exI [of _ t] exI [of _ u]) simp
qed

text \<open>
  The large path trusts the page allocator: when there are no pages left, \<open>kmalloc\<close>
  writes its header to the start of the direct map and returns an address a page behind it,
  which is not null.
\<close>

lemma kmalloc_ignores_failure:
  assumes "512 < sz" and "pmm_alloc (large_pages sz) s = Some (0, t)"
    and "unat (hhdm_offset t) + 4096 < 2 ^ 64"
  shows "\<exists>u. kmalloc sz s = Some (hhdm_offset t + PAGE_SIZE, u) \<and> hhdm_offset t + PAGE_SIZE \<noteq> 0 \<and>
    read64 (mem u) (hhdm_offset t) = large_pages sz"
proof -
  let ?h = "hhdm_offset t"
  have "unat ?h + unat PAGE_SIZE < 2 ^ LENGTH(64)" using assms(3) by simp
  then have "unat (?h + PAGE_SIZE) = unat ?h + 4096" by (metis unat_PAGE_SIZE unat_add_lem)
  then have "?h + PAGE_SIZE \<noteq> 0" by auto
  with kmalloc_large [OF assms(1,2)] write_header_read [of ?h "large_pages sz" "mem t"]
  show ?thesis by (simp add: PHYS_TO_VIRT_def header_slab_size_def)
qed

lemma kmalloc_ignores_failure_witness:
  "\<exists>t u. pmm_alloc (large_pages 0x2000000) heap_sample = Some (0, t) \<and>
    kmalloc 0x2000000 heap_sample = Some (0x11000, u)"
proof -
  let ?sz = "0x2000000 :: u64"
  have n: "unat (large_pages ?sz) = 8193" "large_pages ?sz \<noteq> 0" by (simp_all add: large_pages_room)
  obtain r t where t: "pmm_alloc (large_pages ?sz) heap_sample = Some (r, t)"
    and r: "r \<noteq> 0 \<Longrightarrow> \<exists>p. p + unat (large_pages ?sz) \<le> unat (search_limit heap_sample)"
    by (rule pmm_alloc_cases [OF heap_sample_pmm(1,2) n(2)]) blast
  have "r = 0" using r by (auto simp: n heap_sample_limit)
  moreover have "hhdm_offset t = 0x10000"
    using pmm_alloc_shape [OF heap_sample_pmm(1,2) n(2) t] by (auto simp: heap_sample_def)
  ultimately show ?thesis
    using t kmalloc_ignores_failure [of ?sz heap_sample t] by (auto simp: PAGE_SIZE_def)
qed

section \<open>Copies of strings\<close>

lemma cstr_char: "cstr m p s \<longleftrightarrow> (\<forall>j < length s. m (p + of_nat j) = s ! j \<and> s ! j \<noteq> 0) \<and> m (p + of_nat (length s)) = 0"
  using cstr_append [of m p s "[]"] by simp

text \<open>
  \<open>strdup\<close> puts a copy of the string into the block it gets, provided that taking it left the string as it was and the block
  is apart from the string.
\<close>

lemma strdup_copies:
  assumes str: "cstr (mem s) str cs" and alloc: "kmalloc (of_nat (length cs) + 1) s = Some (b, t)"
    and left: "cstr (mem t) str cs"
    and short: "length cs + 1 < 2 ^ 64" and apart: "region b (of_nat (length cs) + 1) \<inter> region str (of_nat (length cs) + 1) = {}"
  shows "\<exists>u. strdup str s = Some (b, u) \<and> cstr (mem u) b cs \<and> cstr (mem u) str cs \<and>
    (\<forall>a. a \<notin> region b (of_nat (length cs) + 1) \<longrightarrow> mem u a = mem t a)"
proof -
  let ?n = "of_nat (length cs) :: u64"
  have len: "unat ?n = length cs" using cstr_length [OF str] by (intro unat_of_nat_u64) simp
  have below: "of_nat j < ?n + 1" if "j \<le> length cs" for j
  proof -
    have "unat (?n + 1) = length cs + 1" using unat_of_nat_u64 [OF short] by (simp add: add.commute)
    moreover have "unat (of_nat j :: u64) = j" using that cstr_length [OF str] by (intro unat_of_nat_u64) simp
    ultimately show ?thesis using that by (simp add: word_less_nat_alt)
  qed
  have away: "?n \<le> b - str"
  proof (rule ccontr)
    assume "\<not> ?n \<le> b - str"
    then have "b - str < ?n" by simp
    then have "unat (b - str) < length cs" unfolding word_less_nat_alt len .
    then have "b - str < ?n + 1" using below [of "unat (b - str)"] by simp
    then have "b \<in> region str (?n + 1)" by (simp add: in_region_iff)
    moreover have "b \<in> region b (?n + 1)" using below [of 0] by (simp add: in_region_iff)
    ultimately show False using apart by blast
  qed
  define m where "m = store8 (b + ?n) 0 (snd (memcpy b str ?n (mem t)))"
  have "strdup str s = Some (b, t\<lparr>mem := m\<rparr>)" using alloc by (simp add: strdup_def strlen_cstr [OF str] m_def)
  moreover have outside: "m a = mem t a" if "a \<notin> region b (?n + 1)" for a
  proof -
    have "a \<noteq> b + ?n" using that below [of "length cs"] by (auto simp: region_offset)
    moreover have "a \<notin> region b ?n" using that below [of "unat (a - b)"] len by (auto simp: in_region_iff word_less_nat_alt)
    ultimately show ?thesis using away by (simp add: m_def store8_apply memcpy_apply)
  qed
  moreover have "cstr m b cs"
    unfolding cstr_char
  proof (intro conjI allI impI)
    fix j assume j: "j < length cs"
    have "of_nat j < ?n" using j len unat_of_nat_u64 [of j] cstr_length [OF str] by (simp add: word_less_nat_alt)
    then have "m (b + of_nat j) = mem t (str + of_nat j)"
      using away by (auto simp: m_def store8_apply memcpy_apply region_offset)
    then show "m (b + of_nat j) = cs ! j" "cs ! j \<noteq> 0" using cstr_nth [OF left j] by auto
  qed (simp add: m_def store8_apply)
  moreover have "cstr m str cs"
  proof -
    have "m (str + of_nat j) = mem t (str + of_nat j)" if "j \<le> length cs" for j
    proof (rule outside)
      have "str + of_nat j \<in> region str (?n + 1)" using below [OF that] by (simp add: region_offset)
      with apart show "str + of_nat j \<notin> region b (?n + 1)" by blast
    qed
    then show ?thesis using left by (simp add: cstr_char)
  qed
  ultimately show ?thesis by (intro exI [of _ "t\<lparr>mem := m\<rparr>"]) simp
qed

end
