(* ===== verification/Vmm.thy ===== *)
theory Vmm
  imports Slab_Heap
begin

text \<open>
  Virtual memory (\<open>src/kernel/memory/vmm.cpp\<close>, \<open>vmm.hpp\<close>): four levels of page tables in
  the byte memory, reached through the direct map, and the address spaces that hold their
  roots. A pointer to a table is its direct-map address, 0 being the null pointer.
\<close>

section \<open>State\<close>

definition PTE_PRESENT :: u64 where
  "PTE_PRESENT = 1"

definition PTE_WRITABLE :: u64 where
  "PTE_WRITABLE = 2"

definition PTE_USER :: u64 where
  "PTE_USER = 4"

definition PTE_NX :: u64 where
  "PTE_NX = push_bit 63 1"

definition PTE_GET_ADDR :: "u64 \<Rightarrow> u64" where
  "PTE_GET_ADDR v = v AND 0x000ffffffffff000"

record address_space =
  as_lock :: spinlock
  as_pml4 :: u64

text \<open>Address spaces are objects, indexed by their address; \<open>cr3\<close> is the processor's root register.\<close>

record vmm = heap +
  spaces :: "u64 \<Rightarrow> address_space"
  kernel_space :: u64
  cr3 :: u64

definition space_lock :: "u64 \<Rightarrow> 'a vmm_scheme \<Rightarrow> spinlock" where
  "space_lock a s = as_lock (spaces s a)"

definition space_lock_update :: "u64 \<Rightarrow> (spinlock \<Rightarrow> spinlock) \<Rightarrow> 'a vmm_scheme \<Rightarrow> 'a vmm_scheme" where
  "space_lock_update a f s =
     s\<lparr>spaces := (spaces s)(a := (spaces s a)\<lparr>as_lock := f (as_lock (spaces s a))\<rparr>)\<rparr>"

section \<open>Operations\<close>

definition pte_at :: "u64 \<Rightarrow> u64 \<Rightarrow> u64" where
  "pte_at table idx = table + idx * 8"

definition get_next_level ::
  "u64 \<Rightarrow> u64 \<Rightarrow> bool \<Rightarrow> 'a vmm_scheme \<Rightarrow> (u64 \<times> 'a vmm_scheme) option" where
  "get_next_level top_level idx allocate s =
     (if read64 (mem s) (pte_at top_level idx) AND PTE_PRESENT \<noteq> 0 then
        Some (PHYS_TO_VIRT s (PTE_GET_ADDR (read64 (mem s) (pte_at top_level idx))), s)
      else if \<not> allocate then Some (0, s)
      else do {
        (next_level, s) \<leftarrow> pmm_calloc 1 s;
        if next_level = 0 then Some (0, s)
        else Some (PHYS_TO_VIRT s next_level,
          s\<lparr>mem := write64 (pte_at top_level idx)
             (next_level OR PTE_PRESENT OR PTE_WRITABLE OR PTE_USER) (mem s)\<rparr>) })"

definition virt_to_pte :: "u64 \<Rightarrow> u64 \<Rightarrow> 'a vmm_scheme \<Rightarrow> (u64 \<times> 'a vmm_scheme) option" where
  "virt_to_pte pml4 virt_addr s =
     (let pml4_offset = drop_bit 39 virt_addr AND 0x1ff;
          pml3_offset = drop_bit 30 virt_addr AND 0x1ff;
          pml2_offset = drop_bit 21 virt_addr AND 0x1ff;
          pml1_offset = drop_bit 12 virt_addr AND 0x1ff
      in do {
        (pml3, s) \<leftarrow> get_next_level pml4 pml4_offset True s;
        if pml3 = 0 then Some (0, s) else do {
          (pml2, s) \<leftarrow> get_next_level pml3 pml3_offset True s;
          if pml2 = 0 then Some (0, s) else do {
            (pml1, s) \<leftarrow> get_next_level pml2 pml2_offset True s;
            if pml1 = 0 then Some (0, s) else Some (pte_at pml1 pml1_offset, s) } } })"

definition as_map :: "u64 \<Rightarrow> u64 \<Rightarrow> u64 \<Rightarrow> u64 \<Rightarrow> 'a vmm_scheme \<Rightarrow> 'a vmm_scheme option" where
  "as_map this virt_addr phys_addr flags s =
     do {
       s \<leftarrow> acquire (space_lock this) (space_lock_update this) s;
       (pte, s) \<leftarrow> virt_to_pte (as_pml4 (spaces s this)) virt_addr s;
       if pte = 0 then Some (release (space_lock this) (space_lock_update this) s)
       else if read64 (mem s) pte AND PTE_PRESENT \<noteq> 0 then
         Some (release (space_lock this) (space_lock_update this) s)
       else Some (release (space_lock this) (space_lock_update this)
              (s\<lparr>mem := write64 pte (phys_addr OR flags) (mem s)\<rparr>)) }"

partial_function (option) map_io_range ::
  "u64 \<Rightarrow> u64 \<Rightarrow> u64 \<Rightarrow> u64 \<Rightarrow> 'a vmm_scheme \<Rightarrow> 'a vmm_scheme option" where
  "map_io_range this addr end_addr flags s =
     (if addr < end_addr then do {
        s \<leftarrow> as_map this addr (IO_TO_PHYS s addr) flags s;
        map_io_range this (addr + PAGE_SIZE) end_addr flags s }
      else Some s)"

partial_function (option) map_range_from ::
  "u64 \<Rightarrow> u64 \<Rightarrow> u64 \<Rightarrow> u64 \<Rightarrow> u64 \<Rightarrow> u64 \<Rightarrow> 'a vmm_scheme \<Rightarrow> 'a vmm_scheme option" where
  "map_range_from this virt_addr phys_addr pages flags i s =
     (if i < pages * PAGE_SIZE then do {
        s \<leftarrow> as_map this (virt_addr + i) (phys_addr + i) flags s;
        map_range_from this virt_addr phys_addr pages flags (i + PAGE_SIZE) s }
      else Some s)"

declare map_io_range.simps [code] map_range_from.simps [code]

definition map_range ::
  "u64 \<Rightarrow> u64 \<Rightarrow> u64 \<Rightarrow> u64 \<Rightarrow> u64 \<Rightarrow> 'a vmm_scheme \<Rightarrow> 'a vmm_scheme option" where
  "map_range this virt_addr phys_addr pages flags s =
     map_range_from this virt_addr phys_addr pages flags 0 s"

definition virt_to_phys :: "u64 \<Rightarrow> u64 \<Rightarrow> 'a vmm_scheme \<Rightarrow> (u64 \<times> 'a vmm_scheme) option" where
  "virt_to_phys this virt_addr s =
     do {
       (pte, s) \<leftarrow> virt_to_pte (as_pml4 (spaces s this)) virt_addr s;
       if pte = 0 \<or> read64 (mem s) pte AND PTE_PRESENT = 0 then Some (0xffffffffffffffff, s)
       else Some (PTE_GET_ADDR (read64 (mem s) pte), s) }"

text \<open>A loop over indices whose body may fail.\<close>

primrec for_each :: "('i \<Rightarrow> 's \<Rightarrow> 's option) \<Rightarrow> 'i list \<Rightarrow> 's \<Rightarrow> 's option" where
  "for_each f [] s = Some s"
| "for_each f (i # is) s = do { s \<leftarrow> f i s; for_each f is s }"

primrec destroy_pml :: "nat \<Rightarrow> u64 \<Rightarrow> nat \<Rightarrow> nat \<Rightarrow> 'a vmm_scheme \<Rightarrow> 'a vmm_scheme option" where
  "destroy_pml 0 pml start end s = Some s"
| "destroy_pml (Suc level) pml start end s =
     do {
       s \<leftarrow> for_each (\<lambda>i s. do {
            (next_pml, s) \<leftarrow> get_next_level pml (of_nat i) False s;
            if next_pml = 0 then Some s else destroy_pml level next_pml 0 512 s }) [start..<end] s;
       pmm_free (VIRT_TO_PHYS s pml) 1 s }"

text \<open>The destructor keeps the lock: the object is gone when it returns.\<close>

definition delete_address_space :: "u64 \<Rightarrow> 'a vmm_scheme \<Rightarrow> 'a vmm_scheme option" where
  "delete_address_space this s =
     do {
       s \<leftarrow> acquire (space_lock this) (space_lock_update this) s;
       destroy_pml 4 (as_pml4 (spaces s this)) 0 256 s }"

text \<open>An \<open>AddressSpace\<close> takes 16 bytes of the heap.\<close>

definition new_address_space :: "'a vmm_scheme \<Rightarrow> (u64 \<times> 'a vmm_scheme) option" where
  "new_address_space s =
     do {
       (this, s) \<leftarrow> kmalloc 16 s;
       (page, s) \<leftarrow> pmm_calloc 1 s;
       Some (this, s\<lparr>spaces := (spaces s)(this :=
         \<lparr>as_lock = \<lparr>locked = False, restore_interrupts = restore_interrupts (as_lock (spaces s this))\<rparr>,
          as_pml4 = PHYS_TO_VIRT s page\<rparr>)\<rparr>) }"

definition new_space :: "'a vmm_scheme \<Rightarrow> (u64 \<times> 'a vmm_scheme) option" where
  "new_space s =
     do {
       (space, s) \<leftarrow> new_address_space s;
       s \<leftarrow> for_each (\<lambda>i s. Some (s\<lparr>mem := write64 (pte_at (as_pml4 (spaces s space)) (of_nat i))
              (read64 (mem s) (pte_at (as_pml4 (spaces s (kernel_space s))) (of_nat i))) (mem s)\<rparr>))
            [256..<512] s;
       Some (space, s) }"

definition switch_space :: "u64 \<Rightarrow> 'a vmm_scheme \<Rightarrow> 'a vmm_scheme" where
  "switch_space space s = s\<lparr>cr3 := VIRT_TO_PHYS s (as_pml4 (spaces s space))\<rparr>"

text \<open>The loops of \<open>init\<close>: the first four gigabytes, and each entry of the memory map above.\<close>

partial_function (option) map_low :: "u64 \<Rightarrow> 'a vmm_scheme \<Rightarrow> 'a vmm_scheme option" where
  "map_low addr s =
     (if addr < 0x100000000 then do {
        s \<leftarrow> as_map (kernel_space s) (PHYS_TO_VIRT s addr) addr (PTE_PRESENT OR PTE_WRITABLE OR PTE_NX) s;
        map_low (addr + PAGE_SIZE) s }
      else Some s)"

partial_function (option) map_entry_pages :: "u64 \<Rightarrow> u64 \<Rightarrow> 'a vmm_scheme \<Rightarrow> 'a vmm_scheme option" where
  "map_entry_pages j end_addr s =
     (if j < end_addr then do {
        s \<leftarrow> (if j < 0x100000000 then Some s
             else as_map (kernel_space s) (PHYS_TO_VIRT s j) j (PTE_PRESENT OR PTE_WRITABLE OR PTE_NX) s);
        map_entry_pages (j + PAGE_SIZE) end_addr s }
      else Some s)"

declare map_low.simps [code] map_entry_pages.simps [code]

definition map_entry :: "memmap_entry \<Rightarrow> 'a vmm_scheme \<Rightarrow> 'a vmm_scheme option" where
  "map_entry e s =
     (let base = ALIGN_DOWN (me_base e) PAGE_SIZE; top_addr = ALIGN_UP (me_base e + me_length e) PAGE_SIZE
      in if top_addr \<le> 0x100000000 then Some s else map_entry_pages base top_addr s)"

text \<open>The sections of the kernel image, whose bounds the linker defines.\<close>

record kernel_image =
  text_start :: u64
  text_end :: u64
  rodata_start :: u64
  rodata_end :: u64
  data_start :: u64
  data_end :: u64

definition vmm_init :: "kernel_image \<Rightarrow> memmap_entry list \<Rightarrow> 'a vmm_scheme \<Rightarrow> 'a vmm_scheme option" where
  "vmm_init k memmap s =
     do {
       (space, s) \<leftarrow> new_address_space s;
       let s = s\<lparr>kernel_space := space\<rparr>;
       s \<leftarrow> for_each (\<lambda>i s. map_option snd
              (get_next_level (as_pml4 (spaces s space)) (of_nat i) True s)) [256..<512] s;
       s \<leftarrow> map_io_range space (ALIGN_DOWN (text_start k) PAGE_SIZE) (ALIGN_UP (text_end k) PAGE_SIZE)
              PTE_PRESENT s;
       s \<leftarrow> map_io_range space (ALIGN_DOWN (rodata_start k) PAGE_SIZE) (ALIGN_UP (rodata_end k) PAGE_SIZE)
              (PTE_PRESENT OR PTE_NX) s;
       s \<leftarrow> map_io_range space (ALIGN_DOWN (data_start k) PAGE_SIZE) (ALIGN_UP (data_end k) PAGE_SIZE)
              (PTE_PRESENT OR PTE_WRITABLE OR PTE_NX) s;
       s \<leftarrow> map_low 0x1000 s;
       s \<leftarrow> for_each map_entry memmap s;
       Some (switch_space space s) }"

interpretation space_lk: lock_field "space_lock a" "space_lock_update a" for a
  by unfold_locales (auto simp: space_lock_def space_lock_update_def comp_def)

section \<open>Page table entries\<close>

definition phys_ok :: "u64 \<Rightarrow> bool" where
  "phys_ok p \<longleftrightarrow> PTE_GET_ADDR p = p"

definition flags_ok :: "u64 \<Rightarrow> bool" where
  "flags_ok f \<longleftrightarrow> PTE_GET_ADDR f = 0 \<and> f AND PTE_PRESENT \<noteq> 0"

lemma addr_mask: "(0x000ffffffffff000 :: u64) = push_bit 12 (mask 40)"
  by (simp add: mask_eq_exp_minus_1 push_bit_eq_mult)

lemma PTE_GET_ADDR_or: "PTE_GET_ADDR (a OR b) = PTE_GET_ADDR a OR PTE_GET_ADDR b"
  by (simp add: PTE_GET_ADDR_def bit_eq_iff bit_and_iff bit_or_iff) blast

lemma present_odd: "e AND PTE_PRESENT \<noteq> 0 \<longleftrightarrow> odd (e :: u64)"
  by (simp add: PTE_PRESENT_def and_one_eq mod_2_eq_odd)

lemma pte_fields:
  assumes "phys_ok p" and "flags_ok f"
  shows "PTE_GET_ADDR (p OR f) = p" and "(p OR f) AND PTE_PRESENT \<noteq> 0"
proof -
  show "PTE_GET_ADDR (p OR f) = p" using assms by (simp add: PTE_GET_ADDR_or phys_ok_def flags_ok_def)
  show "(p OR f) AND PTE_PRESENT \<noteq> 0"
    using assms(2) by (simp add: flags_ok_def present_odd even_or_iff)
qed

lemma phys_ok_page:
  assumes "q < 2 ^ 40"
  shows "phys_ok (of_nat q * PAGE_SIZE)"
proof -
  have "of_nat q * PAGE_SIZE = push_bit 12 (of_nat q :: u64)"
    by (simp add: PAGE_SIZE_def push_bit_eq_mult)
  moreover have "take_bit 40 (of_nat q :: u64) = of_nat q"
  proof -
    have "take_bit 40 q = q" using assms by (simp add: take_bit_nat_eq_self)
    then show ?thesis by (metis take_bit_of_nat)
  qed
  ultimately show ?thesis
    unfolding phys_ok_def PTE_GET_ADDR_def addr_mask
    by (metis push_bit_and take_bit_eq_mask)
qed

lemma table_flags_ok: "flags_ok (PTE_PRESENT OR PTE_WRITABLE OR PTE_USER)"
  by (simp add: flags_ok_def PTE_GET_ADDR_def PTE_PRESENT_def PTE_WRITABLE_def PTE_USER_def)

text \<open>The page an entry points to.\<close>

definition pte_page :: "u64 \<Rightarrow> nat" where
  "pte_page e = unat (PTE_GET_ADDR e div PAGE_SIZE)"

lemma page_aligned_PTE: "page_aligned (PTE_GET_ADDR e)"
  unfolding page_aligned_take_bit PTE_GET_ADDR_def addr_mask
  by (rule bit_word_eqI) (auto simp: bit_take_bit_iff bit_and_iff bit_push_bit_iff)

lemma page_div_mult: "page_aligned a \<Longrightarrow> of_nat (unat (a div PAGE_SIZE)) * PAGE_SIZE = a"
  by (simp add: page_aligned_def) (metis add_0_right div_mult_mod_eq)

lemma pte_page_addr: "of_nat (pte_page e) * PAGE_SIZE = PTE_GET_ADDR e"
  unfolding pte_page_def by (rule page_div_mult) (rule page_aligned_PTE)

lemma pte_page_new:
  assumes "q < 2 ^ 40" and "flags_ok f"
  shows "pte_page (of_nat q * PAGE_SIZE OR f) = q"
proof -
  have "PTE_GET_ADDR (of_nat q * PAGE_SIZE OR f) = of_nat q * PAGE_SIZE"
    by (rule pte_fields(1) [OF phys_ok_page [OF assms(1)] assms(2)])
  moreover have "q < 2 ^ 52" using assms(1) by simp
  moreover from this have "unat (of_nat q :: u64) = q" by (intro unat_of_nat_u64) simp
  ultimately show ?thesis by (simp add: pte_page_def page_addr_div)
qed

section \<open>Frames\<close>

definition cell :: "'a machine_scheme \<Rightarrow> nat \<Rightarrow> nat \<Rightarrow> u64" where
  "cell s p i = page_va s p + of_nat (i * 8)"

lemma pte_at_cell: "pte_at (page_va s p) (of_nat i) = cell s p i"
  by (simp add: pte_at_def cell_def)

lemma cell_in_frame: "i < 512 \<Longrightarrow> region (cell s p i) 8 \<subseteq> frame s p"
  using region_inside [of "i * 8" 8 4096 "page_va s p"] by (simp add: cell_def frame_def PAGE_SIZE_of_nat)

lemma cells_disjoint:
  assumes "i \<noteq> j" and "i < 512" and "j < 512"
  shows "region (cell s p i) 8 \<inter> region (cell s p j) 8 = {}"
  using region_apart [of "i * 8" 8 "j * 8" 8 "page_va s p"] region_apart [of "j * 8" 8 "i * 8" 8 "page_va s p"] assms
  by (auto simp: cell_def neq_iff)

section \<open>The tree of tables\<close>

text \<open>
  A path is the list of indices from the last one back to the first. \<open>tab\<close> is the table a
  path of at most three indices leads to from the root, \<open>leaf\<close> the present entry a path of
  four leads to: what the processor finds for an address.
\<close>

definition entry :: "'a machine_scheme \<Rightarrow> nat \<Rightarrow> nat \<Rightarrow> u64" where
  "entry s p i = read64 (mem s) (cell s p i)"

definition present :: "u64 \<Rightarrow> bool" where
  "present e \<longleftrightarrow> e AND PTE_PRESENT \<noteq> 0"

fun tab :: "'a machine_scheme \<Rightarrow> nat \<Rightarrow> nat list \<Rightarrow> nat option" where
  "tab s root [] = Some root"
| "tab s root (i # path) =
     (case tab s root path of None \<Rightarrow> None
      | Some p \<Rightarrow> if present (entry s p i) then Some (pte_page (entry s p i)) else None)"

fun leaf :: "'a machine_scheme \<Rightarrow> nat \<Rightarrow> nat list \<Rightarrow> u64 option" where
  "leaf s root [] = None"
| "leaf s root (i # path) =
     (case tab s root path of None \<Rightarrow> None
      | Some p \<Rightarrow> if present (entry s p i) then Some (entry s p i) else None)"

definition path_ok :: "nat list \<Rightarrow> bool" where
  "path_ok path \<longleftrightarrow> length path \<le> 3 \<and> (\<forall>i \<in> set path. i < 512)"

definition va_path :: "u64 \<Rightarrow> nat list" where
  "va_path va = [unat (drop_bit 12 va AND 0x1ff), unat (drop_bit 21 va AND 0x1ff),
     unat (drop_bit 30 va AND 0x1ff), unat (drop_bit 39 va AND 0x1ff)]"

definition translate :: "'a machine_scheme \<Rightarrow> nat \<Rightarrow> u64 \<Rightarrow> u64 option" where
  "translate s root va = leaf s root (va_path va)"

text \<open>
  The invariant of the tables below \<open>root\<close>: every table is a page in use that has a bit in the
  bitmap and holds none of its bytes, and no table is reached by two paths. Initialisation
  establishes it for the first root that is taken (\<open>booted_tables\<close> below). Memory is at most 64
  terabytes, and the direct map does not wrap around for as much.
\<close>

definition table_page :: "'a pmm_scheme \<Rightarrow> nat \<Rightarrow> bool" where
  "table_page s p \<longleftrightarrow> 0 < p \<and> p < bit_count s \<and> page_used s (of_nat p) \<and> frame s p \<inter> bitmap_bytes s = {}"

definition tables_ok :: "'a pmm_scheme \<Rightarrow> nat \<Rightarrow> bool" where
  "tables_ok s root \<longleftrightarrow>
     (\<forall>path p. path_ok path \<and> tab s root path = Some p \<longrightarrow> table_page s p) \<and>
     (\<forall>path path' p. path_ok path \<and> path_ok path' \<and> tab s root path = Some p \<and> tab s root path' = Some p \<longrightarrow>
        path = path')"

definition vm_inv :: "'a pmm_scheme \<Rightarrow> nat \<Rightarrow> bool" where
  "vm_inv s root \<longleftrightarrow> pmm_inv s \<and> \<not> locked (pmm_lock s) \<and> bit_count s \<le> 2 ^ 34 \<and>
     unat (hhdm_offset s) + 2 ^ 46 \<le> 2 ^ 64 \<and> bitmap_reserved s \<and> tables_ok s root"

section \<open>Taking a page for a table\<close>

definition vm_step :: "'a pmm_scheme \<Rightarrow> 'a pmm_scheme \<Rightarrow> bool" where
  "vm_step s t \<longleftrightarrow>
     t\<lparr>mem := mem s, last_page_idx := last_page_idx s, pmm_lock := pmm_lock s\<rparr> = s"

lemma vm_step_refl: "vm_step s s"
  by (simp add: vm_step_def)

lemma vm_step_trans: "vm_step s t \<Longrightarrow> vm_step t u \<Longrightarrow> vm_step s u"
proof -
  assume st: "vm_step s t" and tu: "vm_step t u"
  have "u\<lparr>mem := mem s, last_page_idx := last_page_idx s, pmm_lock := pmm_lock s\<rparr> =
      (u\<lparr>mem := mem t, last_page_idx := last_page_idx t, pmm_lock := pmm_lock t\<rparr>)
        \<lparr>mem := mem s, last_page_idx := last_page_idx s, pmm_lock := pmm_lock s\<rparr>"
    by simp
  with st tu show ?thesis by (simp add: vm_step_def)
qed

lemma vm_step_mem: "vm_step s (s\<lparr>mem := m\<rparr>)"
  by (simp add: vm_step_def)

lemma vm_step_same:
  assumes "vm_step s t"
  shows "hhdm_offset t = hhdm_offset s" and "pmm_bitmap t = pmm_bitmap s" and "rflags t = rflags s"
    and "bit_count t = bit_count s" and "bitmap_bytes t = bitmap_bytes s"
    and "page_va t = page_va s" and "frame t = frame s" and "cell t = cell s" and "search_limit t = search_limit s"
proof -
  let ?u = "t\<lparr>mem := mem s, last_page_idx := last_page_idx s, pmm_lock := pmm_lock s\<rparr>"
  have u: "?u = s" using assms by (simp add: vm_step_def)
  show h: "hhdm_offset t = hhdm_offset s" by (subst u [symmetric]) simp
  show b: "pmm_bitmap t = pmm_bitmap s" by (subst u [symmetric]) simp
  show "rflags t = rflags s" by (subst u [symmetric]) simp
  show "search_limit t = search_limit s" by (simp add: search_limit_def b)
  show "bit_count t = bit_count s" by (simp add: bit_count_def b)
  show "bitmap_bytes t = bitmap_bytes s" by (simp add: bitmap_bytes_def b)
  show p: "page_va t = page_va s" by (simp add: fun_eq_iff page_va_def PHYS_TO_VIRT_def h)
  show "frame t = frame s" by (simp add: fun_eq_iff frame_def p)
  show "cell t = cell s" by (simp add: fun_eq_iff cell_def p)
qed

lemma page_index:
  assumes "bitmap_reserved s" and "q < bit_count s"
  shows "unat (of_nat q :: u64) = q" and "unat (of_nat q :: u64) < bit_count s" and "q < 2 ^ 52"
proof -
  show q: "q < 2 ^ 52" using assms by (simp add: bitmap_reserved_def)
  then show u: "unat (of_nat q :: u64) = q" by (intro unat_of_nat_u64) simp
  show "unat (of_nat q :: u64) < bit_count s" using assms(2) by (simp only: u)
qed

lemma calloc_page:
  assumes inv: "pmm_inv s" "\<not> locked (pmm_lock s)" and res: "bitmap_reserved s" and room: "room_ahead s (Suc n)"
  obtains t q where "pmm_calloc 1 s = Some (of_nat q * PAGE_SIZE, t)" and "vm_step s t"
      and "pmm_inv t" and "\<not> locked (pmm_lock t)"
      and "0 < q" and "q < bit_count s" and "\<not> page_used s (of_nat q)"
      and "\<And>a. a \<notin> frame s q \<Longrightarrow> a \<notin> bitmap_bytes s \<Longrightarrow> mem t a = mem s a"
      and "\<And>a. a \<in> frame s q \<Longrightarrow> mem t a = 0"
      and "\<And>i. unat i < bit_count s \<Longrightarrow> page_used t i \<longleftrightarrow> i = of_nat q \<or> page_used s i"
      and "room_ahead t n"
      and "\<And>q'. unat (last_page_idx s) \<le> q' \<Longrightarrow> \<not> page_used s (of_nat q') \<Longrightarrow> q \<le> q'"
proof -
  have one: "(1 :: u64) \<noteq> 0" and room1: "room_ahead s (unat (1 :: u64) + n)" and count: "bit_count s \<le> 2 ^ 52"
    using room res by (simp_all add: bitmap_reserved_def)
  obtain q t0 where alloc: "pmm_alloc 1 s = Some (of_nat q * PAGE_SIZE, t0)"
    and t0: "t0 = (take_run s q 1)\<lparr>pmm_lock := freed_lock s\<rparr>" and inv0: "pmm_inv t0" "\<not> locked (pmm_lock t0)"
    and q: "0 < q" "q + 1 \<le> bit_count s" "free_run s q 1" and room0: "room_ahead t0 n"
    and least: "\<And>q'. unat (last_page_idx s) \<le> q' \<Longrightarrow> free_run s q' 1 \<Longrightarrow> q \<le> q'"
    by (rule alloc_ahead [OF inv count one room1, unfolded unat_1]) (rule that)
  have one_run: "free_run s k 1 \<longleftrightarrow> \<not> page_used s (of_nat k)" for k
  proof -
    have "k \<le> i \<and> i < k + 1 \<longleftrightarrow> i = k" for i by auto
    then show ?thesis by (simp add: free_run_def)
  qed
  note q = q(1) less_le_trans [OF less_add_one q(2)] q(3) [unfolded one_run] and least = least [unfolded one_run]
  note idx = page_index [OF res q(2)]
  have fr: "frame s q \<inter> bitmap_bytes s = {}" by (rule unused_frame [OF res idx(3)]) (rule q(3))
  have step0: "vm_step s t0" by (simp add: vm_step_def t0 take_run_def)
  note same0 = vm_step_same [OF step0]
  define t where "t = t0\<lparr>mem := snd (memset (page_va s q) 0 PAGE_SIZE (mem t0))\<rparr>"
  have step: "vm_step s t" using step0 vm_step_trans vm_step_mem unfolding t_def by blast
  have "of_nat q * PAGE_SIZE \<noteq> 0" using q(1) idx(3) by (rule page_addr_nonzero)
  then have "pmm_calloc 1 s = Some (of_nat q * PAGE_SIZE, t)"
    using alloc same0(1) by (simp add: pmm_calloc_def t_def page_va_def PHYS_TO_VIRT_def)
  moreover have mem_t: "mem t a = (if a \<in> frame s q then 0 else mem t0 a)" for a
    by (simp add: t_def memset_apply frame_def)
  have out0: "mem t0 a = mem s a" if "a \<notin> bitmap_bytes s" for a
  proof -
    have "a \<noteq> bitmap_byte (pmm_bitmap s) j" if "of_nat q \<le> j" "j < of_nat (q + 1)" for j
    proof -
      have "unat (of_nat (q + 1) :: u64) = q + 1"
        using idx(3) by (intro unat_of_nat_u64) simp
      then have "unat j = q" using that idx(1) by (simp only: word_le_nat_alt word_less_nat_alt)
      then have "bitmap_byte (pmm_bitmap s) j \<in> bitmap_bytes s" using q(2) by (intro bitmap_byte_own) simp
      with \<open>a \<notin> bitmap_bytes s\<close> show ?thesis by auto
    qed
    then show ?thesis
      unfolding t0 take_run_def by (simp del: of_nat_add add: bitmap_set_range_outside)
  qed
  have "mem t a = mem s a" if "a \<notin> frame s q" "a \<notin> bitmap_bytes s" for a
    using that by (simp add: mem_t out0)
  moreover have "mem t a = 0" if "a \<in> frame s q" for a using that by (simp add: mem_t)
  moreover have used0: "page_used t i = page_used t0 i" if "unat i < bit_count t0" for i
    by (rule page_used_outside [OF _ that])
       (use fr same0 in \<open>auto simp: t_def memset_apply frame_def [symmetric]\<close>)
  moreover have used: "page_used t i \<longleftrightarrow> i = of_nat q \<or> page_used s i" if "unat i < bit_count s" for i
    using page_used_take_run [of q 1 s i] idx(3) that used0 [of i] same0(4)
    by (auto simp: t0 word_unat_eq_iff idx(1))
  moreover have "pmm_inv t"
    using inv(1) inv0(1) used [of 0] bit_count_positive [OF inv(1)] vm_step_same(9) [OF step] same0(9)
    by (simp add: pmm_inv_def) (simp add: t_def)
  moreover have "\<not> locked (pmm_lock t)" using inv0(2) by (simp add: t_def)
  moreover have "room_ahead t n"
    by (rule room_ahead_cong [OF _ _ _ used0 room0]) (use count same0(4) in \<open>simp_all add: t_def\<close>)
  ultimately show ?thesis using step q least by (intro that [of q t]) blast+
qed

section \<open>Walking and extending the tree\<close>

text \<open>A page in use that is no table: its bytes belong to whoever allocated it.\<close>

definition data_page :: "'a pmm_scheme \<Rightarrow> nat \<Rightarrow> nat \<Rightarrow> bool" where
  "data_page s root q \<longleftrightarrow> table_page s q \<and> (\<forall>path. path_ok path \<longrightarrow> tab s root path \<noteq> Some q)"

text \<open>
  What an operation on the tables may change: the tables a path leads to stay, and so do
  every translation, every page in use and the bytes of every page that is no table.
\<close>

definition extends :: "nat \<Rightarrow> 'a pmm_scheme \<Rightarrow> 'a pmm_scheme \<Rightarrow> bool" where
  "extends root s t \<longleftrightarrow> vm_step s t \<and> vm_inv t root \<and>
     (\<forall>path p. path_ok path \<and> tab s root path = Some p \<longrightarrow> tab t root path = Some p) \<and>
     (\<forall>i path. path_ok path \<and> length path = 3 \<and> i < 512 \<longrightarrow> leaf t root (i # path) = leaf s root (i # path)) \<and>
     (\<forall>k. unat k < bit_count s \<and> page_used s k \<longrightarrow> page_used t k) \<and>
     (\<forall>q. data_page s root q \<longrightarrow> data_page t root q \<and> (\<forall>a \<in> frame s q. mem t a = mem s a))"

lemma extends_refl: "vm_inv s root \<Longrightarrow> extends root s s"
  by (simp add: extends_def vm_step_refl)

lemma extends_trans: "extends root s t \<Longrightarrow> extends root t u \<Longrightarrow> extends root s u"
proof -
  assume a: "extends root s t" and b: "extends root t u"
  have "vm_step s u" using a b vm_step_trans unfolding extends_def by blast
  moreover have "tab u root path = Some p" if "path_ok path" "tab s root path = Some p" for path p
    using a b that unfolding extends_def by blast
  moreover have "leaf u root (i # path) = leaf s root (i # path)"
    if "path_ok path" "length path = 3" "i < 512" for i path
  proof -
    have "leaf u root (i # path) = leaf t root (i # path)" using b that unfolding extends_def by blast
    also have "\<dots> = leaf s root (i # path)" using a that unfolding extends_def by blast
    finally show ?thesis .
  qed
  moreover have "vm_inv u root" using b unfolding extends_def by blast
  moreover have "page_used u k" if "unat k < bit_count s" "page_used s k" for k
  proof -
    have "page_used t k" using a that unfolding extends_def by blast
    moreover have "bit_count t = bit_count s" using a vm_step_same(4) unfolding extends_def by blast
    ultimately show ?thesis using b that(1) unfolding extends_def by auto
  qed
  moreover have "data_page u root q \<and> (\<forall>a \<in> frame s q. mem u a = mem s a)" if "data_page s root q" for q
  proof -
    have "data_page t root q" "\<forall>a \<in> frame s q. mem t a = mem s a" using a that unfolding extends_def by blast+
    moreover have "frame t q = frame s q" using a vm_step_same(7) unfolding extends_def by metis
    ultimately show ?thesis using b unfolding extends_def by (metis (no_types))
  qed
  ultimately show ?thesis unfolding extends_def by blast
qed

lemma path_ok_Cons: "path_ok path \<Longrightarrow> length path \<le> 2 \<Longrightarrow> i < 512 \<Longrightarrow> path_ok (i # path)"
  by (auto simp: path_ok_def)

lemma path_ok_tl: "path_ok (i # path) \<Longrightarrow> path_ok path \<and> i < 512"
  by (auto simp: path_ok_def)

lemma entry_cong:
  assumes "vm_step s t" and "i < 512" and "\<And>a. a \<in> region (cell s p i) 8 \<Longrightarrow> mem t a = mem s a"
  shows "entry t p i = entry s p i"
  unfolding entry_def vm_step_same(8) [OF assms(1)] by (rule read64_cong) (rule assms(3))

text \<open>If no entry of the tables changed, neither did the tree.\<close>

lemma tab_cong:
  assumes "\<And>path p i. path_ok path \<Longrightarrow> length path \<le> 2 \<Longrightarrow> tab s root path = Some p \<Longrightarrow> i < 512 \<Longrightarrow>
      entry t p i = entry s p i"
  shows "path_ok path \<Longrightarrow> tab t root path = tab s root path"
proof (induction path)
  case (Cons i path)
  have path: "path_ok path" "i < 512" "length path \<le> 2"
    using Cons.prems by (auto simp: path_ok_def)
  show ?case
  proof (cases "tab s root path")
    case (Some p)
    with assms [OF path(1,3) Some path(2)] Cons.IH [OF path(1)] show ?thesis by simp
  qed (use Cons.IH [OF path(1)] in simp)
qed simp

lemma vm_inv_table:
  assumes "vm_inv s root" and "path_ok path" and "tab s root path = Some p"
  shows "table_page s p"
  using assms by (auto simp: vm_inv_def tables_ok_def)

lemma vm_inv_path:
  assumes "vm_inv s root" and "path_ok path" and "tab s root path = Some p"
    and "path_ok path'" and "tab s root path' = Some p"
  shows "path = path'"
  using assms unfolding vm_inv_def tables_ok_def by blast

lemma cell_nonzero:
  assumes "vm_inv s root" and "0 < p" and "p < 2 ^ 34" and "i < 512"
  shows "cell s p i \<noteq> 0"
proof -
  let ?k = "p * 4096 + i * 8"
  have k: "?k < 2 ^ 46" using assms(3,4) by simp
  then have u: "unat (of_nat ?k :: u64) = ?k" by (intro unat_of_nat_u64) simp
  have "cell s p i = hhdm_offset s + of_nat ?k" by (simp add: cell_def page_va_offset add.assoc)
  moreover have "unat (hhdm_offset s) + unat (of_nat ?k :: u64) < 2 ^ LENGTH(64)"
    using k assms(1) unfolding u by (simp add: vm_inv_def)
  ultimately have "unat (cell s p i) = unat (hhdm_offset s) + ?k" by (metis u unat_add_lem)
  then show ?thesis using assms(2) by auto
qed

lemma page_va_nonzero: "vm_inv s root \<Longrightarrow> 0 < p \<Longrightarrow> p < 2 ^ 34 \<Longrightarrow> page_va s p \<noteq> 0"
  using cell_nonzero [of s root p 0] by (simp add: cell_def)

lemma table_cell_nonzero: "vm_inv s root \<Longrightarrow> table_page s p \<Longrightarrow> i < 512 \<Longrightarrow> cell s p i \<noteq> 0"
  by (rule cell_nonzero) (auto simp: table_page_def vm_inv_def)

lemma table_page_nonzero:
  assumes "vm_inv s root" and "path_ok path" and "tab s root path = Some p"
  shows "page_va s p \<noteq> 0"
  using table_cell_nonzero [OF assms(1) vm_inv_table [OF assms], of 0] by (simp add: cell_def)

lemma bitmap_reserved_cong:
  assumes "bitmap_reserved s" and "vm_step s t" and "\<And>i. unat i < bit_count s \<Longrightarrow> page_used s i \<Longrightarrow> page_used t i"
  shows "bitmap_reserved t"
proof -
  note same = vm_step_same [OF assms(2)]
  show ?thesis
    using assms(1,3) page_index(2) [OF assms(1)] unfolding bitmap_reserved_def same by blast
qed

lemma vm_inv_used_cong:
  assumes "vm_inv s root" and "vm_step s t" and "pmm_inv t" and "\<not> locked (pmm_lock t)"
    and "\<And>i. unat i < bit_count s \<Longrightarrow> page_used s i \<Longrightarrow> page_used t i" and "tables_ok t root"
  shows "vm_inv t root"
proof -
  have "bitmap_reserved t"
    by (rule bitmap_reserved_cong [OF _ assms(2,5)]) (use assms(1) in \<open>auto simp: vm_inv_def\<close>)
  then show ?thesis using assms by (simp add: vm_inv_def vm_step_same [OF assms(2)])
qed

definition new_entry :: "nat \<Rightarrow> u64" where
  "new_entry q = of_nat q * PAGE_SIZE OR (PTE_PRESENT OR PTE_WRITABLE OR PTE_USER)"

lemma new_entry_fields:
  assumes "q < 2 ^ 40"
  shows "present (new_entry q)" and "pte_page (new_entry q) = q"
  using pte_fields(2) [OF phys_ok_page [OF assms] table_flags_ok] pte_page_new [OF assms table_flags_ok]
  by (simp_all add: new_entry_def present_def)

lemma new_table:
  assumes inv: "vm_inv s root" and path: "path_ok path" "length path \<le> 2" "tab s root path = Some p"
    and i: "i < 512" and absent: "\<not> present (entry s p i)"
    and step: "vm_step s t1" and inv1: "pmm_inv t1" "\<not> locked (pmm_lock t1)"
    and q: "0 < q" "q < bit_count s" "\<not> page_used s (of_nat q)"
    and frame_out: "\<And>a. a \<notin> frame s q \<Longrightarrow> a \<notin> bitmap_bytes s \<Longrightarrow> mem t1 a = mem s a"
    and zero: "\<And>a. a \<in> frame s q \<Longrightarrow> mem t1 a = 0"
    and used1: "\<And>k. unat k < bit_count s \<Longrightarrow> page_used t1 k \<longleftrightarrow> k = of_nat q \<or> page_used s k"
    and room1: "room_ahead t1 n"
    and t: "t = t1\<lparr>mem := write64 (cell s p i) (new_entry q) (mem t1)\<rparr>"
  shows "extends root s t" and "tab t root (i # path) = Some q" and "room_ahead t n"
proof -
  have pinv: "pmm_inv s" and res: "bitmap_reserved s" and lim: "bit_count s \<le> 2 ^ 34"
    using inv by (auto simp: vm_inv_def)
  have step_t: "vm_step s t" unfolding t by (rule vm_step_trans [OF step vm_step_mem])
  note same = vm_step_same [OF step_t]
  have tp: "table_page s p" by (rule vm_inv_table [OF inv path(1,3)])
  have q_frame: "frame s q \<inter> bitmap_bytes s = {}"
    by (rule unused_frame [OF res page_index(3) [OF res q(2)]]) (rule q(3))
  have table: "p' \<noteq> q \<and> frame s p' \<inter> frame s q = {} \<and> frame s p' \<inter> bitmap_bytes s = {}"
    if "table_page s p'" for p'
  proof -
    have "p' \<noteq> q" using that q(3) by (auto simp: table_page_def)
    moreover have "p' < 2 ^ 52" "q < 2 ^ 52"
      using that page_index(3) [OF res] q(2) by (auto simp: table_page_def)
    ultimately show ?thesis using that frames_disjoint by (auto simp: table_page_def)
  qed
  have cell_p: "region (cell s p i) 8 \<subseteq> frame s p" by (rule cell_in_frame [OF i])
  have entry_p: "entry t p i = new_entry q"
    unfolding entry_def same by (simp add: t read64_write64_same)
  have entry_q: "entry t q j = 0" if "j < 512" for j
    unfolding entry_def same
  proof (rule read64_zero)
    fix a assume "a \<in> region (cell s q j) 8"
    then have a: "a \<in> frame s q" using cell_in_frame [OF that] by blast
    then have "a \<notin> region (cell s p i) 8" using table [OF tp] cell_p by blast
    then show "mem t a = 0" using zero [OF a] by (simp add: t write64_outside)
  qed
  have entry_other: "entry t p' j = entry s p' j"
    if p': "table_page s p'" and j: "j < 512" and ne: "p' \<noteq> p \<or> j \<noteq> i" for p' j
  proof (rule entry_cong [OF step_t j])
    fix a assume a: "a \<in> region (cell s p' j) 8"
    then have fr: "a \<in> frame s p'" using cell_in_frame [OF j] by blast
    have "a \<notin> region (cell s p i) 8"
    proof (cases "p' = p")
      case True
      with ne have "j \<noteq> i" by simp
      with cells_disjoint [OF this j i, of s p] a True show ?thesis by blast
    next
      case False
      have "frame s p' \<inter> frame s p = {}"
        using False p' tp page_index(3) [OF res] by (intro frames_disjoint) (auto simp: table_page_def)
      with fr cell_p show ?thesis by blast
    qed
    moreover have "mem t1 a = mem s a" using fr table [OF p'] by (intro frame_out) auto
    ultimately show "mem t a = mem s a" by (simp add: t write64_outside)
  qed
  have tab_none: "tab s root (i # path) = None" using path(3) absent by simp
  have path': "path_ok (i # path)" by (rule path_ok_Cons [OF path(1,2) i])
  have tab_t: "tab t root \<pi> = (if \<pi> = i # path then Some q else tab s root \<pi>)" if "path_ok \<pi>" for \<pi>
    using that
  proof (induction \<pi>)
    case (Cons j \<rho>)
    have \<rho>: "path_ok \<rho>" "j < 512" using path_ok_tl [OF Cons.prems] by auto
    note IH = Cons.IH [OF \<rho>(1)]
    show ?case
    proof (cases "\<rho> = i # path")
      case True
      with IH tab_none entry_q [OF \<rho>(2)] show ?thesis by (simp add: present_def)
    next
      case False
      show ?thesis
      proof (cases "tab s root \<rho>")
        case None
        with False IH path(3) show ?thesis by auto
      next
        case (Some p')
        have tp': "table_page s p'" by (rule vm_inv_table [OF inv \<rho>(1) Some])
        show ?thesis
        proof (cases "p' = p \<and> j = i")
          case True
          then have "\<rho> = path" using vm_inv_path [OF inv \<rho>(1) Some path(1)] path(3) by simp
          with True IH False path(3) entry_p new_entry_fields [of q] q(2) lim show ?thesis by simp
        next
          case False
          then have "entry t p' j = entry s p' j" by (intro entry_other [OF tp' \<rho>(2)]) auto
          moreover have "j # \<rho> \<noteq> i # path" using False Some path(3) by auto
          moreover have "tab t root \<rho> = Some p'" using IH Some \<open>\<rho> \<noteq> i # path\<close> by simp
          ultimately show ?thesis using Some by (simp only: if_False tab.simps option.case)
        qed
      qed
    qed
  qed simp
  then show "tab t root (i # path) = Some q" using path' by (simp del: tab.simps)
  have leaf_t: "leaf t root (j # \<rho>) = leaf s root (j # \<rho>)"
    if \<rho>: "path_ok \<rho>" "length \<rho> = 3" "j < 512" for j \<rho>
  proof (cases "\<rho> = i # path")
    case True
    then show ?thesis using tab_t [OF \<rho>(1)] tab_none entry_q [OF \<rho>(3)] by (simp add: present_def)
  next
    case False
    show ?thesis
    proof (cases "tab s root \<rho>")
      case None
      with False tab_t [OF \<rho>(1)] show ?thesis by simp
    next
      case (Some p')
      have "p' \<noteq> p" using vm_inv_path [OF inv \<rho>(1) Some path(1)] path(2,3) \<rho>(2) by auto
      then have "entry t p' j = entry s p' j"
        using vm_inv_table [OF inv \<rho>(1) Some] \<rho>(3) by (intro entry_other) auto
      with False Some tab_t [OF \<rho>(1)] show ?thesis by simp
    qed
  qed
  have used_t1: "page_used t k = page_used t1 k" if "unat k < bit_count t1" for k
  proof (rule page_used_outside [OF _ that])
    fix a assume "a \<in> bitmap_bytes t1"
    then have "a \<notin> region (cell s p i) 8" using table [OF tp] cell_p vm_step_same(5) [OF step] by auto
    then show "mem t a = mem t1 a" by (simp add: t write64_outside)
  qed (simp add: t)
  show "room_ahead t n"
    by (rule room_ahead_cong [OF _ _ _ used_t1 room1]) (use lim vm_step_same(4) [OF step] in \<open>simp_all add: t\<close>)
  have used: "page_used t k \<longleftrightarrow> k = of_nat q \<or> page_used s k" if k: "unat k < bit_count s" for k
    using used_t1 [of k] used1 [OF k] k vm_step_same(4) [OF step] by simp
  have "table_page t p'" if "path_ok \<pi>" "tab t root \<pi> = Some p'" for \<pi> p'
  proof (cases "\<pi> = i # path")
    case True
    then show ?thesis
      using that tab_t [OF that(1)] q(1,2) q_frame used [OF page_index(2) [OF res q(2)]] by (simp add: table_page_def same)
  next
    case False
    then have "table_page s p'" using that tab_t [OF that(1)] vm_inv_table [OF inv that(1)] by simp
    then show ?thesis using used [OF page_index(2) [OF res]] by (simp add: table_page_def same)
  qed
  moreover have "\<pi> = \<pi>'" if "path_ok \<pi>" "path_ok \<pi>'" "tab t root \<pi> = Some p'" "tab t root \<pi>' = Some p'" for \<pi> \<pi>' p'
  proof -
    have fresh: "tab s root \<sigma> \<noteq> Some q" if "path_ok \<sigma>" for \<sigma>
      using vm_inv_table [OF inv that] table by blast
    show ?thesis
      using that tab_t [OF that(1)] tab_t [OF that(2)] fresh [OF that(1)] fresh [OF that(2)]
        vm_inv_path [OF inv that(1) _ that(2)] by (auto split: if_splits)
  qed
  ultimately have tables: "tables_ok t root" unfolding tables_ok_def by blast
  have "pmm_inv t"
    using inv1(1) used [of 0] pinv bit_count_positive [OF pinv] same(9) vm_step_same(9) [OF step]
    by (simp add: pmm_inv_def) (simp add: t)
  then have "vm_inv t root"
    by (rule vm_inv_used_cong [OF inv step_t _ _ _ tables]) (use inv1(2) used t in auto)
  moreover have "data_page t root r \<and> (\<forall>a \<in> frame s r. mem t a = mem s a)" if r: "data_page s root r" for r
  proof -
    have tr: "table_page s r" "r \<noteq> q" "r \<noteq> p" using r table path unfolding data_page_def by auto
    then have apart: "frame s r \<inter> frame s p = {}"
      using tp page_index(3) [OF res] by (intro frames_disjoint) (auto simp: table_page_def)
    have "mem t a = mem t1 a" if "a \<in> frame s r" for a
    proof -
      have "a \<notin> region (cell s p i) 8" using that apart cell_p by blast
      then show ?thesis by (simp add: t write64_outside)
    qed
    moreover have "mem t1 a = mem s a" if "a \<in> frame s r" for a
      using that table [OF tr(1)] by (intro frame_out) auto
    moreover have "data_page t root r"
      using r tr(2) tab_t used [OF page_index(2) [OF res]] unfolding data_page_def table_page_def same by auto
    ultimately show ?thesis by simp
  qed
  moreover have "tab t root \<pi> = Some p'" if "path_ok \<pi>" "tab s root \<pi> = Some p'" for \<pi> p'
    using that tab_t [OF that(1)] tab_none by auto
  moreover have "page_used t k" if "unat k < bit_count s" "page_used s k" for k using that used by blast
  ultimately show "extends root s t" using step_t leaf_t unfolding extends_def by blast
qed

lemma get_next_level_spec:
  assumes "vm_inv s root" and "path_ok path" and "length path \<le> 2" and "tab s root path = Some p" and "i < 512"
    and room: "room_ahead s (Suc n)"
  obtains q t where "get_next_level (page_va s p) (of_nat i) True s = Some (page_va t q, t)" and "extends root s t"
    and "page_va t q \<noteq> 0" and "tab t root (i # path) = Some q"
    and "tab s root (i # path) \<noteq> None \<Longrightarrow> t = s" and "room_ahead t n"
proof -
  have path': "path_ok (i # path)" by (rule path_ok_Cons [OF assms(2,3,5)])
  have e: "read64 (mem s) (pte_at (page_va s p) (of_nat i)) = entry s p i"
    by (simp add: entry_def pte_at_cell)
  have pinv: "pmm_inv s" "\<not> locked (pmm_lock s)" "bitmap_reserved s" using assms(1) by (auto simp: vm_inv_def)
  show ?thesis
  proof (cases "present (entry s p i)")
    case True
    let ?q = "pte_page (entry s p i)"
    have tab_q: "tab s root (i # path) = Some ?q" using assms(4) True by simp
    have addr: "PHYS_TO_VIRT s (PTE_GET_ADDR (entry s p i)) = page_va s ?q"
      by (simp add: page_va_def pte_page_addr)
    have "page_va s ?q \<noteq> 0" by (rule table_page_nonzero [OF assms(1) path' tab_q])
    then show ?thesis
      using e True addr tab_q extends_refl [OF assms(1)] room_ahead_mono [OF room, of n]
      by (intro that [of s ?q]) (auto simp: get_next_level_def present_def)
  next
    case False
    then have none: "tab s root (i # path) = None" using assms(4) by simp
    have absent: "read64 (mem s) (pte_at (page_va s p) (of_nat i)) AND PTE_PRESENT = 0"
      using False e by (simp add: present_def)
    obtain t1 q where c: "pmm_calloc 1 s = Some (of_nat q * PAGE_SIZE, t1)" "vm_step s t1"
      "pmm_inv t1" "\<not> locked (pmm_lock t1)" "0 < q" "q < bit_count s" "\<not> page_used s (of_nat q)"
      "\<And>a. a \<notin> frame s q \<Longrightarrow> a \<notin> bitmap_bytes s \<Longrightarrow> mem t1 a = mem s a"
      "\<And>a. a \<in> frame s q \<Longrightarrow> mem t1 a = 0"
      "\<And>k. unat k < bit_count s \<Longrightarrow> page_used t1 k \<longleftrightarrow> k = of_nat q \<or> page_used s k" "room_ahead t1 n"
      by (rule calloc_page [OF pinv room]) (rule that)
    define t where "t = t1\<lparr>mem := write64 (cell s p i) (new_entry q) (mem t1)\<rparr>"
    have new: "extends root s t" "tab t root (i # path) = Some q" "room_ahead t n"
      by (rule new_table [OF assms(1-5) False c(2-11) t_def]; assumption)+
    have nz: "of_nat q * PAGE_SIZE \<noteq> 0" using c(5) page_index(3) [OF pinv(3) c(6)] by (rule page_addr_nonzero)
    have "page_va t q = PHYS_TO_VIRT t1 (of_nat q * PAGE_SIZE)"
      by (simp add: page_va_def PHYS_TO_VIRT_def t_def)
    then have "get_next_level (page_va s p) (of_nat i) True s = Some (page_va t q, t)"
      using absent c(1) nz by (simp add: get_next_level_def pte_at_cell t_def new_entry_def)
    moreover have "page_va t q \<noteq> 0"
    proof (rule table_page_nonzero [OF _ path' new(2)])
      show "vm_inv t root" using new(1) by (simp add: extends_def)
    qed
    ultimately show ?thesis
      by (intro that [of t q]) (use new none in \<open>auto simp del: tab.simps\<close>)
  qed
qed

lemma unat_index: "unat (w AND 0x1ff :: u64) < 512"
proof -
  have "w AND 0x1ff = w mod 512"
    using take_bit_eq_mask [of 9 w] take_bit_eq_mod [of 9 w] by (simp add: mask_eq_exp_minus_1)
  then show ?thesis by (simp add: unat_mod)
qed

lemma get_next_level_index:
  assumes "vm_inv s root" and "path_ok path" and "length path \<le> 2" and "tab s root path = Some p"
    and "room_ahead s (Suc n)"
  obtains q t where "get_next_level (page_va s p) (w AND 0x1ff) True s = Some (page_va t q, t)" and "extends root s t"
    and "page_va t q \<noteq> 0" and "tab t root (unat (w AND 0x1ff) # path) = Some q"
    and "tab s root (unat (w AND 0x1ff) # path) \<noteq> None \<Longrightarrow> t = s" and "room_ahead t n"
proof -
  have idx: "of_nat (unat (w AND 0x1ff)) = w AND 0x1ff" by simp
  show ?thesis by (rule get_next_level_spec [OF assms(1-4) unat_index [of w] assms(5), unfolded idx]) (rule that)
qed

lemma va_path_ok: "path_ok (tl (va_path va))" "length (tl (va_path va)) = 3" "hd (va_path va) < 512"
  by (simp_all add: va_path_def path_ok_def unat_index)

text \<open>With room for the three tables a walk may need, it arrives.\<close>

lemma virt_to_pte_spec:
  assumes "vm_inv s root" and room: "room_ahead s (n + 3)"
  obtains p t where "virt_to_pte (page_va s root) va s = Some (cell t p (hd (va_path va)), t)" and "extends root s t"
    and "tab t root (tl (va_path va)) = Some p" and "cell t p (hd (va_path va)) \<noteq> 0"
    and "tab s root (tl (va_path va)) \<noteq> None \<Longrightarrow> t = s" and "room_ahead t n"
proof -
  let ?i4 = "unat (drop_bit 39 va AND 0x1ff)" and ?i3 = "unat (drop_bit 30 va AND 0x1ff)"
    and ?i2 = "unat (drop_bit 21 va AND 0x1ff)" and ?i1 = "unat (drop_bit 12 va AND 0x1ff)"
  have path: "va_path va = [?i1, ?i2, ?i3, ?i4]" by (simp add: va_path_def)
  have len: "length [] \<le> 2" "length [?i4] \<le> 2" "length [?i3, ?i4] \<le> 2" and nil: "tab s root [] = Some root"
    by simp_all
  have ok: "path_ok []" "path_ok [?i4]" "path_ok [?i3, ?i4]" "path_ok [?i2, ?i3, ?i4]"
    by (simp_all add: path_ok_def unat_index)
  have prefix: "tab s root [?i4] \<noteq> None" "tab s root [?i3, ?i4] \<noteq> None"
    if "tab s root [?i2, ?i3, ?i4] \<noteq> None"
    using that by (auto split: option.splits if_splits)
  have room3: "room_ahead s (Suc (Suc (Suc n)))" using room by (simp add: numeral_3_eq_3)
  obtain p3 s3 where 3: "get_next_level (page_va s root) (drop_bit 39 va AND 0x1ff) True s = Some (page_va s3 p3, s3)"
      "extends root s s3" "page_va s3 p3 \<noteq> 0" "tab s3 root [?i4] = Some p3"
      "tab s root [?i4] \<noteq> None \<Longrightarrow> s3 = s" "room_ahead s3 (Suc (Suc n))"
    by (rule get_next_level_index [OF assms(1) ok(1) len(1) nil room3]) (rule that)
  have inv3: "vm_inv s3 root" using 3(2) by (simp add: extends_def)
  obtain p2 s2 where 2: "get_next_level (page_va s3 p3) (drop_bit 30 va AND 0x1ff) True s3 = Some (page_va s2 p2, s2)"
      "extends root s3 s2" "page_va s2 p2 \<noteq> 0" "tab s2 root [?i3, ?i4] = Some p2"
      "tab s3 root [?i3, ?i4] \<noteq> None \<Longrightarrow> s2 = s3" "room_ahead s2 (Suc n)"
    by (rule get_next_level_index [OF inv3 ok(2) len(2) 3(4,6)]) (rule that)
  have inv2: "vm_inv s2 root" using 2(2) by (simp add: extends_def)
  obtain p1 s1 where 1: "get_next_level (page_va s2 p2) (drop_bit 21 va AND 0x1ff) True s2 = Some (page_va s1 p1, s1)"
      "extends root s2 s1" "page_va s1 p1 \<noteq> 0" "tab s1 root [?i2, ?i3, ?i4] = Some p1"
      "tab s2 root [?i2, ?i3, ?i4] \<noteq> None \<Longrightarrow> s1 = s2" "room_ahead s1 n"
    by (rule get_next_level_index [OF inv2 ok(3) len(3) 2(4,6)]) (rule that)
  have s1: "extends root s s1" using 3(2) 2(2) 1(2) extends_trans by metis
  have inv1: "vm_inv s1 root" using s1 by (simp add: extends_def)
  from vm_inv_table [OF inv1 ok(4) 1(4)] have nz: "cell s1 p1 ?i1 \<noteq> 0"
    by (rule table_cell_nonzero [OF inv1]) (rule unat_index)
  have "pte_at (page_va s1 p1) (drop_bit 12 va AND 0x1ff) = cell s1 p1 ?i1"
    using pte_at_cell [of s1 p1 ?i1] by simp
  then have "virt_to_pte (page_va s root) va s = Some (cell s1 p1 ?i1, s1)"
    using 3(1,3) 2(1,3) 1(1,3) by (simp add: virt_to_pte_def Let_def)
  then show ?thesis
    using s1 1(4,6) nz 3(5) 2(5) 1(5) prefix by (intro that [of s1 p1]) (auto simp: path simp del: tab.simps)
qed

section \<open>Mapping and translating under the lock\<close>

text \<open>The tables do not depend on the lock of an address space or on the flags.\<close>

lemma tab_same:
  "mem t = mem s \<Longrightarrow> hhdm_offset t = hhdm_offset s \<Longrightarrow> tab t root path = tab s root path"
  by (induction path) (simp_all add: entry_def cell_def page_va_def PHYS_TO_VIRT_def split: option.splits)

lemma leaf_same:
  "mem t = mem s \<Longrightarrow> hhdm_offset t = hhdm_offset s \<Longrightarrow> leaf t root path = leaf s root path"
  by (cases path) (simp_all add: tab_same [of t s] entry_def cell_def page_va_def PHYS_TO_VIRT_def split: option.splits)

lemma vm_inv_same:
  assumes "mem t = mem s" and "hhdm_offset t = hhdm_offset s" and "pmm_bitmap t = pmm_bitmap s"
    and "last_page_idx t = last_page_idx s" and "pmm_lock t = pmm_lock s"
  shows "vm_inv t root = vm_inv s root"
proof -
  have sl: "search_limit t = search_limit s" "bit_count t = bit_count s" "bitmap_bytes t = bitmap_bytes s"
    by (simp_all add: search_limit_def bit_count_def bitmap_bytes_def assms(3))
  have fr: "frame t = frame s" by (simp add: fun_eq_iff frame_def page_va_def PHYS_TO_VIRT_def assms(2))
  have us: "page_used t = page_used s" unfolding page_used_def assms(1,3) ..
  have tb: "tab t root = tab s root" using tab_same [OF assms(1,2)] by auto
  show ?thesis
    unfolding vm_inv_def pmm_inv_def bitmap_reserved_def tables_ok_def table_page_def sl fr us tb assms(2,4,5) ..
qed

lemma room_ahead_same:
  "mem t = mem s \<Longrightarrow> pmm_bitmap t = pmm_bitmap s \<Longrightarrow> last_page_idx t = last_page_idx s \<Longrightarrow>
     room_ahead t n = room_ahead s n"
  by (simp add: room_ahead_def bit_count_def free_run_def page_used_def)

definition held :: "u64 \<Rightarrow> 'a vmm_scheme \<Rightarrow> 'a vmm_scheme" where
  "held this s = space_lock_update this
     (\<lambda>_. \<lparr>locked = True, restore_interrupts = interrupts_enabled s\<rparr>) (disable_interrupts s)"

lemma held_same:
  "mem (held this s) = mem s" "hhdm_offset (held this s) = hhdm_offset s"
  "pmm_bitmap (held this s) = pmm_bitmap s" "last_page_idx (held this s) = last_page_idx s"
  "pmm_lock (held this s) = pmm_lock s" "as_pml4 (spaces (held this s) this) = as_pml4 (spaces s this)"
  "rflags (held this s) = unset_bit 9 (rflags s)"
  "space_lock this (held this s) = \<lparr>locked = True, restore_interrupts = interrupts_enabled s\<rparr>"
  by (simp_all add: held_def space_lock_update_def space_lock_def disable_interrupts_def)

lemma vm_step_spaces:
  assumes "vm_step s (t :: 'a vmm_scheme)"
  shows "spaces t = spaces s" and "vmm.more t = vmm.more s"
proof -
  let ?u = "t\<lparr>mem := mem s, last_page_idx := last_page_idx s, pmm_lock := pmm_lock s\<rparr>"
  have u: "?u = s" using assms by (simp add: vm_step_def)
  show "spaces t = spaces s" by (subst u [symmetric]) simp
  show "vmm.more t = vmm.more s" by (subst u [symmetric]) simp
qed

text \<open>Writing an absent entry of a last-level table changes the translation of its path alone.\<close>

lemma write_leaf:
  assumes inv: "vm_inv s root" and path: "path_ok path" "length path = 3" "tab s root path = Some p"
    and i: "i < 512" and t: "t = s\<lparr>mem := write64 (cell s p i) e (mem s)\<rparr>" and e: "present e"
  shows "vm_inv t root" and "leaf t root (i # path) = Some e"
    and "\<And>j \<rho>. path_ok \<rho> \<Longrightarrow> length \<rho> = 3 \<Longrightarrow> j < 512 \<Longrightarrow> j # \<rho> \<noteq> i # path \<Longrightarrow>
      leaf t root (j # \<rho>) = leaf s root (j # \<rho>)"
    and "\<And>k. unat k < bit_count s \<Longrightarrow> page_used t k = page_used s k"
    and "\<And>q. data_page s root q \<Longrightarrow> data_page t root q \<and> (\<forall>a \<in> frame s q. mem t a = mem s a)"
    and "\<And>n. room_ahead s n \<Longrightarrow> room_ahead t n"
proof -
  have pinv: "pmm_inv s" and res: "bitmap_reserved s" and count: "bit_count s \<le> 2 ^ 64"
    using inv by (auto simp: vm_inv_def)
  have step: "vm_step s t" unfolding t by (rule vm_step_mem)
  note same = vm_step_same [OF step]
  have tp: "table_page s p" by (rule vm_inv_table [OF inv path(1,3)])
  have cell_p: "region (cell s p i) 8 \<subseteq> frame s p" by (rule cell_in_frame [OF i])
  have entry_p: "entry t p i = e" unfolding entry_def same by (simp add: t read64_write64_same)
  have entry_other: "entry t p' j = entry s p' j"
    if p': "table_page s p'" and j: "j < 512" and ne: "p' \<noteq> p \<or> j \<noteq> i" for p' j
  proof (rule entry_cong [OF step j])
    fix a assume a: "a \<in> region (cell s p' j) 8"
    have "a \<notin> region (cell s p i) 8"
    proof (cases "p' = p")
      case True
      with ne cells_disjoint [OF _ j i, of s p] a show ?thesis by auto
    next
      case False
      have "frame s p' \<inter> frame s p = {}"
        using False p' tp page_index(3) [OF res] by (intro frames_disjoint) (auto simp: table_page_def)
      with a cell_in_frame [OF j] cell_p show ?thesis by blast
    qed
    then show "mem t a = mem s a" by (simp add: t write64_outside)
  qed
  have tabs: "tab t root \<rho> = tab s root \<rho>" if "path_ok \<rho>" for \<rho>
  proof (rule tab_cong [OF _ that])
    fix \<sigma> p' and j :: nat assume s: "path_ok \<sigma>" "length \<sigma> \<le> 2" "tab s root \<sigma> = Some p'" "j < 512"
    have "p' \<noteq> p" using vm_inv_path [OF inv s(1,3) path(1)] path(2,3) s(2) by auto
    with vm_inv_table [OF inv s(1,3)] s(4) show "entry t p' j = entry s p' j" by (intro entry_other) auto
  qed
  show "leaf t root (i # path) = Some e" using tabs [OF path(1)] path(3) entry_p e by simp
  show "leaf t root (j # \<rho>) = leaf s root (j # \<rho>)"
    if r: "path_ok \<rho>" "length \<rho> = 3" "j < 512" "j # \<rho> \<noteq> i # path" for j \<rho>
  proof (cases "tab s root \<rho>")
    case (Some p')
    have "p' \<noteq> p \<or> j \<noteq> i" using r(4) vm_inv_path [OF inv r(1) Some path(1)] path(3) by auto
    then have "entry t p' j = entry s p' j" by (rule entry_other [OF vm_inv_table [OF inv r(1) Some] r(3)])
    with Some tabs [OF r(1)] show ?thesis by simp
  qed (use tabs [OF r(1)] in simp)
  show used: "page_used t k = page_used s k" if "unat k < bit_count s" for k
  proof (rule page_used_outside [OF _ that])
    fix a assume "a \<in> bitmap_bytes s"
    then have "a \<notin> region (cell s p i) 8" using tp cell_p by (auto simp: table_page_def)
    then show "mem t a = mem s a" by (simp add: t write64_outside)
  qed (simp add: t)
  show "room_ahead t n" if "room_ahead s n" for n
    by (rule room_ahead_cong [OF _ _ count used that]) (simp_all add: t)
  have tp_same: "table_page t p' = table_page s p'" for p'
    using used page_index(2) [OF res] by (auto simp: table_page_def same)
  show "data_page t root q \<and> (\<forall>a \<in> frame s q. mem t a = mem s a)" if q: "data_page s root q" for q
  proof -
    have "q \<noteq> p" "table_page s q" using q path unfolding data_page_def by auto
    then have apart: "frame s q \<inter> frame s p = {}"
      using tp page_index(3) [OF res] by (intro frames_disjoint) (auto simp: table_page_def)
    have "mem t a = mem s a" if "a \<in> frame s q" for a
    proof -
      have "a \<notin> region (cell s p i) 8" using that apart cell_p by blast
      then show ?thesis by (simp add: t write64_outside)
    qed
    moreover have "data_page t root q" using q tabs unfolding data_page_def tp_same by simp
    ultimately show ?thesis by blast
  qed
  have "tables_ok s root" using inv by (simp add: vm_inv_def)
  then have "tables_ok t root" unfolding tables_ok_def tp_same using tabs by metis
  moreover have "pmm_inv t" using pinv used [of 0] bit_count_positive [OF pinv] by (simp add: pmm_inv_def same) (simp add: t)
  ultimately show "vm_inv t root"
    by (intro vm_inv_used_cong [OF inv step]) (use inv used t in \<open>auto simp: vm_inv_def\<close>)
qed


lemma as_map_spec:
  assumes inv: "vm_inv s root" and pml4: "as_pml4 (spaces s this) = page_va s root"
    and lock: "\<not> locked (space_lock this s)" and ok: "phys_ok phys" "flags_ok flags" and room: "room_ahead s (n + 3)"
  obtains t where "as_map this va phys flags s = Some t" and "vm_inv t root"
    and "\<not> locked (space_lock this t)" and "rflags t = rflags s" and "as_pml4 (spaces t this) = page_va t root"
    and "\<And>va'. va_path va' \<noteq> va_path va \<Longrightarrow> translate t root va' = translate s root va'"
    and "\<And>e. translate s root va = Some e \<Longrightarrow> translate t root va = Some e"
    and "translate s root va = None \<Longrightarrow> translate t root va = Some (phys OR flags)"
    and "\<And>k. unat k < bit_count s \<Longrightarrow> page_used s k \<Longrightarrow> page_used t k" and "pmm_bitmap t = pmm_bitmap s"
    and "room_ahead t n"
    and "vmm.more t = vmm.more s" and "hhdm_offset t = hhdm_offset s"
    and "\<And>q. data_page s root q \<Longrightarrow> data_page t root q \<and> (\<forall>a \<in> frame s q. mem t a = mem s a)"
proof -
  note finish = that
  let ?h = "held this s" and ?path = "tl (va_path va)" and ?i = "hd (va_path va)"
  let ?rel = "release (space_lock this) (space_lock_update this)"
  let ?done = "\<lambda>u. space_lock_update this (\<lambda>l. freed_lock s) (u\<lparr>rflags := rflags s\<rparr>)"
  have acq: "acquire (space_lock this) (space_lock_update this) s = Some ?h"
    using lock by (simp add: space_lk.acquire_free held_def)
  have inv_h: "vm_inv ?h root" using inv vm_inv_same [of ?h s root] by (simp add: held_same)
  have split: "va_path v = hd (va_path v) # tl (va_path v)" for v by (simp add: va_path_def)
  have leaf_h: "leaf ?h root \<pi> = leaf s root \<pi>" for \<pi> by (rule leaf_same) (simp_all add: held_same)
  have va_h: "page_va ?h root = page_va s root" by (simp add: page_va_def PHYS_TO_VIRT_def held_same)
  have "room_ahead ?h (n + 3)" using room room_ahead_same [of ?h s] by (simp add: held_same)
  from virt_to_pte_spec [OF inv_h this, of va]
  obtain p u where walk: "virt_to_pte (page_va ?h root) va ?h = Some (cell u p ?i, u)" "extends root ?h u"
    and p: "tab u root ?path = Some p" "cell u p ?i \<noteq> 0" and room_u: "room_ahead u n" by metis
  have step: "vm_step ?h u" and inv_u: "vm_inv u root" using walk(2) by (auto simp: extends_def)
  have leaf_u: "leaf u root (va_path v) = leaf s root (va_path v)" for v
    using walk(2) va_path_ok [of v] unfolding extends_def by (subst (1 2) split) (simp add: leaf_h del: leaf.simps)
  have fin: "?rel (u\<lparr>mem := m\<rparr>) = ?done (u\<lparr>mem := m\<rparr>)" for m
    using vm_step_spaces(1) [OF step] vm_step_same(3) [OF step] held_same(7,8) [of this s]
    by (subst space_lk.release_after [where s = s]) (simp_all add: freed_lock_def space_lock_def)
  have fin_u: "?rel u = ?done u" using fin [of "mem u"] by simp
  have used_h: "page_used ?h = page_used s" "bit_count ?h = bit_count s" "bitmap_bytes ?h = bitmap_bytes s"
    by (simp_all add: page_used_def bit_count_def bitmap_bytes_def held_same fun_eq_iff)
  have data_h: "data_page ?h root q = data_page s root q" "frame ?h = frame s" "mem ?h = mem s" for q
    using tab_same [of ?h s root]
    by (simp_all add: data_page_def table_page_def held_same used_h frame_def page_va_def PHYS_TO_VIRT_def
        fun_eq_iff)
  have data_u: "data_page u root q \<and> (\<forall>a \<in> frame s q. mem u a = mem s a)" if "data_page s root q" for q
    using walk(2) that unfolding extends_def data_h by blast
  have used_u: "page_used u k" if "unat k < bit_count s" "page_used s k" for k
    using walk(2) that unfolding extends_def used_h by blast
  have result: thesis
    if t: "as_map this va phys flags s = Some (?done w)" and w: "vm_step ?h w" "vm_inv w root"
      and other: "\<And>va'. va_path va' \<noteq> va_path va \<Longrightarrow> leaf w root (va_path va') = leaf s root (va_path va')"
      and old: "\<And>e. leaf s root (va_path va) = Some e \<Longrightarrow> leaf w root (va_path va) = Some e"
      and new: "leaf s root (va_path va) = None \<Longrightarrow> leaf w root (va_path va) = Some (phys OR flags)"
      and used: "\<And>k. unat k < bit_count s \<Longrightarrow> page_used s k \<Longrightarrow> page_used w k" and room_w: "room_ahead w n"
      and data: "\<And>q. data_page s root q \<Longrightarrow> data_page w root q \<and> (\<forall>a \<in> frame s q. mem w a = mem s a)" for w
  proof (rule finish [OF t])
    have m: "mem (?done w) = mem w" "hhdm_offset (?done w) = hhdm_offset w" "pmm_bitmap (?done w) = pmm_bitmap w"
      "last_page_idx (?done w) = last_page_idx w" "pmm_lock (?done w) = pmm_lock w"
      by (simp_all add: space_lock_update_def)
    show "vm_inv (?done w) root" using w(2) vm_inv_same [OF m] by simp
    show "\<not> locked (space_lock this (?done w))" by (simp add: space_lock_def space_lock_update_def freed_lock_def)
    show "rflags (?done w) = rflags s" by (simp add: space_lock_update_def)
    have "spaces w = spaces ?h" by (rule vm_step_spaces(1) [OF w(1)])
    then show "as_pml4 (spaces (?done w) this) = page_va (?done w) root"
      using pml4 held_same(6) [of this s] vm_step_same(1) [OF w(1)]
      by (simp add: space_lock_update_def page_va_def PHYS_TO_VIRT_def held_same)
    have lf: "leaf (?done w) root \<pi> = leaf w root \<pi>" for \<pi> by (rule leaf_same [OF m(1,2)])
    show "translate (?done w) root va' = translate s root va'" if "va_path va' \<noteq> va_path va" for va'
      using other [OF that] by (simp add: translate_def lf)
    show "translate (?done w) root va = Some e" if "translate s root va = Some e" for e
      using old that by (simp add: translate_def lf)
    show "translate (?done w) root va = Some (phys OR flags)" if "translate s root va = None"
      using new that by (simp add: translate_def lf)
    show "room_ahead (?done w) n" using room_w room_ahead_same [OF m(1,3,4)] by simp
    show "page_used (?done w) k" if "unat k < bit_count s" "page_used s k" for k
      using used [OF that] by (simp add: page_used_def m)
    show "pmm_bitmap (?done w) = pmm_bitmap s"
      using vm_step_same(2) [OF w(1)] by (simp add: m held_same)
    show "hhdm_offset (?done w) = hhdm_offset s" using vm_step_same(1) [OF w(1)] by (simp add: m held_same)
    have "data_page (?done w) root q = data_page w root q" for q
      using tab_same [OF m(1,2)] by (simp add: data_page_def table_page_def bit_count_def bitmap_bytes_def page_used_def
          frame_def page_va_def PHYS_TO_VIRT_def m)
    then show "data_page (?done w) root q \<and> (\<forall>a \<in> frame s q. mem (?done w) a = mem s a)" if "data_page s root q" for q
      using data [OF that] by (simp add: m)
    have "vmm.more ?h = vmm.more s" by (simp add: held_def space_lock_update_def disable_interrupts_def)
    then show "vmm.more (?done w) = vmm.more s"
      using vm_step_spaces(2) [OF w(1)] by (simp add: space_lock_update_def)
  qed
  have entry: "read64 (mem u) (cell u p ?i) = entry u p ?i" by (simp add: entry_def)
  have leaf_e: "leaf u root (va_path va) = (if present (entry u p ?i) then Some (entry u p ?i) else None)"
    by (subst split) (simp add: p(1))
  show ?thesis
  proof (cases "present (entry u p ?i)")
    case True
    then have "as_map this va phys flags s = Some (?done u)"
      using acq walk(1) p(2) pml4 entry by (simp add: as_map_def held_same va_h fin_u present_def)
    then show ?thesis
      by (rule result [OF _ step inv_u]) (use leaf_u leaf_e True used_u data_u room_u in auto)
  next
    case absent: False
    let ?w = "u\<lparr>mem := write64 (cell u p ?i) (phys OR flags) (mem u)\<rparr>"
    have "present (phys OR flags)" using pte_fields(2) [OF ok] by (simp add: present_def)
    note wl = write_leaf [OF inv_u va_path_ok(1,2) p(1) va_path_ok(3) refl this]
    have "as_map this va phys flags s = Some (?done ?w)"
      using acq walk(1) absent pml4 entry p(2)
      by (simp add: as_map_def held_same va_h fin [symmetric] present_def)
    then show ?thesis
    proof (rule result)
      show "vm_step ?h ?w" by (rule vm_step_trans [OF step vm_step_mem])
      show "vm_inv ?w root" by (rule wl(1))
      show "leaf ?w root (va_path va') = leaf s root (va_path va')" if "va_path va' \<noteq> va_path va" for va'
        using wl(3) [OF va_path_ok [of va']] that leaf_u [of va'] split [of va'] split [of va] by metis
      have "leaf s root (va_path va) = None" using leaf_u leaf_e absent by metis
      then show "\<And>e. leaf s root (va_path va) = Some e \<Longrightarrow> leaf ?w root (va_path va) = Some e" by simp
      show "leaf ?w root (va_path va) = Some (phys OR flags)" using wl(2) by (subst split) simp
      show "page_used ?w k" if "unat k < bit_count s" "page_used s k" for k
        using wl(4) [of k] used_u [OF that] that(1) vm_step_same(4) [OF step] used_h(2) by simp
      show "data_page ?w root q \<and> (\<forall>a \<in> frame s q. mem ?w a = mem s a)" if "data_page s root q" for q
        using data_u [OF that] wl(5) [of q] vm_step_same(7) [OF step] data_h(2) by simp
      show "room_ahead ?w n" by (rule wl(6) [OF room_u])
    qed
  qed
qed


lemma virt_to_phys_spec:
  assumes "vm_inv s root" and "as_pml4 (spaces s this) = page_va s root" and room: "room_ahead s (n + 3)"
  obtains r t where "virt_to_phys this va s = Some (r, t)" and "vm_inv t root"
    and "r = (case translate s root va of Some e \<Rightarrow> PTE_GET_ADDR e | None \<Rightarrow> 0xffffffffffffffff)"
    and "\<And>va'. translate t root va' = translate s root va'" and "room_ahead t n"
proof -
  from virt_to_pte_spec [OF assms(1) room, of va]
  obtain p t where walk: "virt_to_pte (page_va s root) va s = Some (cell t p (hd (va_path va)), t)" "extends root s t"
    "tab t root (tl (va_path va)) = Some p" "cell t p (hd (va_path va)) \<noteq> 0" "room_ahead t n" by metis
  have split: "va_path v = hd (va_path v) # tl (va_path v)" for v by (simp add: va_path_def)
  have same: "translate t root v = translate s root v" for v
    using walk(2) va_path_ok [of v] unfolding extends_def translate_def by (subst (1 2) split) (simp del: leaf.simps)
  let ?e = "entry t p (hd (va_path va))"
  have "virt_to_phys this va s = Some (if present ?e then PTE_GET_ADDR ?e else 0xffffffffffffffff, t)"
    using walk(1,4) assms(2) by (simp add: virt_to_phys_def entry_def present_def)
  moreover have "translate t root va = (if present ?e then Some ?e else None)"
    unfolding translate_def by (subst split) (simp add: walk(3))
  moreover have "vm_inv t root" using walk(2) by (simp add: extends_def)
  ultimately show ?thesis using same [of va] same walk(5) by (intro that) auto
qed

section \<open>The first table\<close>

text \<open>A zeroed page in use is a root under which nothing is mapped.\<close>

lemma empty_table:
  assumes inv: "pmm_inv s" "\<not> locked (pmm_lock s)" "bitmap_reserved s"
    and size: "bit_count s \<le> 2 ^ 34" "unat (hhdm_offset s) + 2 ^ 46 \<le> 2 ^ 64"
    and root: "table_page s root" and zero: "\<And>a. a \<in> frame s root \<Longrightarrow> mem s a = 0"
  shows "vm_inv s root" and "translate s root va = None"
proof -
  have empty: "entry s root i = 0" if "i < 512" for i
    unfolding entry_def by (rule read64_zero) (use zero cell_in_frame [OF that] in blast)
  have tabs: "tab s root path = (if path = [] then Some root else None)" if "path_ok path" for path
    using that
  proof (induction path)
    case (Cons i path)
    have i: "path_ok path" "i < 512" using path_ok_tl [OF Cons.prems] by auto
    with Cons.IH [OF i(1)] empty [OF i(2)] show ?case by (simp add: present_def)
  qed simp
  then have "tables_ok s root" using root by (auto simp: tables_ok_def split: if_splits)
  with inv size show "vm_inv s root" by (simp add: vm_inv_def)
  have "tab s root (tl (va_path va)) = None"
    using tabs [OF va_path_ok(1) [of va]] by (simp add: va_path_def del: tab.simps)
  then show "translate s root va = None" by (simp add: translate_def va_path_def del: tab.simps)
qed

text \<open>
  The page the first request takes after \<open>Pmm::init\<close> becomes such a root, and the room ahead is what
  initialisation left less this page.
\<close>

lemma booted_tables:
  assumes inv: "pmm_inv s" "\<not> locked (pmm_lock s)" "bitmap_reserved s" "room_ahead s (Suc n)"
    and size: "bit_count s \<le> 2 ^ 34" "unat (hhdm_offset s) + 2 ^ 46 \<le> 2 ^ 64"
  obtains q t where "pmm_calloc 1 s = Some (of_nat q * PAGE_SIZE, t)" and "vm_inv t q" and "vm_step s t"
    and "\<And>va. translate t q va = None" and "room_ahead t n" and "0 < q" and "\<not> page_used s (of_nat q)"
    and "\<And>q'. unat (last_page_idx s) \<le> q' \<Longrightarrow> \<not> page_used s (of_nat q') \<Longrightarrow> q \<le> q'"
proof -
  obtain q t where t: "pmm_calloc 1 s = Some (of_nat q * PAGE_SIZE, t)" "vm_step s t"
    "pmm_inv t" "\<not> locked (pmm_lock t)" "0 < q" "q < bit_count s" "\<not> page_used s (of_nat q)"
    "\<And>a. a \<in> frame s q \<Longrightarrow> mem t a = 0" "room_ahead t n"
    and used: "\<And>k. unat k < bit_count s \<Longrightarrow> page_used t k \<longleftrightarrow> k = of_nat q \<or> page_used s k"
    and least: "\<And>q'. unat (last_page_idx s) \<le> q' \<Longrightarrow> \<not> page_used s (of_nat q') \<Longrightarrow> q \<le> q'"
    by (rule calloc_page [OF inv]) (rule that)
  note same = vm_step_same [OF t(2)]
  have res: "bitmap_reserved t" by (rule bitmap_reserved_cong [OF inv(3) t(2)]) (simp add: used)
  have "frame s q \<inter> bitmap_bytes s = {}"
    by (rule unused_frame [OF inv(3) page_index(3) [OF inv(3) t(6)]]) (rule t(7))
  moreover have "page_used t (of_nat q)" using used [OF page_index(2) [OF inv(3) t(6)]] by simp
  ultimately have "table_page t q" using t(5,6) by (simp add: table_page_def same)
  note empty = empty_table [OF t(3,4) res _ _ this]
  have "vm_inv t q" and "translate t q va = None" for va :: u64
    by (rule empty; use size t(8) in \<open>simp add: same\<close>)+
  with t(1,2,5,7,9) least show ?thesis by (intro that)
qed

section \<open>Properties\<close>

text \<open>
  An address space on a machine with two megabytes of memory: the page allocator is initialised from
  the memory map, and the first page it hands out is the root table.
\<close>

definition boot_vmm :: vmm where
  "boot_vmm = \<lparr>mem = (\<lambda>_. 0), rflags = 0x202, hhdm_offset = 0xffff800000000000,
     virtual_base = 0, physical_base = 0,
     pmm_lock = \<lparr>locked = False, restore_interrupts = False\<rparr>,
     pmm_bitmap = \<lparr>bm_data = 0, bm_size = 0\<rparr>, last_page_idx = 0,
     slab_lock = \<lparr>locked = False, restore_interrupts = False\<rparr>,
     slab_8b = 0, slab_16b = 0, slab_32b = 0, slab_64b = 0, slab_128b = 0, slab_256b = 0, slab_512b = 0,
     spaces = (\<lambda>_. \<lparr>as_lock = \<lparr>locked = False, restore_interrupts = False\<rparr>, as_pml4 = 0\<rparr>),
     kernel_space = 0, cr3 = 0\<rparr>"

definition vmm_sample :: vmm where
  "vmm_sample =
     (let s = snd (the (pmm_init boot_memmap boot_vmm));
          (page, t) = the (pmm_calloc 1 s)
      in t\<lparr>spaces := (\<lambda>_. \<lparr>as_lock = \<lparr>locked = False, restore_interrupts = False\<rparr>, as_pml4 = PHYS_TO_VIRT t page\<rparr>)\<rparr>)"

lemma vmm_sample_booted:
  "vm_inv vmm_sample 2 \<and> (\<forall>va. translate vmm_sample 2 va = None) \<and> room_ahead vmm_sample 509 \<and>
   rflags vmm_sample = 0x202 \<and> spaces vmm_sample =
     (\<lambda>_. \<lparr>as_lock = \<lparr>locked = False, restore_interrupts = False\<rparr>, as_pml4 = page_va vmm_sample 2\<rparr>)"
proof -
  have boot: "last_page_idx boot_vmm = 0" "\<not> locked (pmm_lock boot_vmm)" by (simp_all add: boot_vmm_def)
  obtain memmap' s where s: "pmm_init boot_memmap boot_vmm = Some (memmap', s)" "pmm_inv s" "\<not> locked (pmm_lock s)"
    "bitmap_reserved s" "last_page_idx s = 0" "bit_count s = 32768" "room_ahead s 510"
    and used: "\<And>i. unat i < 32768 \<Longrightarrow> page_used s i \<longleftrightarrow> \<not> (2 \<le> unat i \<and> unat i < 512)"
    and "\<exists>m. s = boot_vmm\<lparr>pmm_bitmap := pmm_bitmap s, mem := m\<rparr>"
    by (rule boot_pmm_init [OF boot]) (rule that)
  then obtain m where m: "s = boot_vmm\<lparr>pmm_bitmap := pmm_bitmap s, mem := m\<rparr>" by blast
  have hhdm: "hhdm_offset s = 0xffff800000000000" and flags: "rflags s = 0x202"
    by (subst m, simp add: boot_vmm_def)+
  have room: "room_ahead s (Suc 509)" using s(7) by simp
  obtain q t where t: "pmm_calloc 1 s = Some (of_nat q * PAGE_SIZE, t)" "vm_inv t q" "vm_step s t"
    "\<And>va. translate t q va = None" "room_ahead t 509" "0 < q" "\<not> page_used s (of_nat q)"
    and least: "\<And>q'. unat (last_page_idx s) \<le> q' \<Longrightarrow> \<not> page_used s (of_nat q') \<Longrightarrow> q \<le> q'"
    by (rule booted_tables [OF s(2-4) room]) (simp add: s(6), simp add: hhdm, rule that)
  have "q \<le> 2" using least [of 2] used [of 2] s(5) by simp
  moreover have "q \<noteq> 1" using t(7) used [of 1] by auto
  ultimately have q: "q = 2" using t(6) by simp
  have sample: "vmm_sample = t\<lparr>spaces := (\<lambda>_. \<lparr>as_lock = \<lparr>locked = False, restore_interrupts = False\<rparr>, as_pml4 = page_va t 2\<rparr>)\<rparr>"
    by (simp add: vmm_sample_def s(1) t(1) q page_va_def)
  have same: "mem vmm_sample = mem t" "hhdm_offset vmm_sample = hhdm_offset t" "pmm_bitmap vmm_sample = pmm_bitmap t"
    "last_page_idx vmm_sample = last_page_idx t" "pmm_lock vmm_sample = pmm_lock t" "rflags vmm_sample = rflags t"
    by (simp_all add: sample)
  have va: "page_va vmm_sample 2 = page_va t 2" by (simp add: page_va_def PHYS_TO_VIRT_def same)
  have "vm_inv vmm_sample 2" using t(2) vm_inv_same [OF same(1-5)] q by simp
  moreover have "translate vmm_sample 2 va = None" for va
    using t(4) leaf_same [OF same(1,2)] by (simp add: translate_def q)
  moreover have "room_ahead vmm_sample 509" using t(5) room_ahead_same [OF same(1,3,4)] by simp
  moreover have "rflags vmm_sample = 0x202" using vm_step_same(3) [OF t(3)] flags same(6) by simp
  moreover have "spaces vmm_sample = (\<lambda>_. \<lparr>as_lock = \<lparr>locked = False, restore_interrupts = False\<rparr>, as_pml4 = page_va vmm_sample 2\<rparr>)"
    unfolding va by (simp add: sample)
  ultimately show ?thesis by blast
qed

lemma vmm_sample_inv: "vm_inv vmm_sample 2" "room_ahead vmm_sample 509"
  and vmm_sample_unmapped: "translate vmm_sample 2 va = None"
  and vmm_sample_space: "as_pml4 (spaces vmm_sample 0) = page_va vmm_sample 2" "\<not> locked (space_lock 0 vmm_sample)"
  and vmm_sample_flags: "rflags vmm_sample = 0x202"
  using vmm_sample_booted by (simp_all add: space_lock_def)



text \<open>
  C20: \<open>virt_to_phys\<close> returns the physical page an address translates to, or the all-ones
  value if it is not mapped. It may add tables on its way, for which a run of three free pages that have a
  bit has to lie ahead of the allocator's search, but no translation changes.
\<close>

theorem virt_to_phys_translates:
  assumes "vm_inv s root" and "as_pml4 (spaces s this) = page_va s root" and "room_ahead s (n + 3)"
  shows "\<exists>t. virt_to_phys this va s =
      Some (case translate s root va of Some e \<Rightarrow> PTE_GET_ADDR e | None \<Rightarrow> 0xffffffffffffffff, t) \<and>
    vm_inv t root \<and> room_ahead t n \<and> (\<forall>va'. translate t root va' = translate s root va')"
  by (rule virt_to_phys_spec [OF assms, of va]) blast

theorem virt_to_phys_translates_witness:
  "\<exists>t u. virt_to_phys 0 0x400000 vmm_sample = Some (0xffffffffffffffff, t) \<and>
    as_map 0 0x400000 0x5000 7 vmm_sample = Some u \<and> fst (the (virt_to_phys 0 0x400123 u)) = 0x5000"
proof -
  have ok: "phys_ok 0x5000" "flags_ok 7"
    by (simp_all add: phys_ok_def flags_ok_def PTE_GET_ADDR_def PTE_PRESENT_def)
  have room: "room_ahead vmm_sample (506 + 3)" using vmm_sample_inv(2) by simp
  obtain u where u: "as_map 0 0x400000 0x5000 7 vmm_sample = Some u" "vm_inv u 2" "as_pml4 (spaces u 0) = page_va u 2"
    "translate vmm_sample 2 0x400000 = None \<Longrightarrow> translate u 2 0x400000 = Some (0x5000 OR 7)" "room_ahead u 506"
    by (rule as_map_spec [OF vmm_sample_inv(1) vmm_sample_space ok room, of "0x400000"]) (rule that)
  have "va_path 0x400123 = va_path 0x400000" by (simp add: va_path_def)
  then have e: "translate u 2 0x400123 = Some 0x5007" using u(4) vmm_sample_unmapped by (simp add: translate_def)
  have "room_ahead u (503 + 3)" using u(5) by simp
  from virt_to_phys_translates [OF u(2,3) this, where va = "0x400123"]
  have "fst (the (virt_to_phys 0 0x400123 u)) = 0x5000" by (auto simp: e PTE_GET_ADDR_def)
  moreover have "\<exists>t. virt_to_phys 0 0x400000 vmm_sample = Some (0xffffffffffffffff, t)"
    using virt_to_phys_translates [OF vmm_sample_inv(1) vmm_sample_space(1) room, where va = "0x400000"]
    by (auto simp: vmm_sample_unmapped)
  ultimately show ?thesis using u(1) by blast
qed

end
