(* ===== verification/Keyboard.thy ===== *)
theory Keyboard
  imports Prelude
begin

text \<open>
  The keyboard driver (\<open>src/kernel/drivers/keyboard.cpp\<close>, \<open>keyboard.hpp\<close>) and the key table it
  shares with user programs (\<open>src/libs/core/keyboard.hpp\<close>): scan codes, modifiers, and the event
  each interrupt hands to \<open>Scheduler::wake_io\<close>.
\<close>

section \<open>Keys\<close>

text \<open>
  An enumerator of \<open>KeyCode\<close> is its scan code; the arrow keys share theirs with the keys of the
  number pad. \<open>Key code ascii uppercase\<close> is an entry of the table.
\<close>

type_synonym key_code = u32

datatype key = Key (code: key_code) (ascii: u8) (uppercase_ascii: u8)

definition keys :: "key list" where
  "keys =
    [Key 0x00 0x3f 0x3f, Key 0x01 0x3f 0x3f, Key 0x02 0x31 0x21, Key 0x03 0x32 0x40,
     Key 0x04 0x33 0x23, Key 0x05 0x34 0x24, Key 0x06 0x35 0x25, Key 0x07 0x36 0x5e,
     Key 0x08 0x37 0x26, Key 0x09 0x38 0x2a, Key 0x0a 0x39 0x28, Key 0x0b 0x30 0x29,
     Key 0x0c 0x2d 0x3f, Key 0x0d 0x3d 0x3f, Key 0x0e 0x3f 0x3f, Key 0x0f 0x3f 0x3f,
     Key 0x10 0x71 0x51, Key 0x11 0x77 0x57, Key 0x12 0x65 0x45, Key 0x13 0x72 0x52,
     Key 0x14 0x74 0x54, Key 0x15 0x79 0x59, Key 0x16 0x75 0x55, Key 0x17 0x69 0x49,
     Key 0x18 0x6f 0x4f, Key 0x19 0x70 0x50, Key 0x1a 0x5b 0x3f, Key 0x1b 0x5d 0x3f,
     Key 0x1c 0x0a 0x0a, Key 0x1d 0x3f 0x3f, Key 0x1e 0x61 0x41, Key 0x1f 0x73 0x53,
     Key 0x20 0x64 0x44, Key 0x21 0x66 0x46, Key 0x22 0x67 0x47, Key 0x23 0x68 0x48,
     Key 0x24 0x6a 0x4a, Key 0x25 0x6b 0x4b, Key 0x26 0x6c 0x4c, Key 0x27 0x3b 0x3f,
     Key 0x28 0x27 0x3f, Key 0x29 0x60 0x3f, Key 0x2a 0x3f 0x3f, Key 0x2b 0x5c 0x3f,
     Key 0x2c 0x7a 0x5a, Key 0x2d 0x78 0x58, Key 0x2e 0x63 0x43, Key 0x2f 0x76 0x56,
     Key 0x30 0x62 0x42, Key 0x31 0x6e 0x4e, Key 0x32 0x6d 0x4d, Key 0x33 0x2c 0x3f,
     Key 0x34 0x2e 0x3f, Key 0x35 0x2f 0x3f, Key 0x36 0x3f 0x3f, Key 0x37 0x2a 0x3f,
     Key 0x38 0x3f 0x3f, Key 0x39 0x20 0x20, Key 0x3a 0x3f 0x3f, Key 0x3b 0x3f 0x3f,
     Key 0x3c 0x3f 0x3f, Key 0x3d 0x3f 0x3f, Key 0x3e 0x3f 0x3f, Key 0x3f 0x3f 0x3f,
     Key 0x40 0x3f 0x3f, Key 0x41 0x3f 0x3f, Key 0x42 0x3f 0x3f, Key 0x43 0x3f 0x3f,
     Key 0x44 0x3f 0x3f, Key 0x45 0x3f 0x3f, Key 0x46 0x3f 0x3f, Key 0x47 0x37 0x37,
     Key 0x48 0x38 0x38, Key 0x49 0x39 0x39, Key 0x4a 0x2d 0x2d, Key 0x4b 0x34 0x34,
     Key 0x4c 0x35 0x35, Key 0x4d 0x36 0x36, Key 0x4e 0x2b 0x2b, Key 0x4f 0x31 0x31,
     Key 0x50 0x32 0x32, Key 0x51 0x33 0x33, Key 0x52 0x30 0x30, Key 0x53 0x2e 0x2e,
     Key 0x57 0x3f 0x3f, Key 0x58 0x3f 0x3f, Key 0x48 0x3f 0x3f, Key 0x50 0x3f 0x3f,
     Key 0x4b 0x3f 0x3f, Key 0x4d 0x3f 0x3f]"

definition Invalid :: key_code where
  "Invalid = 0x00"

definition LeftShift :: key_code where
  "LeftShift = 0x2a"

definition CapsLock :: key_code where
  "CapsLock = 0x3a"

record keyboard_event =
  ev_key :: key_code
  ev_ascii :: u8
  ev_pressed :: bool

fun find_key :: "u64 \<Rightarrow> key list \<Rightarrow> key" where
  "find_key scancode [] = Key 0 0x3f 0x3f"
| "find_key scancode (k # ks) = (if ucast (code k) = scancode then k else find_key scancode ks)"

definition code_to_key :: "u64 \<Rightarrow> key" where
  "code_to_key scancode = find_key scancode keys"

section \<open>The driver\<close>

record keyboard =
  kb_buffer :: u64
  kb_position :: u8
  modifiers_mask :: u8

definition kb_clear :: "keyboard \<Rightarrow> keyboard" where
  "kb_clear k = k\<lparr>kb_buffer := 0, kb_position := 0\<rparr>"

text \<open>The masks are bit numbers.\<close>

definition CTRL_MASK :: nat where
  "CTRL_MASK = 0"

definition ALT_MASK :: nat where
  "ALT_MASK = 1"

definition SHIFT_MASK :: nat where
  "SHIFT_MASK = 2"

definition CAPS_LOCK_MASK :: nat where
  "CAPS_LOCK_MASK = 3"

definition ctrl_pressed :: "keyboard \<Rightarrow> bool" where
  "ctrl_pressed k \<longleftrightarrow> drop_bit CTRL_MASK (modifiers_mask k) AND 1 = 1"

definition alt_pressed :: "keyboard \<Rightarrow> bool" where
  "alt_pressed k \<longleftrightarrow> drop_bit ALT_MASK (modifiers_mask k) AND 1 = 1"

definition shift_pressed :: "keyboard \<Rightarrow> bool" where
  "shift_pressed k \<longleftrightarrow> drop_bit SHIFT_MASK (modifiers_mask k) AND 1 = 1"

definition caps_lock_on :: "keyboard \<Rightarrow> bool" where
  "caps_lock_on k \<longleftrightarrow> drop_bit CAPS_LOCK_MASK (modifiers_mask k) AND 1 = 1"

definition uppercase :: "keyboard \<Rightarrow> bool" where
  "uppercase k \<longleftrightarrow> shift_pressed k \<or> caps_lock_on k"

text \<open>
  The interrupt handler for one byte from the port. It returns the event for the waiting
  tasks, if the byte makes one.
\<close>

definition kb_handler :: "u8 \<Rightarrow> keyboard \<Rightarrow> keyboard \<times> keyboard_event option" where
  "kb_handler scancode k =
     (let k = (if kb_position k \<ge> 4 then kb_clear k else k);
          k = k\<lparr>kb_buffer := push_bit 8 (kb_buffer k) OR ucast scancode, kb_position := kb_position k + 1\<rparr>
      in if drop_bit 7 scancode AND 1 \<noteq> 0 then
           let scancode = scancode AND NOT (push_bit 7 1);
               key = code_to_key (ucast scancode);
               k = (if code key = LeftShift
                    then k\<lparr>modifiers_mask := modifiers_mask k AND NOT (push_bit SHIFT_MASK 1)\<rparr> else k)
           in (kb_clear k, Some \<lparr>ev_key = code key, ev_ascii = 0, ev_pressed = False\<rparr>)
         else
           let key = code_to_key (kb_buffer k)
           in if code key = Invalid then (kb_clear k, None)
              else if code key = LeftShift then
                (kb_clear (k\<lparr>modifiers_mask := modifiers_mask k OR push_bit SHIFT_MASK 1\<rparr>), None)
              else if code key = CapsLock then
                (kb_clear (k\<lparr>modifiers_mask := (if caps_lock_on k
                   then modifiers_mask k AND NOT (push_bit CAPS_LOCK_MASK 1)
                   else modifiers_mask k OR push_bit CAPS_LOCK_MASK 1)\<rparr>), None)
              else
                (kb_clear k, Some \<lparr>ev_key = code key, ev_ascii = (if \<not> uppercase k then ascii key
                   else uppercase_ascii key), ev_pressed = True\<rparr>))"

fun kb_run :: "u8 list \<Rightarrow> keyboard \<Rightarrow> keyboard \<times> keyboard_event list" where
  "kb_run [] k = (k, [])"
| "kb_run (c # cs) k =
     (let (k, e) = kb_handler c k; (k, es) = kb_run cs k
      in (k, (case e of None \<Rightarrow> es | Some e \<Rightarrow> e # es)))"

section \<open>Decoding\<close>

definition kb_idle :: "keyboard \<Rightarrow> bool" where
  "kb_idle k \<longleftrightarrow> kb_buffer k = 0 \<and> kb_position k = 0"

text \<open>What one byte does to a driver that is between two bytes.\<close>

definition kb_step :: "u8 \<Rightarrow> bool \<times> bool \<Rightarrow> (bool \<times> bool) \<times> keyboard_event option" where
  "kb_step c m =
     (let (shift, caps) = m; key = code_to_key (ucast (c AND 0x7f))
      in if c \<ge> 0x80 then ((shift \<and> code key \<noteq> LeftShift, caps), Some \<lparr>ev_key = code key, ev_ascii = 0, ev_pressed = False\<rparr>)
         else if code key = Invalid then (m, None)
         else if code key = LeftShift then ((True, caps), None)
         else if code key = CapsLock then ((shift, \<not> caps), None)
         else (m, Some \<lparr>ev_key = code key, ev_ascii = (if shift \<or> caps then uppercase_ascii key else ascii key),
                ev_pressed = True\<rparr>))"

definition kb_mods :: "keyboard \<Rightarrow> bool \<times> bool" where
  "kb_mods k = (bit (modifiers_mask k) 2, bit (modifiers_mask k) 3)"

lemma bit_test: "drop_bit n (w :: u8) AND 1 = 1 \<longleftrightarrow> bit w n"
  by (simp add: bit_iff_odd_drop_bit and_one_eq odd_iff_mod_2_eq_one)

lemma bit_test_nonzero: "drop_bit n (w :: u8) AND 1 \<noteq> 0 \<longleftrightarrow> bit w n"
  by (simp add: bit_iff_odd_drop_bit and_one_eq even_iff_mod_2_eq_zero)

lemma shift_pressed_bit [simp]: "shift_pressed k \<longleftrightarrow> bit (modifiers_mask k) 2"
  by (simp add: shift_pressed_def SHIFT_MASK_def bit_test)

lemma caps_lock_on_bit [simp]: "caps_lock_on k \<longleftrightarrow> bit (modifiers_mask k) 3"
  by (simp add: caps_lock_on_def CAPS_LOCK_MASK_def bit_test)

lemma find_key_code:
  "ucast (code (find_key s ks)) = s \<or> find_key s ks = Key 0 0x3f 0x3f"
  by (induction ks) auto

lemma code_to_key_code: "ucast (code (code_to_key s)) = s \<or> code_to_key s = Key 0 0x3f 0x3f"
  unfolding code_to_key_def by (rule find_key_code)

lemma code_to_key_shift: "code (code_to_key s) = LeftShift \<longleftrightarrow> s = 0x2a"
proof
  assume "code (code_to_key s) = LeftShift"
  then show "s = 0x2a" using code_to_key_code [of s] by (auto simp: LeftShift_def)
qed (simp add: code_to_key_def keys_def LeftShift_def)

lemma code_to_key_caps: "code (code_to_key s) = CapsLock \<longleftrightarrow> s = 0x3a"
proof
  assume "code (code_to_key s) = CapsLock"
  then show "s = 0x3a" using code_to_key_code [of s] by (auto simp: CapsLock_def)
qed (simp add: code_to_key_def keys_def CapsLock_def)

text \<open>Bit 7 of a byte, which marks the release of a key.\<close>

lemma release_bit: "bit (c :: u8) 7 \<longleftrightarrow> c \<ge> 0x80"
proof -
  have "unat c < 256" using unsigned_less [of c, where 'a = nat] by simp
  then have "odd (unat c div 128) \<longleftrightarrow> unat c \<ge> 128"
    by (cases "unat c < 128") (auto simp: div_if)
  moreover have "bit c 7 \<longleftrightarrow> bit (unat c) 7" by (simp add: bit_unsigned_iff)
  ultimately show ?thesis by (simp add: word_le_nat_alt bit_iff_odd)
qed

lemma press_unchanged: "c < 0x80 \<Longrightarrow> c AND 0x7f = (c :: u8)"
proof (rule bit_word_eqI)
  fix n assume c: "c < 0x80" and n: "n < LENGTH(8)"
  then have "n \<in> {0, 1, 2, 3, 4, 5, 6, 7}" by auto
  moreover have "\<not> bit c 7" using c by (simp add: release_bit)
  ultimately show "bit (c AND 0x7f) n = bit c n" by (auto simp: bit_and_iff)
qed

lemma release_split: "c \<ge> 0x80 \<Longrightarrow> c = (c AND 0x7f) OR (0x80 :: u8)"
proof (rule bit_word_eqI)
  fix n assume c: "c \<ge> 0x80" and n: "n < LENGTH(8)"
  then have "n \<in> {0, 1, 2, 3, 4, 5, 6, 7}" by auto
  moreover have "bit c 7" using c by (simp add: release_bit)
  ultimately show "bit c n = bit ((c AND 0x7f) OR 0x80) n" by (auto simp: bit_and_iff bit_or_iff)
qed

text \<open>The handler leaves the driver between two bytes and does the abstract step.\<close>

lemma kb_handler_step:
  assumes "kb_idle k"
  obtains k' where "kb_handler c k = (k', snd (kb_step c (kb_mods k)))" "kb_idle k'" "kb_mods k' = fst (kb_step c (kb_mods k))"
proof -
  have idle: "kb_position k = 0" "kb_buffer k = 0" using assms by (simp_all add: kb_idle_def)
  have mods: "bit (m AND - 5) 2 = False" "bit (m AND - 5) 3 = bit m 3" "bit (m OR 4) 2" "bit (m OR 4) 3 = bit m 3"
    "bit (m AND - 9) 2 = bit m 2" "bit (m AND - 9) 3 = False" "bit (m OR 8) 2 = bit m 2" "bit (m OR 8) 3" for m :: u8
    by (simp_all add: bit_and_iff bit_or_iff)
  have low: "(- 129 :: u8) = 127" by simp
  have dec: "drop_bit 7 c AND 1 \<noteq> 0 \<longleftrightarrow> c \<ge> 0x80" unfolding bit_test_nonzero by (rule release_bit)
  show thesis
  proof (cases "c \<ge> 0x80")
    case True
    then show thesis
      using dec idle by (intro that [of "fst (kb_handler c k)"])
        (auto simp: kb_handler_def kb_step_def Let_def kb_clear_def kb_idle_def kb_mods_def SHIFT_MASK_def mods low)
  next
    case False
    then have "c AND 0x7f = c" by (simp add: press_unchanged)
    then show thesis
      using False dec idle by (intro that [of "fst (kb_handler c k)"])
        (auto simp: kb_handler_def kb_step_def Let_def kb_clear_def kb_idle_def kb_mods_def SHIFT_MASK_def
          CAPS_LOCK_MASK_def uppercase_def mods)
  qed
qed

lemma ucast_u8_inj: "(ucast (c :: u8) :: u64) = ucast d \<longleftrightarrow> c = d"
proof
  assume "(ucast c :: u64) = ucast d"
  then have "unat (ucast c :: u64) = unat (ucast d :: u64)" by simp
  moreover have "unat (ucast x :: u64) = unat x" for x :: u8
    using unsigned_less [of x, where 'a = nat] by (simp add: unsigned_ucast_eq take_bit_nat_eq_self)
  ultimately show "c = d" by (simp add: word_unat_eq_iff)
qed simp

lemma ucast_u8_eq: "(ucast (c :: u8) :: u64) = 0x2a \<longleftrightarrow> c = 0x2a" "(ucast (c :: u8) :: u64) = 0x3a \<longleftrightarrow> c = 0x3a"
  using ucast_u8_inj [of c "0x2a"] ucast_u8_inj [of c "0x3a"] by simp_all

lemma kb_step_mods:
  "fst (kb_step c m) = (if c = 0x2a then True else if c = 0xaa then False else fst m,
    if c = 0x3a then \<not> snd m else snd m)"
proof -
  obtain shift caps where m: "m = (shift, caps)" by fastforce
  show ?thesis
  proof (cases "c \<ge> 0x80")
    case True
    have "code (code_to_key (ucast (c AND 0x7f))) = LeftShift \<longleftrightarrow> c = 0xaa"
      unfolding code_to_key_shift
    proof
      assume "(ucast (c AND 0x7f) :: u64) = 0x2a"
      then have low: "c AND 0x7f = 0x2a" by (simp only: ucast_u8_eq)
      from release_split [OF True] show "c = 0xaa" unfolding low by simp
    qed simp
    with True m show ?thesis by (auto simp: kb_step_def Let_def)
  next
    case False
    have "code (code_to_key (ucast c)) = LeftShift \<longleftrightarrow> c = 0x2a"
      "code (code_to_key (ucast c)) = CapsLock \<longleftrightarrow> c = 0x3a"
      unfolding code_to_key_shift code_to_key_caps by (simp_all only: ucast_u8_eq)
    moreover have "kb_step c m = (let key = code_to_key (ucast c) in
        if code key = Invalid then (m, None) else if code key = LeftShift then ((True, caps), None)
        else if code key = CapsLock then ((shift, \<not> caps), None)
        else (m, Some \<lparr>ev_key = code key, ev_ascii = (if shift \<or> caps then uppercase_ascii key else ascii key),
                ev_pressed = True\<rparr>))"
      using False m by (simp add: kb_step_def Let_def press_unchanged not_le)
    moreover have "LeftShift \<noteq> Invalid" "CapsLock \<noteq> Invalid" "CapsLock \<noteq> LeftShift"
      by (simp_all add: Invalid_def LeftShift_def CapsLock_def)
    moreover have "c \<noteq> 0xaa" using False by auto
    ultimately show ?thesis using m by (cases "c = 0x2a"; cases "c = 0x3a") (simp_all add: Let_def)
  qed
qed

fun step_run :: "u8 list \<Rightarrow> bool \<times> bool \<Rightarrow> (bool \<times> bool) \<times> keyboard_event list" where
  "step_run [] m = (m, [])"
| "step_run (c # cs) m =
     (let (m, e) = kb_step c m; (m, es) = step_run cs m in (m, (case e of None \<Rightarrow> es | Some e \<Rightarrow> e # es)))"

lemma kb_run_steps:
  "kb_idle k \<Longrightarrow> kb_idle (fst (kb_run cs k)) \<and> (kb_mods (fst (kb_run cs k)), snd (kb_run cs k)) = step_run cs (kb_mods k)"
proof (induction cs arbitrary: k)
  case (Cons c cs)
  obtain k' where k': "kb_handler c k = (k', snd (kb_step c (kb_mods k)))" "kb_idle k'" "kb_mods k' = fst (kb_step c (kb_mods k))"
    by (rule kb_handler_step [OF Cons.prems])
  from Cons.IH [OF k'(2)] show ?case using k'
    by (cases "kb_step c (kb_mods k)"; cases "kb_run cs k'"; cases "step_run cs (kb_mods k')") (auto simp: Let_def)
qed simp

lemma step_run_mods:
  "fst (step_run cs m) = (case rev (filter (\<lambda>c. c = 0x2a \<or> c = 0xaa) cs) of [] \<Rightarrow> fst m | c # _ \<Rightarrow> c = 0x2a,
    snd m \<noteq> odd (count_list cs 0x3a))"
proof (induction cs arbitrary: m)
  case (Cons c cs)
  have "fst (step_run (c # cs) m) = fst (step_run cs (fst (kb_step c m)))"
    by (cases "kb_step c m"; cases "step_run cs (fst (kb_step c m))") (simp add: Let_def)
  also have "\<dots> = (case rev (filter (\<lambda>c. c = 0x2a \<or> c = 0xaa) cs) of [] \<Rightarrow> fst (fst (kb_step c m)) | c # _ \<Rightarrow> c = 0x2a,
      snd (fst (kb_step c m)) \<noteq> odd (count_list cs 0x3a))"
    by (rule Cons.IH)
  finally show ?case
    by (cases "rev (filter (\<lambda>c. c = 0x2a \<or> c = 0xaa) cs)") (auto simp: kb_step_mods)
qed simp

text \<open>No byte changes the bits of the control and the alt key.\<close>

lemma kb_handler_ctrl_alt:
  "ctrl_pressed (fst (kb_handler c k)) \<longleftrightarrow> ctrl_pressed k" "alt_pressed (fst (kb_handler c k)) \<longleftrightarrow> alt_pressed k"
proof -
  have keep: "bit (modifiers_mask (fst (kb_handler c k))) n \<longleftrightarrow> bit (modifiers_mask k) n" if "n = 0 \<or> n = 1" for n
    using that by (auto simp: kb_handler_def Let_def kb_clear_def SHIFT_MASK_def CAPS_LOCK_MASK_def bit_and_iff bit_or_iff)
  from keep [of 0] keep [of 1]
  show "ctrl_pressed (fst (kb_handler c k)) \<longleftrightarrow> ctrl_pressed k" "alt_pressed (fst (kb_handler c k)) \<longleftrightarrow> alt_pressed k"
    unfolding ctrl_pressed_def alt_pressed_def CTRL_MASK_def ALT_MASK_def bit_test by blast+
qed

lemma kb_run_ctrl_alt:
  "(ctrl_pressed (fst (kb_run cs k)) \<longleftrightarrow> ctrl_pressed k) \<and> (alt_pressed (fst (kb_run cs k)) \<longleftrightarrow> alt_pressed k)"
proof (induction cs arbitrary: k)
  case (Cons c cs)
  from Cons.IH [of "fst (kb_handler c k)"] show ?case
    by (cases "kb_handler c k"; cases "kb_run cs (fst (kb_handler c k))")
      (use kb_handler_ctrl_alt [of c k] in simp)
qed simp

section \<open>Properties\<close>

text \<open>
  C30: Whatever bytes the keyboard sends, the driver decodes every byte by itself (its buffer
  is empty between two interrupts), shift is on iff the last byte of the left shift key was
  a press, caps lock is toggled by each of its presses, the control and alt keys are never
  recorded, and the events are those of the reference decoder \<open>kb_step\<close>.
\<close>

theorem keyboard_decodes:
  assumes "kb_idle k" and "kb_run cs k = (k', es)"
  shows "kb_idle k' \<and>
    (shift_pressed k' \<longleftrightarrow> (case rev (filter (\<lambda>c. c = 0x2a \<or> c = 0xaa) cs) of [] \<Rightarrow> shift_pressed k | c # _ \<Rightarrow> c = 0x2a)) \<and>
    (caps_lock_on k' \<longleftrightarrow> caps_lock_on k \<noteq> odd (count_list cs 0x3a)) \<and>
    (ctrl_pressed k' \<longleftrightarrow> ctrl_pressed k) \<and> (alt_pressed k' \<longleftrightarrow> alt_pressed k) \<and>
    es = snd (step_run cs (shift_pressed k, caps_lock_on k))"
proof -
  have steps: "kb_idle k'" "(kb_mods k', es) = step_run cs (kb_mods k)"
    using kb_run_steps [OF assms(1), of cs] assms(2) by simp_all
  then have "kb_mods k' = fst (step_run cs (kb_mods k))" "es = snd (step_run cs (kb_mods k))" by (metis fst_conv snd_conv)+
  moreover have "ctrl_pressed k' \<longleftrightarrow> ctrl_pressed k" "alt_pressed k' \<longleftrightarrow> alt_pressed k"
    using kb_run_ctrl_alt [of cs k] assms(2) by simp_all
  ultimately show ?thesis using steps(1) unfolding step_run_mods by (simp add: kb_mods_def split: list.splits)
qed

theorem keyboard_decodes_witness:
  "\<exists>k. kb_run [0x2a, 0x1e, 0xaa] \<lparr>kb_buffer = 0, kb_position = 0, modifiers_mask = 0\<rparr> =
    (k, [\<lparr>ev_key = 0x1e, ev_ascii = 0x41, ev_pressed = True\<rparr>, \<lparr>ev_key = 0x2a, ev_ascii = 0, ev_pressed = False\<rparr>]) \<and>
    \<not> shift_pressed k"
proof -
  let ?k = "\<lparr>kb_buffer = 0, kb_position = 0, modifiers_mask = 0\<rparr>"
  obtain k es where k: "kb_run [0x2a, 0x1e, 0xaa] ?k = (k, es)" by fastforce
  have "snd (step_run [0x2a, 0x1e, 0xaa] (False, False)) =
      [\<lparr>ev_key = 0x1e, ev_ascii = 0x41, ev_pressed = True\<rparr>, \<lparr>ev_key = 0x2a, ev_ascii = 0, ev_pressed = False\<rparr>]"
    by (simp add: kb_step_def Let_def code_to_key_def keys_def LeftShift_def CapsLock_def Invalid_def)
  with keyboard_decodes [OF _ k] show ?thesis using k by (simp add: kb_idle_def)
qed

text \<open>
  A key with a two-byte scan code is decoded as a release of no key followed by the key
  of the number pad with the same second byte: the up arrow types the character 8.
\<close>

lemma keyboard_arrow_types_digit:
  assumes "kb_idle k"
  shows "snd (kb_run [0xe0, 0x48] k) =
    [\<lparr>ev_key = Invalid, ev_ascii = 0, ev_pressed = False\<rparr>, \<lparr>ev_key = 0x48, ev_ascii = 0x38, ev_pressed = True\<rparr>]"
proof -
  have "snd (kb_run [0xe0, 0x48] k) = snd (step_run [0xe0, 0x48] (kb_mods k))"
    using kb_run_steps [OF assms, of "[0xe0, 0x48]"] by (metis snd_conv)
  also have "\<dots> = [\<lparr>ev_key = Invalid, ev_ascii = 0, ev_pressed = False\<rparr>, \<lparr>ev_key = 0x48, ev_ascii = 0x38, ev_pressed = True\<rparr>]"
    by (cases "kb_mods k") (simp add: kb_step_def Let_def code_to_key_def keys_def LeftShift_def CapsLock_def Invalid_def)
  finally show ?thesis .
qed

lemma keyboard_arrow_types_digit_witness:
  "snd (kb_run [0xe0, 0x48] \<lparr>kb_buffer = 0, kb_position = 0, modifiers_mask = 4\<rparr>) =
    [\<lparr>ev_key = Invalid, ev_ascii = 0, ev_pressed = False\<rparr>, \<lparr>ev_key = 0x48, ev_ascii = 0x38, ev_pressed = True\<rparr>]"
  by (rule keyboard_arrow_types_digit) (simp add: kb_idle_def)

end
