(* ===== verification/Faults.thy ===== *)
theory Faults
  imports Main
begin

text \<open>
  What an operation of the file system, of a task or of the scheduler can end in besides a
  result: dereferencing a null pointer, leaving a buffer, looping for ever, using an object
  that was deleted. Operations that can fail return \<open>fault + 'a\<close>.
\<close>

datatype fault = Null_Pointer | Out_Of_Bounds | Endless | Use_After_Free

definition and_then :: "fault + 'a \<Rightarrow> ('a \<Rightarrow> fault + 'b) \<Rightarrow> fault + 'b" where
  "and_then r f = (case r of Inl e \<Rightarrow> Inl e | Inr x \<Rightarrow> f x)"

definition deref :: "('k \<rightharpoonup> 'a) \<Rightarrow> 'k \<Rightarrow> fault + 'a" where
  "deref store a = (case store a of None \<Rightarrow> Inl Null_Pointer | Some x \<Rightarrow> Inr x)"

definition non_null :: "'a option \<Rightarrow> fault + 'a" where
  "non_null p = (case p of None \<Rightarrow> Inl Null_Pointer | Some x \<Rightarrow> Inr x)"

definition terminating :: "'a option \<Rightarrow> fault + 'a" where
  "terminating r = (case r of None \<Rightarrow> Inl Endless | Some x \<Rightarrow> Inr x)"

lemma and_then_Inr [simp]: "and_then (Inr x) f = f x"
  by (simp add: and_then_def)

lemma and_then_Inl [simp]: "and_then (Inl e) f = Inl e"
  by (simp add: and_then_def)

lemma and_then_eq_Inr: "and_then r f = Inr y \<longleftrightarrow> (\<exists>x. r = Inr x \<and> f x = Inr y)"
  by (cases r) (auto simp: and_then_def)

lemma deref_eq_Inr [simp]: "deref store a = Inr x \<longleftrightarrow> store a = Some x"
  by (auto simp: deref_def split: option.splits)

lemma non_null_eq_Inr [simp]: "non_null p = Inr x \<longleftrightarrow> p = Some x"
  by (auto simp: non_null_def split: option.splits)

lemma terminating_eq_Inr [simp]: "terminating r = Inr x \<longleftrightarrow> r = Some x"
  by (auto simp: terminating_def split: option.splits)

definition live :: "('k \<rightharpoonup> 'a) \<Rightarrow> 'k \<Rightarrow> fault + 'a" where
  "live store a = (case store a of None \<Rightarrow> Inl Use_After_Free | Some x \<Rightarrow> Inr x)"

lemma live_eq_Inr [simp]: "live store a = Inr x \<longleftrightarrow> store a = Some x"
  by (auto simp: live_def split: option.splits)

lemma and_then_eq_Inl: "and_then r f = Inl e \<longleftrightarrow> r = Inl e \<or> (\<exists>x. r = Inr x \<and> f x = Inl e)"
  by (cases r) (auto simp: and_then_def)

end
