(* ===== verification/Vfs.thy ===== *)
theory Vfs
  imports Libc Hashmap Keyboard Faults
begin

text \<open>
  The virtual file system (\<open>src/kernel/fs/vfs.cpp\<close>, \<open>vfs.hpp\<close>) with the memory file system
  (\<open>tmpfs.cpp\<close>) and the terminal (\<open>drivers/tty.cpp\<close>) behind it. Nodes and file descriptors
  are objects in stores indexed by their addresses; strings are lists of characters; the
  data of a file is the list of the bytes allocated for it. Dereferencing a null pointer,
  leaving a buffer and looping for ever are the faults an operation can end in.
\<close>

section \<open>State\<close>

datatype seek_mode = Seek_Set | Seek_Current | Seek_End

datatype node_type = File | Directory

datatype open_mode = ReadOnly | WriteOnly | ReadWrite

text \<open>The two classes that implement \<open>FileSystem\<close>.\<close>

datatype filesystem = Tmpfs | Tty

record vnode =
  n_name :: "u8 list"
  n_fs :: filesystem
  n_type :: node_type
  n_parent :: "nat option"
  n_children :: "nat hashmap option"
  file_data :: "u8 list"
  file_size :: u64
  n_capacity :: u64
  n_inode :: u64

record file_descriptor =
  fd_id :: int
  fd_node :: nat
  fd_mode :: open_mode
  rw_position :: u64

text \<open>
  New objects get the next number as their address. \<open>fresh_bytes\<close> is what newly allocated
  memory holds, \<open>fresh_buckets\<close> what the uninitialised buckets of a new directory lead to,
  \<open>after_empty\<close> what lies behind the literal \<open>""\<close> that \<open>create\<close> compares
  with. \<open>key_events\<close> are the keyboard events the terminal will see, \<open>screen\<close> what it shows.
\<close>

record vfs =
  nodes :: "nat \<rightharpoonup> vnode"
  fds :: "nat \<rightharpoonup> file_descriptor"
  next_object :: nat
  root_mountpoint :: "nat option"
  next_inode :: u64
  vfs_stdin :: nat
  vfs_stdout :: nat
  vfs_stderr :: nat
  fresh_bytes :: "nat \<Rightarrow> u8"
  fresh_buckets :: "nat \<Rightarrow> nat hm_entry list"
  after_empty :: "nat \<Rightarrow> u8"
  key_events :: "keyboard_event list"
  screen :: "u8 list"

definition new_bytes :: "'a vfs_scheme \<Rightarrow> u64 \<Rightarrow> u8 list" where
  "new_bytes s n = map (fresh_bytes s) [0..<unat n]"

definition new_children :: "'a vfs_scheme \<Rightarrow> nat hashmap" where
  "new_children s = hm_new (fresh_buckets s) 256"

text \<open>A node straight after \<open>new\<close>: the name, file system, type and inode are not initialised.\<close>

definition new_node :: "u8 list \<Rightarrow> filesystem \<Rightarrow> node_type \<Rightarrow> u64 \<Rightarrow> vnode" where
  "new_node name fs type inode = \<lparr>n_name = name, n_fs = fs, n_type = type, n_parent = None,
     n_children = None, file_data = [], file_size = 0, n_capacity = 0, n_inode = inode\<rparr>"

section \<open>File systems\<close>

definition tmpfs_read :: "vnode \<Rightarrow> u64 \<Rightarrow> u64 \<Rightarrow> fault + (u64 \<times> u8 list)" where
  "tmpfs_read node offset len =
     (if n_type node \<noteq> File then Inr (0, [])
      else if unat offset + unat len \<le> length (file_data node) then
        Inr (len, take (unat len) (drop (unat offset) (file_data node)))
      else Inl Out_Of_Bounds)"

definition tmpfs_write :: "vnode \<Rightarrow> u8 list \<Rightarrow> u64 \<Rightarrow> u64 \<Rightarrow> fault + (u64 \<times> vnode)" where
  "tmpfs_write node buffer offset len =
     (if n_type node \<noteq> File then Inr (0, node)
      else if unat offset + unat len \<le> length (file_data node) \<and> unat len \<le> length buffer then
        Inr (len, node\<lparr>file_data := take (unat offset) (file_data node) @ take (unat len) buffer @
          drop (unat offset + unat len) (file_data node)\<rparr>)
      else Inl Out_Of_Bounds)"

text \<open>
  The terminal hands out the characters of pressed keys up to the requested length or the
  end of a line, and echoes them. With no further event it waits for ever.
\<close>

fun tty_read_loop :: "u64 \<Rightarrow> u8 list \<Rightarrow> keyboard_event list \<Rightarrow> fault + (u64 \<times> u8 list \<times> keyboard_event list)" where
  "tty_read_loop len buffer events =
     (if of_nat (length buffer) = len then Inr (len, buffer, events)
      else case events of [] \<Rightarrow> Inl Endless
        | e # es \<Rightarrow>
          if \<not> ev_pressed e then tty_read_loop len buffer es
          else if ev_ascii e = 0x0a then
            Inr (of_nat (length buffer + 1), buffer @ [ev_ascii e], es)
          else tty_read_loop len (buffer @ [ev_ascii e]) es)"

definition tty_read :: "u64 \<Rightarrow> 'a vfs_scheme \<Rightarrow> fault + (u64 \<times> u8 list \<times> 'a vfs_scheme)" where
  "tty_read len s =
     and_then (tty_read_loop len [] (key_events s)) (\<lambda>(n, buffer, events).
       Inr (n, buffer, s\<lparr>key_events := events, screen := screen s @ buffer\<rparr>))"

definition tty_write :: "vnode \<Rightarrow> u8 list \<Rightarrow> u64 \<Rightarrow> 'a vfs_scheme \<Rightarrow> u64 \<times> 'a vfs_scheme" where
  "tty_write node buffer len s =
     (if n_type node \<noteq> File then (0, s)
      else (len, s\<lparr>screen := screen s @ take (unat len) buffer\<rparr>))"

definition fs_read :: "vnode \<Rightarrow> u64 \<Rightarrow> u64 \<Rightarrow> 'a vfs_scheme \<Rightarrow> fault + (u64 \<times> u8 list \<times> 'a vfs_scheme)" where
  "fs_read node offset len s =
     (case n_fs node of
        Tmpfs \<Rightarrow> and_then (tmpfs_read node offset len) (\<lambda>(n, bytes). Inr (n, bytes, s))
      | Tty \<Rightarrow> tty_read len s)"

definition fs_write :: "vnode \<Rightarrow> u8 list \<Rightarrow> u64 \<Rightarrow> u64 \<Rightarrow> 'a vfs_scheme \<Rightarrow> fault + (u64 \<times> vnode \<times> 'a vfs_scheme)"
where
  "fs_write node buffer offset len s =
     (case n_fs node of
        Tmpfs \<Rightarrow> and_then (tmpfs_write node buffer offset len) (\<lambda>(n, node). Inr (n, node, s))
      | Tty \<Rightarrow> (let (n, s) = tty_write node buffer len s in Inr (n, node, s)))"

section \<open>Mounting\<close>

definition vfs_mount :: "nat option \<Rightarrow> filesystem \<Rightarrow> 'a vfs_scheme \<Rightarrow> fault + 'a vfs_scheme" where
  "vfs_mount node fs s =
     (let (a, s) = (case node of Some a \<Rightarrow> (a, s)
            | None \<Rightarrow> (next_object s, s\<lparr>nodes := (nodes s)(next_object s \<mapsto> new_node [0x2f] fs Directory 0),
                next_object := next_object s + 1, root_mountpoint := Some (next_object s)\<rparr>))
      in and_then (deref (nodes s) a) (\<lambda>n.
           Inr (s\<lparr>nodes := (nodes s)(a \<mapsto> n\<lparr>n_fs := fs, n_type := Directory,
               n_children := Some (new_children s), n_inode := next_inode s\<rparr>),
             next_inode := next_inode s + 1\<rparr>)))"

text \<open>
  A standard descriptor has a node of its own, whose type the constructor leaves as the
  allocator found it; \<open>junk\<close> stands for that value.
\<close>

definition new_std :: "filesystem \<Rightarrow> node_type \<Rightarrow> int \<Rightarrow> open_mode \<Rightarrow> u64 \<Rightarrow> 'a vfs_scheme \<Rightarrow> nat \<times> 'a vfs_scheme" where
  "new_std fs junk fid mode len s =
     (let a = next_object s; d = next_object s + 1;
          n = (new_node [] fs junk 0)\<lparr>file_data := new_bytes s len, file_size := len, n_capacity := len\<rparr>
      in (d, s\<lparr>nodes := (nodes s)(a \<mapsto> n),
             fds := (fds s)(d \<mapsto> \<lparr>fd_id = fid, fd_node = a, fd_mode = mode, rw_position = 0\<rparr>),
             next_object := next_object s + 2\<rparr>))"

definition vfs_init_std :: "filesystem \<Rightarrow> node_type \<Rightarrow> 'a vfs_scheme \<Rightarrow> 'a vfs_scheme" where
  "vfs_init_std fs junk s =
     (let (d0, s) = new_std fs junk 0 ReadOnly 4096 s;
          (d1, s) = new_std fs junk 1 WriteOnly 0 s;
          (d2, s) = new_std fs junk 2 WriteOnly 0 s
      in s\<lparr>vfs_stdin := d0, vfs_stdout := d1, vfs_stderr := d2\<rparr>)"

section \<open>Paths\<close>

text \<open>
  The next name of a path, and the path behind it: \<open>create\<close> and \<open>get_node\<close> overwrite the
  slashes between them with null characters.
\<close>

definition path_name :: "u8 list \<Rightarrow> u8 list" where
  "path_name path = takeWhile (\<lambda>c. c \<noteq> 0x2f) path"

definition path_rest :: "u8 list \<Rightarrow> u8 list" where
  "path_rest path = dropWhile (\<lambda>c. c = 0x2f) (dropWhile (\<lambda>c. c \<noteq> 0x2f) path)"

lemma path_rest_shorter [termination_simp]: "path \<noteq> [] \<Longrightarrow> length (path_rest path) < length path"
proof (cases path)
  case (Cons c cs)
  have le: "length (dropWhile P xs) \<le> length xs" for P and xs :: "u8 list"
    by (rule length_dropWhile_le)
  show ?thesis
  proof (cases "c = 0x2f")
    case True
    then show ?thesis using Cons le [of _ cs] by (simp add: path_rest_def less_Suc_eq_le)
  next
    case False
    then show ?thesis
      using Cons le [of "\<lambda>c. c \<noteq> 0x2f" cs] le [of "\<lambda>c. c = 0x2f" "dropWhile (\<lambda>c. c \<noteq> 0x2f) cs"]
      by (simp add: path_rest_def)
  qed
qed simp

text \<open>
  What \<open>strcmp\<close> answers for a string and the literal \<open>""\<close> when \<open>after\<close> are the bytes behind
  the literal: it never looks at the first bytes.
\<close>

definition strcmp_empty :: "u8 list \<Rightarrow> (nat \<Rightarrow> u8) \<Rightarrow> bool" where
  "strcmp_empty str after =
     (case str of [] \<Rightarrow> True | _ # cs \<Rightarrow> cs @ [0] = map after [0..<length cs + 1])"

fun create_loop :: "u8 list \<Rightarrow> node_type \<Rightarrow> filesystem \<Rightarrow> nat \<Rightarrow> 'a vfs_scheme \<Rightarrow> fault + (nat \<times> 'a vfs_scheme)"
where
  "create_loop path type fs parent s =
     (if path = [] then Inr (parent, s)
      else and_then (deref (nodes s) parent) (\<lambda>p.
        case (case n_children p of None \<Rightarrow> None | Some m \<Rightarrow> hm_get (path_name path) m) of
          Some node \<Rightarrow> create_loop (path_rest path) type fs node s
        | None \<Rightarrow>
          let a = next_object s;
              t = (if strcmp_empty (path_rest path) (after_empty s) then type else Directory);
              n = (new_node (path_name path) fs t (next_inode s))\<lparr>n_parent := Some parent,
                    n_children := (if t = Directory then Some (new_children s) else None)\<rparr>
          in and_then (non_null (n_children p)) (\<lambda>m.
               create_loop (path_rest path) type fs a
                 (s\<lparr>nodes := (nodes s)(a \<mapsto> n,
                       parent \<mapsto> p\<lparr>n_children := Some (hm_insert (path_name path) a m)\<rparr>),
                    next_object := a + 1, next_inode := next_inode s + 1\<rparr>))))"

declare create_loop.simps [simp del]

definition vfs_create :: "u8 list \<Rightarrow> node_type \<Rightarrow> 'a vfs_scheme \<Rightarrow> fault + (nat option \<times> 'a vfs_scheme)" where
  "vfs_create path type s =
     (case root_mountpoint s of None \<Rightarrow> Inr (None, s)
      | Some root \<Rightarrow> and_then (deref (nodes s) root) (\<lambda>r.
          and_then (create_loop path type (n_fs r) root s) (\<lambda>(node, s). Inr (Some node, s))))"

fun get_node_loop :: "u8 list \<Rightarrow> nat \<Rightarrow> 'a vfs_scheme \<Rightarrow> fault + nat option" where
  "get_node_loop path parent s =
     (if path = [] then Inr (Some parent)
      else and_then (deref (nodes s) parent) (\<lambda>p. and_then (non_null (n_children p)) (\<lambda>m.
        case hm_get (path_name path) m of None \<Rightarrow> Inr None
        | Some node \<Rightarrow> get_node_loop (path_rest path) node s)))"

declare get_node_loop.simps [simp del]

definition vfs_get_node :: "u8 list \<Rightarrow> 'a vfs_scheme \<Rightarrow> fault + nat option" where
  "vfs_get_node path s =
     (case root_mountpoint s of None \<Rightarrow> Inr None
      | Some root \<Rightarrow> get_node_loop (dropWhile (\<lambda>c. c = 0x2f) path) root s)"

section \<open>Descriptors\<close>

definition vfs_open :: "u8 list \<Rightarrow> open_mode \<Rightarrow> 'a vfs_scheme \<Rightarrow> fault + (nat option \<times> 'a vfs_scheme)" where
  "vfs_open path mode s =
     (if root_mountpoint s = None then Inr (None, s)
      else and_then (vfs_get_node path s) (\<lambda>node. case node of None \<Rightarrow> Inr (None, s)
        | Some n \<Rightarrow> Inr (Some (next_object s),
            s\<lparr>fds := (fds s)(next_object s \<mapsto> \<lparr>fd_id = - 1, fd_node = n, fd_mode = mode, rw_position = 0\<rparr>),
              next_object := next_object s + 1\<rparr>)))"

definition vfs_close :: "nat option \<Rightarrow> 'a vfs_scheme \<Rightarrow> 'a vfs_scheme" where
  "vfs_close fd s = (case fd of None \<Rightarrow> s | Some d \<Rightarrow> s\<lparr>fds := (fds s)(d := None)\<rparr>)"

definition advance :: "nat \<Rightarrow> u64 \<Rightarrow> 'a vfs_scheme \<Rightarrow> 'a vfs_scheme" where
  "advance d len s = s\<lparr>fds := (fds s)(d := map_option (\<lambda>f. f\<lparr>rw_position := rw_position f + len\<rparr>) (fds s d))\<rparr>"

text \<open>A read returns the byte count and the bytes it wrote to the buffer.\<close>

definition vfs_read :: "nat option \<Rightarrow> u64 \<Rightarrow> 'a vfs_scheme \<Rightarrow> fault + (u64 \<times> u8 list \<times> 'a vfs_scheme)" where
  "vfs_read fd len s =
     (case fd of None \<Rightarrow> Inr (- 1, [], s)
      | Some d \<Rightarrow> and_then (deref (fds s) d) (\<lambda>f. and_then (deref (nodes s) (fd_node f)) (\<lambda>n.
          if rw_position f \<ge> file_size n \<or> fd_mode f = WriteOnly \<or> n_type n = Directory then Inr (- 1, [], s)
          else and_then (fs_read n (rw_position f) len s) (\<lambda>(bytes_read, bytes, s).
            Inr (bytes_read, bytes, if d \<noteq> vfs_stdin s then advance d len s else s)))))"

partial_function (option) grow :: "u64 \<Rightarrow> u64 \<Rightarrow> u64 option" where
  "grow need capacity = (if need > capacity then grow need (capacity * 2) else Some capacity)"

declare grow.simps [code]

text \<open>
  The array a write goes to. \<open>new\<close> does not return a null pointer, so the check of the
  reallocated array is always passed.
\<close>

definition reserve :: "u64 \<Rightarrow> u64 \<Rightarrow> vnode \<Rightarrow> 'a vfs_scheme \<Rightarrow> fault + vnode" where
  "reserve pos len n s =
     (if file_size n = 0 then
        Inr (n\<lparr>file_data := new_bytes s len, file_size := len, n_capacity := len\<rparr>)
      else if pos + len > n_capacity n then
        and_then (terminating (grow (pos + len) (n_capacity n))) (\<lambda>new_capacity.
          Inr (n\<lparr>file_data := new_bytes s new_capacity, n_capacity := new_capacity\<rparr>))
      else Inr n)"

definition vfs_write :: "nat option \<Rightarrow> u8 list \<Rightarrow> u64 \<Rightarrow> 'a vfs_scheme \<Rightarrow> fault + (u64 \<times> 'a vfs_scheme)" where
  "vfs_write fd buffer len s =
     (case fd of None \<Rightarrow> Inr (0, s)
      | Some d \<Rightarrow> and_then (deref (fds s) d) (\<lambda>f. and_then (deref (nodes s) (fd_node f)) (\<lambda>n.
          if fd_mode f = ReadOnly \<or> n_type n = Directory then Inr (0, s)
          else and_then (reserve (rw_position f) len n s) (\<lambda>n.
            and_then (fs_write n buffer (rw_position f) len s) (\<lambda>(bytes_written, n, s).
              let n = (if rw_position f + len > file_size n then n\<lparr>file_size := rw_position f + len\<rparr> else n)
              in Inr (bytes_written, advance d len (s\<lparr>nodes := (nodes s)(fd_node f \<mapsto> n)\<rparr>)))))))"

definition vfs_seek :: "nat option \<Rightarrow> u64 \<Rightarrow> seek_mode \<Rightarrow> 'a vfs_scheme \<Rightarrow> fault + 'a vfs_scheme" where
  "vfs_seek fd offset mode s =
     (case fd of None \<Rightarrow> Inr s
      | Some d \<Rightarrow> and_then (deref (fds s) d) (\<lambda>f.
          and_then (case mode of Seek_Set \<Rightarrow> Inr offset | Seek_Current \<Rightarrow> Inr (rw_position f + offset)
              | Seek_End \<Rightarrow> and_then (deref (nodes s) (fd_node f)) (\<lambda>n. Inr (file_size n + offset)))
            (\<lambda>pos. Inr (s\<lparr>fds := (fds s)(d \<mapsto> f\<lparr>rw_position := pos\<rparr>)\<rparr>))))"

end
