(* ===== verification/Vfs_Spec.thy ===== *)
theory Vfs_Spec
  imports Vfs
begin

text \<open>
  What the file system promises: path names keep their meaning when files are created, data
  written is read back, and the inputs on which the code leaves this contract.
\<close>

section \<open>The directory tree\<close>

text \<open>
  A well-formed tree; new directories find their buckets to be null pointers, as they are in memory
  that was never written before.
\<close>

definition vfs_ok :: "'a vfs_scheme \<Rightarrow> bool" where
  "vfs_ok s \<longleftrightarrow> (\<forall>a \<ge> next_object s. nodes s a = None) \<and>
     (\<forall>a n m. nodes s a = Some n \<longrightarrow> n_children n = Some m \<longrightarrow>
        hm_ok m \<and> (\<forall>k b. hm_get k m = Some b \<longrightarrow> b \<in> dom (nodes s))) \<and>
     (\<forall>r. root_mountpoint s = Some r \<longrightarrow> r \<in> dom (nodes s)) \<and> fresh_buckets s = (\<lambda>_. [])"

abbreviation no_children :: "nat hashmap" where
  "no_children \<equiv> hm_empty 256"

lemma no_children_found [simp]: "hm_get k no_children = None"
  by (rule hm_get_empty) simp

lemma no_children_ok [simp]: "hm_ok no_children"
  by (rule hm_new_ok) simp

lemma new_children_null: "vfs_ok s \<Longrightarrow> new_children s = no_children"
  by (simp add: vfs_ok_def new_children_def)

fun children_grow :: "nat hashmap option \<Rightarrow> nat hashmap option \<Rightarrow> bool" where
  "children_grow None c = (c = None)"
| "children_grow (Some m) c = (\<exists>m'. c = Some m' \<and> (\<forall>k w. hm_get k m = Some w \<longrightarrow> hm_get k m' = Some w))"

text \<open>Nothing but entries of directories is new; nodes keep their data.\<close>

definition tree_grows :: "'a vfs_scheme \<Rightarrow> 'a vfs_scheme \<Rightarrow> bool" where
  "tree_grows s s' \<longleftrightarrow> root_mountpoint s' = root_mountpoint s \<and> fds s' = fds s \<and> after_empty s' = after_empty s \<and>
     (\<forall>a n. nodes s a = Some n \<longrightarrow>
        (\<exists>c. nodes s' a = Some (n\<lparr>n_children := c\<rparr>) \<and> children_grow (n_children n) c))"

lemma vfs_ok_child:
  "vfs_ok s \<Longrightarrow> nodes s a = Some n \<Longrightarrow> n_children n = Some m \<Longrightarrow>
    hm_ok m \<and> (hm_get k m = Some b \<longrightarrow> b \<in> dom (nodes s))"
  unfolding vfs_ok_def by blast

lemma children_grow_refl [simp]: "children_grow c c"
  by (cases c) auto

lemma children_grow_trans: "children_grow a b \<Longrightarrow> children_grow b c \<Longrightarrow> children_grow a c"
  by (cases a; cases b) auto

lemma tree_grows_refl [simp]: "tree_grows s s"
proof -
  have "n = n\<lparr>n_children := n_children n\<rparr>" for n :: vnode by simp
  then show ?thesis unfolding tree_grows_def by (metis children_grow_refl)
qed

lemma tree_grows_trans:
  assumes "tree_grows r s" "tree_grows s t"
  shows "tree_grows r t"
  unfolding tree_grows_def
proof (intro conjI allI impI)
  fix a n assume "nodes r a = Some n"
  then obtain c where c: "nodes s a = Some (n\<lparr>n_children := c\<rparr>)" "children_grow (n_children n) c"
    using assms(1) unfolding tree_grows_def by blast
  then obtain d where d: "nodes t a = Some (n\<lparr>n_children := c\<rparr>\<lparr>n_children := d\<rparr>)" "children_grow c d"
    using assms(2) unfolding tree_grows_def by fastforce
  then show "\<exists>c. nodes t a = Some (n\<lparr>n_children := c\<rparr>) \<and> children_grow (n_children n) c"
    using c children_grow_trans by fastforce
qed (use assms in \<open>simp_all add: tree_grows_def\<close>)

lemma get_node_loop_grows:
  "tree_grows s s' \<Longrightarrow> get_node_loop path a s = Inr (Some b) \<Longrightarrow> get_node_loop path a s' = Inr (Some b)"
proof (induction path a s rule: get_node_loop.induct)
  case (1 path parent s)
  show ?case
  proof (cases "path = []")
    case True
    with "1.prems" show ?thesis by (simp add: get_node_loop.simps)
  next
    case False
    from "1.prems"(2) False obtain p m node where
      walk: "nodes s parent = Some p" "n_children p = Some m" "hm_get (path_name path) m = Some node"
        "get_node_loop (path_rest path) node s = Inr (Some b)"
      by (subst (asm) get_node_loop.simps) (auto simp: and_then_eq_Inr split: option.splits)
    then obtain m' where "nodes s' parent = Some (p\<lparr>n_children := Some m'\<rparr>)"
      "hm_get (path_name path) m' = Some node"
      using "1.prems"(1) unfolding tree_grows_def by fastforce
    moreover have "get_node_loop (path_rest path) node s' = Inr (Some b)"
      using "1.IH" walk False "1.prems"(1) by (metis deref_eq_Inr non_null_eq_Inr)
    ultimately show ?thesis using False by (subst get_node_loop.simps) (simp add: deref_def non_null_def)
  qed
qed

text \<open>One new node under a directory.\<close>

definition add_child :: "nat \<Rightarrow> u8 list \<Rightarrow> vnode \<Rightarrow> vnode \<Rightarrow> nat hashmap \<Rightarrow> 'a vfs_scheme \<Rightarrow> 'a vfs_scheme" where
  "add_child parent name n p m s =
     s\<lparr>nodes := (nodes s)(next_object s \<mapsto> n,
         parent \<mapsto> p\<lparr>n_children := Some (hm_insert name (next_object s) m)\<rparr>),
       next_object := next_object s + 1, next_inode := next_inode s + 1\<rparr>"

lemma add_child_props:
  assumes ok: "vfs_ok s" and p: "nodes s parent = Some p" "n_children p = Some m"
    and new: "n_children n = None \<or> n_children n = Some no_children" and free: "hm_get name m = None"
  shows "vfs_ok (add_child parent name n p m s)" "tree_grows s (add_child parent name n p m s)"
    "\<exists>m'. nodes (add_child parent name n p m s) parent = Some (p\<lparr>n_children := Some m'\<rparr>) \<and>
      hm_get name m' = Some (next_object s)"
    "nodes (add_child parent name n p m s) (next_object s) = Some n"
proof -
  let ?s = "add_child parent name n p m s" and ?a = "next_object s"
  have m: "hm_ok m" "\<And>k b. hm_get k m = Some b \<Longrightarrow> b \<in> dom (nodes s)" using vfs_ok_child [OF ok p] by blast+
  have get: "hm_get k (hm_insert name ?a m) =
    (case hm_get k m of Some w \<Rightarrow> Some w | None \<Rightarrow> if hash_key name = hash_key k then Some ?a else None)" for k
    by (rule hm.look_ins [OF m(1)])
  have ne: "parent \<noteq> ?a" "nodes s ?a = None" using ok p(1) by (auto simp: vfs_ok_def)
  show "\<exists>m'. nodes ?s parent = Some (p\<lparr>n_children := Some m'\<rparr>) \<and> hm_get name m' = Some ?a"
    using free by (intro exI [of _ "hm_insert name ?a m"]) (simp add: add_child_def get)
  show "nodes ?s ?a = Some n" using ne by (simp add: add_child_def)
  show "tree_grows s ?s"
    unfolding tree_grows_def
  proof (intro conjI allI impI)
    fix b nb assume b: "nodes s b = Some nb"
    then have "b \<noteq> ?a" using ne by auto
    show "\<exists>c. nodes ?s b = Some (nb\<lparr>n_children := c\<rparr>) \<and> children_grow (n_children nb) c"
    proof (cases "b = parent")
      case True
      then show ?thesis using b p
        by (intro exI [of _ "Some (hm_insert name ?a m)"]) (simp add: add_child_def get)
    next
      case False
      then have "nodes ?s b = Some (nb\<lparr>n_children := n_children nb\<rparr>)"
        using b \<open>b \<noteq> ?a\<close> by (simp add: add_child_def)
      then show ?thesis using children_grow_refl by blast
    qed
  qed (simp_all add: add_child_def)
  have dom: "dom (nodes ?s) = insert ?a (insert parent (dom (nodes s)))" by (auto simp: add_child_def)
  show "vfs_ok ?s"
    unfolding vfs_ok_def
  proof (intro conjI allI impI)
    fix b assume "next_object ?s \<le> b"
    then show "nodes ?s b = None" using ok p(1) by (force simp: add_child_def vfs_ok_def)
  next
    fix b nb mb assume b: "nodes ?s b = Some nb" "n_children nb = Some mb"
    have "nodes ?s b = (if b = parent then Some (p\<lparr>n_children := Some (hm_insert name ?a m)\<rparr>)
      else if b = ?a then Some n else nodes s b)" by (simp add: add_child_def)
    with b consider "b = ?a" "nb = n" | "b = parent" "mb = hm_insert name ?a m" | "nodes s b = Some nb"
      by (cases "b = parent"; cases "b = ?a") auto
    then have "hm_ok mb \<and> (\<forall>k w. hm_get k mb = Some w \<longrightarrow> w \<in> dom (nodes ?s))"
    proof cases
      case 1
      then show ?thesis using b new by auto
    next
      case 2
      then show ?thesis using m(1) m(2) by (auto simp: hm_insert_ok get dom split: option.splits if_splits)
    next
      case 3
      then show ?thesis using vfs_ok_child [OF ok 3 b(2)] dom by blast
    qed
    then show "hm_ok mb" "hm_get k mb = Some w \<Longrightarrow> w \<in> dom (nodes ?s)" for k w by blast+
  next
    fix r assume "root_mountpoint ?s = Some r"
    then show "r \<in> dom (nodes ?s)" using ok unfolding dom by (auto simp: add_child_def vfs_ok_def)
  next
    show "fresh_buckets ?s = (\<lambda>_. [])" using ok by (simp add: add_child_def vfs_ok_def)
  qed
qed

lemma get_node_step:
  assumes "tree_grows t s'" "nodes t parent = Some q" "n_children q = Some m" "hm_get (path_name path) m = Some node"
    and "path \<noteq> []" "get_node_loop (path_rest path) node s' = Inr (Some a)"
  shows "get_node_loop path parent s' = Inr (Some a)"
proof -
  obtain c where c: "nodes s' parent = Some (q\<lparr>n_children := c\<rparr>)" "children_grow (n_children q) c"
    using assms(1,2) unfolding tree_grows_def by blast
  then obtain m' where "c = Some m'" "hm_get (path_name path) m' = Some node" using assms(3,4) by auto
  then show ?thesis using c(1) assms(5,6) by (subst get_node_loop.simps) (simp add: deref_def non_null_def)
qed

text \<open>Creation walks down as \<open>get_node\<close> will, and only ever adds children.\<close>

lemma create_loop_correct:
  "create_loop path type fs parent s = Inr (a, s') \<Longrightarrow> vfs_ok s \<Longrightarrow> parent \<in> dom (nodes s) \<Longrightarrow>
    vfs_ok s' \<and> tree_grows s s' \<and> get_node_loop path parent s' = Inr (Some a)"
proof (induction path type fs parent s rule: create_loop.induct)
  case (1 path type fs parent s)
  show ?case
  proof (cases "path = []")
    case True
    with "1.prems" show ?thesis by (simp add: create_loop.simps get_node_loop.simps)
  next
    case False
    obtain p where p: "nodes s parent = Some p" using "1.prems"(3) by auto
    show ?thesis
    proof (cases "\<exists>m node. n_children p = Some m \<and> hm_get (path_name path) m = Some node")
      case True
      then obtain m node where m: "n_children p = Some m" "hm_get (path_name path) m = Some node" by blast
      have "create_loop (path_rest path) type fs node s = Inr (a, s')"
        using "1.prems"(1) False p m by (subst (asm) create_loop.simps) (simp add: deref_def)
      moreover have "node \<in> dom (nodes s)" using vfs_ok_child [OF "1.prems"(2) p m(1)] m(2) by blast
      moreover have "(case n_children p of None \<Rightarrow> None | Some m \<Rightarrow> hm_get (path_name path) m) = Some node"
        using m by simp
      ultimately have "vfs_ok s' \<and> tree_grows s s' \<and> get_node_loop (path_rest path) node s' = Inr (Some a)"
        using "1.IH"(2) False "1.prems"(2) by blast
      then show ?thesis using get_node_step [OF _ p m False] by blast
    next
      case fresh: False
      define t where "t = (if strcmp_empty (path_rest path) (after_empty s) then type else Directory)"
      define n where "n = (new_node (path_name path) fs t (next_inode s))\<lparr>n_parent := Some parent,
        n_children := (if t = Directory then Some (new_children s) else None)\<rparr>"
      have none: "(case n_children p of None \<Rightarrow> None | Some m \<Rightarrow> hm_get (path_name path) m) = None"
        using fresh by (auto split: option.splits)
      obtain m where m: "n_children p = Some m"
        and rec: "create_loop (path_rest path) type fs (next_object s) (add_child parent (path_name path) n p m s) = Inr (a, s')"
        using "1.prems"(1) False p none
        by (subst (asm) create_loop.simps) (auto simp: and_then_eq_Inr Let_def t_def n_def add_child_def)
      let ?s = "add_child parent (path_name path) n p m s"
      have "n_children n = None \<or> n_children n = Some no_children"
        using new_children_null [OF "1.prems"(2)] by (simp add: n_def)
      note new = add_child_props [OF "1.prems"(2) p m this, of "path_name path"]
      have free: "hm_get (path_name path) m = None" using fresh m by auto
      have "next_object s \<in> dom (nodes ?s)" using new(4) [OF free] by blast
      then have "vfs_ok s' \<and> tree_grows ?s s' \<and> get_node_loop (path_rest path) (next_object s) s' = Inr (Some a)"
        using "1.IH"(1) [OF False none refl t_def n_def] rec new(1) [OF free]
        unfolding add_child_def by blast
      moreover obtain m' where "nodes ?s parent = Some (p\<lparr>n_children := Some m'\<rparr>)"
        "hm_get (path_name path) m' = Some (next_object s)" using new(3) [OF free] by blast
      ultimately show ?thesis
        using get_node_step [of ?s s' parent _ m' path] new(2) [OF free] False tree_grows_trans by auto
    qed
  qed
qed

section \<open>The comparison with the empty string\<close>

lemma strcmp_loop_after:
  assumes "cstr m (p + i) (c # cs)" "\<And>k. m (q + 1 + of_nat (j + k)) = after (j + k)" "i = of_nat j"
  shows "strcmp_loop m p q i = Some (cs @ [0] = map after [j..<j + length cs + 1])"
  using assms
proof (induction cs arbitrary: i j c)
  case Nil
  have "m (q + (i + 1)) = after j" using Nil.prems(2) [of 0] Nil.prems(3) by (simp add: algebra_simps)
  then show ?case
    using Nil.prems(1) strcmp_loop.simps [of m p q i] strcmp_loop.simps [of m p q "i + 1"]
    by (auto simp: add.assoc)
next
  case (Cons d cs)
  have at: "m (q + (i + 1)) = after j" using Cons.prems(2) [of 0] Cons.prems(3) by (simp add: algebra_simps)
  have "strcmp_loop m p q (i + 1) = Some (cs @ [0] = map after [Suc j..<Suc j + length cs + 1])"
  proof (rule Cons.IH)
    show "cstr m (p + (i + 1)) (d # cs)" using Cons.prems(1) by (simp add: add.assoc)
    show "m (q + 1 + of_nat (Suc j + k)) = after (Suc j + k)" for k using Cons.prems(2) [of "Suc k"] by simp
    show "i + 1 = of_nat (Suc j)" using Cons.prems(3) by simp
  qed
  moreover have "map after [j..<j + length (d # cs) + 1] = after j # map after [Suc j..<Suc j + length cs + 1]"
    by (subst upt_conv_Cons) simp_all
  ultimately show ?case
    using Cons.prems(1) at strcmp_loop.simps [of m p q i] by (auto simp: add.assoc)
qed

text \<open>The list version agrees with the comparison on memory.\<close>

lemma strcmp_empty_is_strcmp:
  assumes "cstr m p str" "\<And>k. m (q + 1 + of_nat k) = after k"
  shows "strcmp m p q = Some (strcmp_empty str after)"
proof (cases str)
  case Nil
  then show ?thesis using assms(1) by (simp add: strcmp_def strcmp_empty_def strcmp_loop.simps [of m p q 0])
next
  case (Cons c cs)
  then show ?thesis using strcmp_loop_after [of m p 0 c cs q 0 after] assms by (simp add: strcmp_def strcmp_empty_def)
qed

section \<open>Single steps of a creation\<close>

lemma path_name_plain [simp]: "0x2f \<notin> set name \<Longrightarrow> path_name name = name"
  unfolding path_name_def by (rule takeWhile_eq_all_conv [THEN iffD2]) auto

lemma path_rest_plain [simp]: "0x2f \<notin> set name \<Longrightarrow> path_rest name = []"
  unfolding path_rest_def by (subst dropWhile_eq_Nil_conv [of "\<lambda>c. c \<noteq> 0x2f", THEN iffD2]) auto

lemma path_name_slash [simp]: "0x2f \<notin> set dir \<Longrightarrow> path_name (dir @ 0x2f # path) = dir"
  unfolding path_name_def by (subst takeWhile_append2) auto

lemma path_rest_slash [simp]:
  "0x2f \<notin> set dir \<Longrightarrow> path_rest (dir @ 0x2f # path) = dropWhile (\<lambda>c. c = 0x2f) path"
  unfolding path_rest_def by (subst dropWhile_append2) auto

definition child_type :: "u8 list \<Rightarrow> node_type \<Rightarrow> 'a vfs_scheme \<Rightarrow> node_type" where
  "child_type path type s = (if strcmp_empty (path_rest path) (after_empty s) then type else Directory)"

definition child_node :: "u8 list \<Rightarrow> node_type \<Rightarrow> filesystem \<Rightarrow> nat \<Rightarrow> 'a vfs_scheme \<Rightarrow> vnode" where
  "child_node path type fs parent s =
     (new_node (path_name path) fs (child_type path type s) (next_inode s))\<lparr>n_parent := Some parent,
       n_children := (if child_type path type s = Directory then Some (new_children s) else None)\<rparr>"

lemma child_node_children:
  "vfs_ok s \<Longrightarrow> n_children (child_node path type fs parent s) =
    (if child_type path type s = Directory then Some no_children else None)"
  by (simp add: child_node_def new_children_null)

lemma create_loop_new:
  assumes "path \<noteq> []" "nodes s parent = Some p" "n_children p = Some m" "hm_get (path_name path) m = None"
  shows "create_loop path type fs parent s =
    create_loop (path_rest path) type fs (next_object s)
      (add_child parent (path_name path) (child_node path type fs parent s) p m s)"
  using assms by (subst create_loop.simps)
    (simp add: deref_def non_null_def Let_def child_node_def child_type_def add_child_def)

lemma create_loop_no_directory:
  assumes "path \<noteq> []" "nodes s parent = Some p" "n_children p = None"
  shows "create_loop path type fs parent s = Inl Null_Pointer"
  using assms by (subst create_loop.simps) (simp add: deref_def non_null_def Let_def)

lemma create_loop_Nil [simp]: "create_loop [] type fs a s = Inr (a, s)"
  by (simp add: create_loop.simps)

lemma strcmp_empty_Nil [simp]: "strcmp_empty [] after"
  by (simp add: strcmp_empty_def)

section \<open>The state after booting\<close>

definition vfs_start :: "(nat \<Rightarrow> u8) \<Rightarrow> (nat \<Rightarrow> u8) \<Rightarrow> vfs" where
  "vfs_start fresh after = \<lparr>nodes = (\<lambda>_. None), fds = (\<lambda>_. None), next_object = 0, root_mountpoint = None,
     next_inode = 0, vfs_stdin = 0, vfs_stdout = 0, vfs_stderr = 0, fresh_bytes = fresh, fresh_buckets = (\<lambda>_. []),
     after_empty = after,
     key_events = [], screen = []\<rparr>"

definition root_node :: vnode where
  "root_node = (new_node [0x2f] Tmpfs Directory 0)\<lparr>n_children := Some no_children\<rparr>"

definition vfs_booted :: "(nat \<Rightarrow> u8) \<Rightarrow> (nat \<Rightarrow> u8) \<Rightarrow> vfs" where
  "vfs_booted fresh after = (vfs_start fresh after)\<lparr>nodes := [0 \<mapsto> root_node], next_object := 1,
     root_mountpoint := Some 0, next_inode := 1\<rparr>"

lemma vfs_mount_root: "vfs_mount None Tmpfs (vfs_start fresh after) = Inr (vfs_booted fresh after)"
  by (simp add: vfs_mount_def vfs_start_def vfs_booted_def root_node_def deref_def new_node_def new_children_def)

lemma vfs_booted_simps [simp]:
  "nodes (vfs_booted fresh after) = [0 \<mapsto> root_node]" "next_object (vfs_booted fresh after) = 1"
  "root_mountpoint (vfs_booted fresh after) = Some 0" "after_empty (vfs_booted fresh after) = after"
  "fresh_bytes (vfs_booted fresh after) = fresh" "fresh_buckets (vfs_booted fresh after) = (\<lambda>_. [])"
  "n_children root_node = Some no_children" "n_fs root_node = Tmpfs"
  by (simp_all add: vfs_booted_def root_node_def vfs_start_def new_node_def)

lemma vfs_booted_ok: "vfs_ok (vfs_booted fresh after)"
  by (auto simp: vfs_ok_def split: if_splits)

section \<open>Properties of the tree\<close>

lemma vfs_create_correct:
  assumes "vfs_ok s" and "root_mountpoint s \<noteq> None" and "take 1 path \<noteq> [0x2f]"
    and "vfs_create path type s = Inr (node, s')"
  shows "node \<noteq> None \<and> vfs_get_node path s' = Inr node \<and> vfs_ok s' \<and> tree_grows s s' \<and>
    (\<forall>q b. vfs_get_node q s = Inr (Some b) \<longrightarrow> vfs_get_node q s' = Inr (Some b))"
proof -
  obtain r where r: "root_mountpoint s = Some r" "r \<in> dom (nodes s)" using assms(1,2) by (auto simp: vfs_ok_def)
  then obtain a fs where a: "node = Some a" "create_loop path type fs r s = Inr (a, s')"
    using assms(4) by (auto simp: vfs_create_def and_then_eq_Inr)
  have path: "dropWhile (\<lambda>c. c = 0x2f) path = path" using assms(3) by (cases path) auto
  have "vfs_ok s' \<and> tree_grows s s' \<and> get_node_loop path r s' = Inr (Some a)"
    by (rule create_loop_correct [OF a(2) assms(1) r(2)])
  moreover from this have "root_mountpoint s' = Some r" using r by (simp add: tree_grows_def)
  ultimately show ?thesis using a r path get_node_loop_grows by (fastforce simp: vfs_get_node_def)
qed

text \<open>
  C11: When \<open>create\<close> returns a node for a path without a leading slash, looking the path up
  returns this node, every path that was resolved before is resolved to the same node, no
  other part of a node changes, and the tree stays well formed. The buckets of new directories are
  taken to be null pointers (\<open>vfs_ok\<close>).
\<close>

theorem vfs_create_resolves:
  assumes "vfs_ok s" and "root_mountpoint s \<noteq> None" and "take 1 path \<noteq> [0x2f]"
    and "vfs_create path type s = Inr (node, s')"
  shows "node \<noteq> None \<and> vfs_get_node path s' = Inr node \<and> vfs_ok s' \<and> tree_grows s s' \<and>
    (\<forall>q b. vfs_get_node q s = Inr (Some b) \<longrightarrow> vfs_get_node q s' = Inr (Some b))"
  by (rule vfs_create_correct [OF assms])

theorem vfs_create_resolves_witness:
  "\<exists>s'. vfs_create [0x61] Directory (vfs_booted (\<lambda>_. 0) (\<lambda>_. 0)) = Inr (Some 1, s') \<and> vfs_get_node [0x61] s' = Inr (Some 1)"
proof -
  let ?s = "vfs_booted (\<lambda>_. 0) (\<lambda>_. 0)"
  have "vfs_create [0x61] Directory ?s =
      Inr (Some 1, add_child 0 [0x61] (child_node [0x61] Directory Tmpfs 0 ?s) root_node no_children ?s)"
    using create_loop_new [of "[0x61]" ?s 0 root_node no_children] by (simp add: vfs_create_def deref_def)
  with vfs_create_resolves [OF vfs_booted_ok _ _ this] show ?thesis by simp
qed

text \<open>
  C40: In a directory, creating a file in a directory that does not exist yet creates both,
  unless \<open>strcmp\<close> takes the rest of the path for the empty string, as it does for a rest of one
  character followed by a null byte behind the literal: the directory is then made a file
  and adding the file to it dereferences a null pointer. The buckets of the new directory are taken
  to be null pointers (\<open>vfs_ok\<close>).
\<close>

theorem vfs_create_in_new_directory:
  assumes "vfs_ok s" "root_mountpoint s = Some r" "nodes s r = Some p" "n_children p = Some m"
    and "hm_get dir m = None" "dir \<noteq> []" "name \<noteq> []" "0x2f \<notin> set dir" "0x2f \<notin> set name"
  shows "(strcmp_empty name (after_empty s) \<longrightarrow> vfs_create (dir @ 0x2f # name) File s = Inl Null_Pointer) \<and>
    (\<not> strcmp_empty name (after_empty s) \<longrightarrow>
       (\<exists>s' a d f. vfs_create (dir @ 0x2f # name) File s = Inr (Some a, s') \<and> a = next_object s + 1 \<and>
          nodes s' (next_object s) = Some d \<and> n_type d = Directory \<and> n_name d = dir \<and>
          nodes s' a = Some f \<and> n_type f = File \<and> n_name f = name \<and> n_fs f = n_fs p \<and> file_data f = [])) \<and>
    (length name = 1 \<longrightarrow> after_empty s 0 = 0 \<longrightarrow> strcmp_empty name (after_empty s))"
proof (intro conjI impI)
  have rest: "path_rest (dir @ 0x2f # name) = name"
    using assms(7-9) by (cases name) auto
  let ?n = "child_node (dir @ 0x2f # name) File (n_fs p) r s" and ?a = "next_object s"
  let ?s = "add_child r dir ?n p m s"
  have kind: "n_children ?n = (if strcmp_empty name (after_empty s) then None else Some no_children)"
    "n_type ?n = (if strcmp_empty name (after_empty s) then File else Directory)" "n_name ?n = dir"
    using assms(8) new_children_null [OF assms(1)] by (simp_all add: child_node_def child_type_def rest new_node_def)
  have "n_children ?n = None \<or> n_children ?n = Some no_children" by (simp add: kind)
  note new = add_child_props [OF assms(1,3,4) this assms(5)]
  have step: "vfs_create (dir @ 0x2f # name) File s =
      and_then (create_loop name File (n_fs p) ?a ?s) (\<lambda>(node, s). Inr (Some node, s))"
    using assms(2-5,8) create_loop_new [of "dir @ 0x2f # name" s r p m]
    by (simp add: vfs_create_def deref_def rest)
  show "vfs_create (dir @ 0x2f # name) File s = Inl Null_Pointer" if "strcmp_empty name (after_empty s)"
    using create_loop_no_directory [OF assms(7) new(4)] that by (simp add: step kind)
  show "\<exists>s' a d f. vfs_create (dir @ 0x2f # name) File s = Inr (Some a, s') \<and> a = next_object s + 1 \<and>
          nodes s' (next_object s) = Some d \<and> n_type d = Directory \<and> n_name d = dir \<and>
          nodes s' a = Some f \<and> n_type f = File \<and> n_name f = name \<and> n_fs f = n_fs p \<and> file_data f = []"
    if long: "\<not> strcmp_empty name (after_empty s)"
  proof -
    let ?f = "child_node name File (n_fs p) ?a ?s"
    have "create_loop name File (n_fs p) ?a ?s =
        Inr (next_object ?s, add_child ?a name ?f ?n no_children ?s)"
      using create_loop_new [OF assms(7) new(4), of no_children] long assms(9) by (simp add: kind)
    then have "vfs_create (dir @ 0x2f # name) File s = Inr (Some (?a + 1), add_child ?a name ?f ?n no_children ?s)"
      unfolding step by (simp add: add_child_def)
    then show ?thesis
      using kind long assms(9)
      by (simp add: add_child_def child_node_def [of name] child_type_def [of name] new_node_def)
  qed
  show "strcmp_empty name (after_empty s)" if "length name = 1" "after_empty s 0 = 0"
    using that by (cases name) (auto simp: strcmp_empty_def)
qed

theorem vfs_create_in_new_directory_witness:
  "vfs_create [0x61, 0x2f, 0x62] File (vfs_booted (\<lambda>_. 0) (\<lambda>_. 0)) = Inl Null_Pointer"
  using vfs_create_in_new_directory [OF vfs_booted_ok _ _ _ no_children_found, of "\<lambda>_. 0" "\<lambda>_. 0" 0 root_node "[0x61]" "[0x62]"]
  by simp

text \<open>
  \<open>create\<close> takes a leading slash for an empty name where \<open>get_node\<close> skips it: a new file
  created under an absolute path is not found under this path, unless its name and the
  empty name have the same hash.
\<close>

lemma vfs_create_absolute_not_found:
  assumes "vfs_ok s" "root_mountpoint s = Some r" "nodes s r = Some p" "n_children p = Some m"
    and "hm_get [] m = None" "hm_get name m = None" "name \<noteq> []" "0x2f \<notin> set name" "hash_key name \<noteq> hash_key []"
    and "vfs_create (0x2f # name) type s = Inr (node, s')"
  shows "node \<noteq> None \<and> vfs_get_node (0x2f # name) s' = Inr None"
proof -
  have rest: "path_rest (0x2f # name) = name" "path_name (0x2f # name) = []"
    using assms(7,8) path_rest_slash [of "[]" name] path_name_slash [of "[]" name] by (cases name; auto)+
  let ?n = "child_node (0x2f # name) type (n_fs p) r s" and ?a = "next_object s"
  let ?s = "add_child r [] ?n p m s"
  have "n_children ?n = None \<or> n_children ?n = Some no_children" using child_node_children [OF assms(1)] by simp
  note new = add_child_props [OF assms(1,3,4) this assms(5)]
  have "create_loop (0x2f # name) type (n_fs p) r s = create_loop name type (n_fs p) ?a ?s"
    using create_loop_new [of "0x2f # name" s r p m] assms(3-5) by (simp add: rest)
  then obtain b where b: "create_loop name type (n_fs p) ?a ?s = Inr (b, s')" "node = Some b"
    using assms(2,3,10) by (auto simp: vfs_create_def deref_def and_then_eq_Inr)
  let ?m = "hm_insert [] ?a m"
  have ne: "r \<noteq> ?a" "r \<noteq> ?a + 1" using assms(1,3) by (auto simp: vfs_ok_def)
  have root: "nodes ?s r = Some (p\<lparr>n_children := Some ?m\<rparr>)" by (simp add: add_child_def)
  have "n_children ?n = Some no_children"
    using b(1) create_loop_no_directory [OF assms(7) new(4)] \<open>n_children ?n = None \<or> _\<close> by fastforce
  then have "nodes s' r = nodes ?s r"
    using b(1) create_loop_new [OF assms(7) new(4), of no_children] assms(8) ne
    by (auto simp: add_child_def)
  moreover have "hm_get name ?m = None"
    using hm.look_ins [of m name "[]" ?a] vfs_ok_child [OF assms(1,3,4)] assms(6,9) by auto
  moreover have "dropWhile (\<lambda>c. c = 0x2f) (0x2f # name) = name" using assms(7,8) by (cases name) auto
  moreover have "root_mountpoint s' = Some r"
    using create_loop_correct [OF b(1) new(1)] new(4) assms(2) by (auto simp: tree_grows_def add_child_def)
  ultimately show ?thesis
    using b(2) root assms(7,8) get_node_loop.simps [of name r s']
    by (simp add: vfs_get_node_def deref_def non_null_def)
qed

lemma vfs_create_absolute_not_found_witness:
  "\<exists>s'. vfs_create [0x2f, 0x61] Directory (vfs_booted (\<lambda>_. 0) (\<lambda>_. 0)) = Inr (Some 2, s') \<and>
    vfs_get_node [0x2f, 0x61] s' = Inr None"
proof -
  let ?s = "vfs_booted (\<lambda>_. 0) (\<lambda>_. 0)"
  let ?n = "child_node [0x2f, 0x61] Directory Tmpfs 0 ?s"
  let ?t = "add_child 0 [] ?n root_node no_children ?s"
  have path: "path_rest [0x2f, 0x61] = [0x61]" "path_name [0x2f, 0x61] = []"
    by (simp_all add: path_rest_def path_name_def)
  have n: "nodes ?t 1 = Some ?n" "n_children ?n = Some no_children"
    by (simp_all add: add_child_def child_node_children [OF vfs_booted_ok] child_type_def)
  have hash: "hash_key [0x61] \<noteq> hash_key []" by (simp add: hash_key_def hash_step_def)
  have "vfs_create [0x2f, 0x61] Directory ?s =
      Inr (Some 2, add_child 1 [0x61] (child_node [0x61] Directory Tmpfs 1 ?t) ?n no_children ?t)"
    using create_loop_new [of "[0x2f, 0x61]" ?s 0 root_node no_children]
      create_loop_new [of "[0x61]" ?t 1 ?n no_children] n
    by (simp add: vfs_create_def deref_def path) (simp add: add_child_def)
  with vfs_create_absolute_not_found [OF vfs_booted_ok _ _ _ _ _ _ _ hash this, of 0 root_node no_children]
  show ?thesis by simp
qed

end
