(* ===== verification/File_Store.thy ===== *)
theory File_Store
  imports Vfs
begin

text \<open>
  Reading and writing files: the contract of a \<open>FileSystem\<close> that stores data, as the locale
  \<open>file_store\<close>, the memory file system as an instance, and what \<open>read\<close>, \<open>write\<close> and \<open>seek\<close> on
  descriptors make of it, with the growth of files.
\<close>

section \<open>The contract of a storing file system\<close>

text \<open>\<open>room n off len\<close> says that the file has memory for \<open>len\<close> bytes from \<open>off\<close> on.\<close>

locale file_store =
  fixes rd :: "vnode \<Rightarrow> u64 \<Rightarrow> u64 \<Rightarrow> fault + (u64 \<times> u8 list)"
    and wr :: "vnode \<Rightarrow> u8 list \<Rightarrow> u64 \<Rightarrow> u64 \<Rightarrow> fault + (u64 \<times> vnode)"
    and room :: "vnode \<Rightarrow> u64 \<Rightarrow> u64 \<Rightarrow> bool"
  assumes wr_total: "room n off len \<Longrightarrow> unat len \<le> length buf \<Longrightarrow> \<exists>n'. wr n buf off len = Inr (len, n')"
    and wr_room: "wr n buf off len = Inr (k, n') \<Longrightarrow> room n' = room n"
    and rd_wr: "room n off len \<Longrightarrow> wr n buf off len = Inr (k, n') \<Longrightarrow> rd n' off len = Inr (len, take (unat len) buf)"
    and rd_other: "room n off len \<Longrightarrow> wr n buf off len = Inr (k, n') \<Longrightarrow>
      unat o' + unat l' \<le> unat off \<or> unat off + unat len \<le> unat o' \<Longrightarrow> rd n' o' l' = rd n o' l'"
begin

text \<open>Two writes that do not overlap are both read back.\<close>

lemma two_writes:
  assumes "room n off len" "room n o' l'" "unat len \<le> length buf" "unat l' \<le> length buf'"
    and apart: "unat o' + unat l' \<le> unat off \<or> unat off + unat len \<le> unat o'"
  obtains n1 n2 where "wr n buf off len = Inr (len, n1)" "wr n1 buf' o' l' = Inr (l', n2)"
    "rd n2 off len = Inr (len, take (unat len) buf)" "rd n2 o' l' = Inr (l', take (unat l') buf')"
proof -
  obtain n1 where n1: "wr n buf off len = Inr (len, n1)" using wr_total [OF assms(1,3)] by blast
  have room: "room n1 o' l'" using wr_room [OF n1] assms(2) by simp
  then obtain n2 where n2: "wr n1 buf' o' l' = Inr (l', n2)" using wr_total [OF _ assms(4)] by blast
  have "rd n2 off len = Inr (len, take (unat len) buf)"
    using rd_other [OF room n2] apart rd_wr [OF assms(1) n1] by metis
  then show thesis using rd_wr [OF room n2] by (intro that [OF n1 n2])
qed

end

definition tmpfs_room :: "vnode \<Rightarrow> u64 \<Rightarrow> u64 \<Rightarrow> bool" where
  "tmpfs_room n off len \<longleftrightarrow> n_type n = File \<and> unat off + unat len \<le> length (file_data n)"

lemma overlay_same:
  assumes "a + length ys \<le> length xs" "length ys = l"
  shows "take l (drop a (take a xs @ ys @ drop (a + l) xs)) = ys"
  using assms by simp

lemma overlay_other:
  assumes "a + length ys \<le> length xs" "length ys = l" "b + k \<le> a \<or> a + l \<le> b"
  shows "take k (drop b (take a xs @ ys @ drop (a + l) xs)) = take k (drop b xs)"
proof (rule nth_equalityI)
  show "length (take k (drop b (take a xs @ ys @ drop (a + l) xs))) = length (take k (drop b xs))"
  proof -
    have "length (take a xs @ ys @ drop (a + l) xs) = length xs" using assms(1,2) by simp
    then show ?thesis by (simp only: length_take length_drop)
  qed
next
  fix i assume "i < length (take k (drop b (take a xs @ ys @ drop (a + l) xs)))"
  then show "take k (drop b (take a xs @ ys @ drop (a + l) xs)) ! i = take k (drop b xs) ! i"
    using assms by (auto simp: nth_append)
qed

interpretation tmpfs: file_store tmpfs_read tmpfs_write tmpfs_room
proof
  show "\<exists>n'. tmpfs_write n buf off len = Inr (len, n')" if "tmpfs_room n off len" "unat len \<le> length buf" for n buf off len
    using that by (simp add: tmpfs_write_def tmpfs_room_def)
  show "tmpfs_room n' = tmpfs_room n" if "tmpfs_write n buf off len = Inr (k, n')" for n n' buf off len k
    using that by (auto simp: tmpfs_write_def tmpfs_room_def fun_eq_iff split: if_splits)
  show "tmpfs_read n' off len = Inr (len, take (unat len) buf)"
    if "tmpfs_room n off len" "tmpfs_write n buf off len = Inr (k, n')" for n n' buf off len k
    using that overlay_same [of "unat off" "take (unat len) buf" "file_data n" "unat len"]
    by (auto simp: tmpfs_write_def tmpfs_read_def tmpfs_room_def split: if_splits)
  show "tmpfs_read n' o' l' = tmpfs_read n o' l'"
    if "tmpfs_room n off len" "tmpfs_write n buf off len = Inr (k, n')"
      "unat o' + unat l' \<le> unat off \<or> unat off + unat len \<le> unat o'" for n n' buf off len k o' l'
    using that overlay_other [of "unat off" "take (unat len) buf" "file_data n" "unat len" "unat o'" "unat l'"]
    by (auto simp: tmpfs_write_def tmpfs_read_def tmpfs_room_def split: if_splits)
qed

section \<open>Growing a file\<close>

text \<open>
  The regular files of the memory file system are of two kinds: those a program created, whose array has the
  length of the capacity, and those with data that were made from the archive, whose capacity was never set.
\<close>

definition file_ok :: "vnode \<Rightarrow> bool" where
  "file_ok n \<longleftrightarrow> n_type n = File \<and> n_fs n = Tmpfs \<and> length (file_data n) = unat (n_capacity n) \<and>
     file_size n \<le> n_capacity n"

definition archive_file :: "vnode \<Rightarrow> bool" where
  "archive_file n \<longleftrightarrow> n_type n = File \<and> n_fs n = Tmpfs \<and> n_capacity n = 0 \<and> file_size n \<noteq> 0"

lemma unat_plus_u64: "unat a + unat b < 2 ^ 64 \<Longrightarrow> unat (a + b :: u64) = unat a + unat b"
  by (simp add: unat_word_ariths)

lemma unat_double: "unat (c :: u64) < 2 ^ 63 \<Longrightarrow> unat (c * 2) = 2 * unat c"
  by (subst mult.commute, subst unat_mult_lem [THEN iffD1]) simp_all

text \<open>Doubling reaches every size up to half the address space, and from zero it never ends.\<close>

lemma grow_enough:
  assumes "capacity \<noteq> 0" "unat need \<le> 2 ^ 63"
  shows "\<exists>c. grow need capacity = Some c \<and> need \<le> c \<and> capacity \<le> c"
  using assms(1)
proof (induction "2 ^ 63 - unat capacity" arbitrary: capacity rule: less_induct)
  case less
  show ?case
  proof (cases "need > capacity")
    case True
    then have lt: "unat capacity < 2 ^ 63" using assms(2) by (simp add: word_less_nat_alt)
    have pos: "0 < unat capacity" using less.prems by (simp add: unat_gt_0)
    have double: "unat (capacity * 2) = 2 * unat capacity" by (rule unat_double [OF lt])
    then have "capacity * 2 \<noteq> 0" "capacity \<le> capacity * 2" using pos by (auto simp: word_le_nat_alt)
    moreover have "2 ^ 63 - unat (capacity * 2) < 2 ^ 63 - unat capacity" using double pos lt by linarith
    ultimately obtain c where "grow need (capacity * 2) = Some c" "need \<le> c" "capacity * 2 \<le> c"
      using less.hyps by blast
    then show ?thesis using True \<open>capacity \<le> capacity * 2\<close> by (subst grow.simps) auto
  next
    case False
    then show ?thesis by (subst grow.simps) auto
  qed
qed

lemma grow_zero_False: "grow need capacity = Some c \<Longrightarrow> capacity = 0 \<longrightarrow> need \<noteq> 0 \<longrightarrow> False"
proof (rule grow.raw_induct [where P = "\<lambda>need capacity c. capacity = 0 \<longrightarrow> need \<noteq> 0 \<longrightarrow> False"])
  fix f :: "u64 \<Rightarrow> u64 \<Rightarrow> u64 option" and n k r
  assume IH: "\<And>n k r. f n k = Some r \<Longrightarrow> k = 0 \<longrightarrow> n \<noteq> 0 \<longrightarrow> False"
    and eq: "(if n > k then f n (k * 2) else Some k) = Some r"
  show "k = 0 \<longrightarrow> n \<noteq> 0 \<longrightarrow> False"
  proof (intro impI)
    assume "k = 0" "n \<noteq> 0"
    with eq have "f n 0 = Some r" by (simp add: word_gt_0)
    from IH [OF this] show False using \<open>n \<noteq> 0\<close> by simp
  qed
qed

lemma grow_from_zero:
  assumes "need \<noteq> 0"
  shows "grow need 0 = None"
proof (rule ccontr)
  assume "grow need 0 \<noteq> None"
  then obtain c where "grow need 0 = Some c" by blast
  then show False using assms grow_zero_False by fastforce
qed

lemma new_bytes_length [simp]: "length (new_bytes s n) = unat n"
  by (simp add: new_bytes_def)

text \<open>What a write finds: room for the data, the old contents if it fitted before.\<close>

lemma reserve_enough:
  assumes "file_ok n" "unat pos + unat len \<le> 2 ^ 63" "file_size n = 0 \<longrightarrow> pos = 0"
  obtains n' where "reserve pos len n s = Inr n'" "file_ok n'" "tmpfs_room n' pos len"
    "file_size n \<noteq> 0 \<longrightarrow> file_size n' = file_size n" "file_size n = 0 \<longrightarrow> file_size n' = len"
    "file_size n \<noteq> 0 \<and> pos + len \<le> n_capacity n \<longrightarrow> n' = n"
    "file_size n \<noteq> 0 \<and> pos + len > n_capacity n \<longrightarrow> file_data n' = new_bytes s (n_capacity n')"
proof (cases "file_size n = 0")
  case True
  let ?n = "n\<lparr>file_data := new_bytes s len, file_size := len, n_capacity := len\<rparr>"
  have "reserve pos len n s = Inr ?n" using True by (simp add: reserve_def)
  moreover have "file_ok ?n" "tmpfs_room ?n pos len" using assms(1,3) True by (simp_all add: file_ok_def tmpfs_room_def)
  ultimately show thesis using True by (intro that [of ?n]) simp_all
next
  case False
  have sum: "unat (pos + len) = unat pos + unat len"
    by (rule unat_plus_u64, rule le_less_trans [OF assms(2)]) simp
  show thesis
  proof (cases "pos + len > n_capacity n")
    case True
    have "n_capacity n \<noteq> 0" using assms(1) False by (auto simp: file_ok_def)
    then obtain c where "grow (pos + len) (n_capacity n) = Some c" "pos + len \<le> c" "n_capacity n \<le> c"
      using grow_enough [of "n_capacity n" "pos + len"] assms(2) sum by auto
    then have c: "grow (pos + len) (n_capacity n) = Some c" "unat pos + unat len \<le> unat c" "n_capacity n \<le> c"
      using sum by (simp_all add: word_le_nat_alt)
    let ?n = "n\<lparr>file_data := new_bytes s c, n_capacity := c\<rparr>"
    have "reserve pos len n s = Inr ?n" using False True c(1) by (simp add: reserve_def terminating_def)
    moreover have "file_ok ?n" using assms(1) c(3) by (auto simp: file_ok_def)
    moreover have "tmpfs_room ?n pos len" using assms(1) c(2) by (simp add: file_ok_def tmpfs_room_def)
    ultimately show thesis using False True by (intro that [of ?n]) simp_all
  next
    case fits: False
    then have "unat pos + unat len \<le> unat (n_capacity n)"
      using sum by (simp add: word_less_nat_alt)
    then have "reserve pos len n s = Inr n" "tmpfs_room n pos len"
      using assms(1) False fits by (simp_all add: reserve_def file_ok_def tmpfs_room_def)
    then show thesis using False fits assms(1) by (intro that [of n]) simp_all
  qed
qed

section \<open>Descriptors\<close>

text \<open>The node behind a descriptor.\<close>

definition fd_points :: "'a vfs_scheme \<Rightarrow> nat \<Rightarrow> file_descriptor \<Rightarrow> vnode \<Rightarrow> bool" where
  "fd_points s d f n \<longleftrightarrow> fds s d = Some f \<and> nodes s (fd_node f) = Some n"

definition written :: "vnode \<Rightarrow> u64 \<Rightarrow> u64 \<Rightarrow> vnode" where
  "written n pos len = (if pos + len > file_size n then n\<lparr>file_size := pos + len\<rparr> else n)"

lemma vfs_write_step:
  assumes "fd_points s d f n" "fd_mode f \<noteq> ReadOnly" "n_type n = File" "reserve (rw_position f) len n s = Inr n1"
    "n_fs n1 = Tmpfs" "tmpfs_write n1 buf (rw_position f) len = Inr (k, n2)"
  shows "vfs_write (Some d) buf len s =
    Inr (k, advance d len (s\<lparr>nodes := (nodes s)(fd_node f \<mapsto> written n2 (rw_position f) len)\<rparr>))"
  using assms by (simp add: vfs_write_def fd_points_def deref_def fs_write_def written_def Let_def)

lemma vfs_read_step:
  assumes "fd_points s d f n" "fd_mode f \<noteq> WriteOnly" "n_type n = File" "n_fs n = Tmpfs"
    "rw_position f < file_size n" "tmpfs_read n (rw_position f) len = Inr (k, bytes)"
  shows "vfs_read (Some d) len s = Inr (k, bytes, if d \<noteq> vfs_stdin s then advance d len s else s)"
  using assms by (simp add: vfs_read_def fd_points_def deref_def fs_read_def flip: not_less)

lemma fd_points_advance:
  "fd_points s d f n \<Longrightarrow> fd_points (advance d len s) d (f\<lparr>rw_position := rw_position f + len\<rparr>) n"
  by (simp add: fd_points_def advance_def)

text \<open>The state after a write, and what a read at the same place then finds.\<close>

lemma vfs_write_stored:
  assumes "fd_points s d f n" "file_ok n" "fd_mode f = ReadWrite"
    and "unat (rw_position f) + unat len \<le> 2 ^ 63" "file_size n = 0 \<longrightarrow> rw_position f = 0"
    and "len \<noteq> 0" "unat len \<le> length buf"
  obtains n' where "vfs_write (Some d) buf len s = Inr (len, advance d len (s\<lparr>nodes := (nodes s)(fd_node f \<mapsto> n')\<rparr>))"
    "file_ok n'" "rw_position f < file_size n'" "tmpfs_read n' (rw_position f) len = Inr (len, take (unat len) buf)"
    "file_size n' = (if file_size n < rw_position f + len then rw_position f + len else file_size n)"
    "file_size n \<noteq> 0 \<and> rw_position f + len \<le> n_capacity n \<longrightarrow>
      (\<forall>i < length (file_data n). i < unat (rw_position f) \<or> unat (rw_position f) + unat len \<le> i \<longrightarrow>
        file_data n' ! i = file_data n ! i)"
proof -
  let ?pos = "rw_position f"
  obtain n1 where n1: "reserve ?pos len n s = Inr n1" "file_ok n1" "tmpfs_room n1 ?pos len"
    "file_size n \<noteq> 0 \<longrightarrow> file_size n1 = file_size n" "file_size n = 0 \<longrightarrow> file_size n1 = len"
    "file_size n \<noteq> 0 \<and> ?pos + len \<le> n_capacity n \<longrightarrow> n1 = n"
    by (rule reserve_enough [OF assms(2,4,5)]) blast
  have sum: "unat (?pos + len) = unat ?pos + unat len"
    by (rule unat_plus_u64, rule le_less_trans [OF assms(4)]) simp
  define n2 where "n2 = n1\<lparr>file_data := take (unat ?pos) (file_data n1) @ take (unat len) buf @
    drop (unat ?pos + unat len) (file_data n1)\<rparr>"
  have wr: "tmpfs_write n1 buf ?pos len = Inr (len, n2)"
    using n1(3) assms(7) by (simp add: tmpfs_write_def tmpfs_room_def n2_def)
  let ?n = "written n2 ?pos len"
  have data: "file_data ?n = file_data n2" "n_type ?n = n_type n2" "n_fs ?n = n_fs n2" "n_capacity ?n = n_capacity n2"
    by (simp_all add: written_def)
  have kept: "n_type n2 = File" "n_fs n2 = Tmpfs" "n_capacity n2 = n_capacity n1" "file_size n2 = file_size n1"
    using n1(2) by (simp_all add: n2_def file_ok_def)
  have room: "unat ?pos + unat len \<le> length (file_data n1)" "length (file_data n1) = unat (n_capacity n1)"
    using n1(2,3) by (simp_all add: tmpfs_room_def file_ok_def)
  then have len2: "length (file_data n2) = unat (n_capacity n1)" using assms(7) by (simp add: n2_def)
  have ok: "file_ok ?n"
    using n1(2) room sum len2 kept data by (auto simp: file_ok_def written_def word_le_nat_alt)
  have size: "file_size ?n = (if file_size n < ?pos + len then ?pos + len else file_size n)"
    using n1(4,5) assms(5,6) kept by (auto simp: written_def word_gt_0)
  have s1: "vfs_write (Some d) buf len s = Inr (len, advance d len (s\<lparr>nodes := (nodes s)(fd_node f \<mapsto> ?n)\<rparr>))"
    using vfs_write_step [OF assms(1) _ _ n1(1) _ wr] assms(2,3) n1(2) by (simp add: file_ok_def)
  have "?pos < ?pos + len" using sum assms(6) by (simp add: word_less_nat_alt unat_gt_0)
  then have below: "?pos < file_size ?n" unfolding size by auto
  have "tmpfs_read ?n ?pos len = tmpfs_read n2 ?pos len" by (simp add: tmpfs_read_def data)
  also have "\<dots> = Inr (len, take (unat len) buf)" by (rule tmpfs.rd_wr [OF n1(3) wr])
  finally have rd: "tmpfs_read ?n ?pos len = Inr (len, take (unat len) buf)" .
  have "file_data ?n ! i = file_data n ! i"
    if "n1 = n" "i < length (file_data n)" "i < unat ?pos \<or> unat ?pos + unat len \<le> i" for i
    using that room assms(7) unfolding data by (auto simp: n2_def nth_append)
  then show thesis using n1(6) by (intro that [OF s1 ok below rd size]) blast
qed

text \<open>A write to a file from the archive looks for a larger capacity by doubling zero for ever.\<close>

lemma vfs_write_archive:
  assumes "fd_points s d f n" "fd_mode f \<noteq> ReadOnly" "n_type n = File" "n_capacity n = 0" "file_size n \<noteq> 0"
    and "rw_position f + len \<noteq> 0"
  shows "vfs_write (Some d) buf len s = Inl Endless"
  using assms
  by (simp add: vfs_write_def fd_points_def deref_def reserve_def terminating_def grow_from_zero word_gt_0)

text \<open>
  C12: Writing through a descriptor and reading the same range back, after a seek, returns
  the bytes written: for every file of the memory file system that is empty or has a capacity, also when the
  file has to grow, if the new end is at most \<open>2 ^ 63\<close> and an empty file is written from its start. The
  size becomes the larger of the old size and the end of the write, and without growth every
  other byte is kept. For a file with data that was made from the archive, whose capacity is zero, the write
  never returns.
\<close>

theorem vfs_write_read:
  assumes "fd_points s d f n" "file_ok n \<or> archive_file n" "fd_mode f = ReadWrite" "d \<noteq> vfs_stdin s"
    and "unat (rw_position f) + unat len \<le> 2 ^ 63" "file_size n = 0 \<longrightarrow> rw_position f = 0"
    and "len \<noteq> 0" "unat len \<le> length buf"
  shows "if archive_file n then vfs_write (Some d) buf len s = Inl Endless else
    \<exists>s1 s2 s3 n'. vfs_write (Some d) buf len s = Inr (len, s1) \<and>
    vfs_seek (Some d) (rw_position f) Seek_Set s1 = Inr s2 \<and>
    vfs_read (Some d) len s2 = Inr (len, take (unat len) buf, s3) \<and>
    fd_points s3 d (f\<lparr>rw_position := rw_position f + len\<rparr>) n' \<and> file_ok n' \<and>
    file_size n' = (if file_size n < rw_position f + len then rw_position f + len else file_size n) \<and>
    (file_size n \<noteq> 0 \<and> rw_position f + len \<le> n_capacity n \<longrightarrow>
      (\<forall>i < length (file_data n). i < unat (rw_position f) \<or> unat (rw_position f) + unat len \<le> i \<longrightarrow>
        file_data n' ! i = file_data n ! i))"
proof (cases "archive_file n")
  case True
  have "unat (rw_position f + len) = unat (rw_position f) + unat len"
    by (rule unat_plus_u64, rule le_less_trans [OF assms(5)]) simp
  then have "rw_position f + len \<noteq> 0" using assms(7) by (auto simp: unat_eq_zero)
  with True show ?thesis
    using vfs_write_archive [OF assms(1)] assms(3) by (simp add: archive_file_def)
next
  case False
  then have ok: "file_ok n" using assms(2) by blast
  obtain n' where n': "vfs_write (Some d) buf len s = Inr (len, advance d len (s\<lparr>nodes := (nodes s)(fd_node f \<mapsto> n')\<rparr>))"
    "file_ok n'" "rw_position f < file_size n'" "tmpfs_read n' (rw_position f) len = Inr (len, take (unat len) buf)"
    "file_size n' = (if file_size n < rw_position f + len then rw_position f + len else file_size n)"
    "file_size n \<noteq> 0 \<and> rw_position f + len \<le> n_capacity n \<longrightarrow>
      (\<forall>i < length (file_data n). i < unat (rw_position f) \<or> unat (rw_position f) + unat len \<le> i \<longrightarrow>
        file_data n' ! i = file_data n ! i)"
    by (rule vfs_write_stored [OF assms(1) ok assms(3,5-8)])
  let ?s1 = "advance d len (s\<lparr>nodes := (nodes s)(fd_node f \<mapsto> n')\<rparr>)"
  let ?s2 = "?s1\<lparr>fds := (fds ?s1)(d \<mapsto> f)\<rparr>"
  have s2: "vfs_seek (Some d) (rw_position f) Seek_Set ?s1 = Inr ?s2"
    using assms(1) by (simp add: vfs_seek_def fd_points_def advance_def deref_def)
  have p2: "fd_points ?s2 d f n'" using assms(1) by (simp add: fd_points_def advance_def)
  then have "vfs_read (Some d) len ?s2 = Inr (len, take (unat len) buf, advance d len ?s2)"
    using vfs_read_step [OF p2 _ _ _ n'(3,4)] assms(3,4) n'(2) by (simp add: advance_def file_ok_def)
  with n' s2 fd_points_advance [OF p2, of len] show ?thesis unfolding if_not_P [OF False] by blast
qed

text \<open>A file system with one open file that holds \<open>data\<close>.\<close>

definition one_file :: "u8 list \<Rightarrow> u64 \<Rightarrow> (nat \<Rightarrow> u8) \<Rightarrow> vfs" where
  "one_file data pos fresh = \<lparr>nodes = [0 \<mapsto> (new_node [0x66] Tmpfs File 1)\<lparr>file_data := data,
       file_size := of_nat (length data), n_capacity := of_nat (length data)\<rparr>],
     fds = [1 \<mapsto> \<lparr>fd_id = 3, fd_node = 0, fd_mode = ReadWrite, rw_position = pos\<rparr>], next_object = 2,
     root_mountpoint = None, next_inode = 2, vfs_stdin = 9, vfs_stdout = 9, vfs_stderr = 9,
     fresh_bytes = fresh, fresh_buckets = (\<lambda>_. []), after_empty = (\<lambda>_. 0), key_events = [], screen = []\<rparr>"

lemma one_file_points:
  "fd_points (one_file data pos fresh) 1 \<lparr>fd_id = 3, fd_node = 0, fd_mode = ReadWrite, rw_position = pos\<rparr>
    ((new_node [0x66] Tmpfs File 1)\<lparr>file_data := data, file_size := of_nat (length data), n_capacity := of_nat (length data)\<rparr>)"
  by (simp add: fd_points_def one_file_def)

text \<open>Two bytes in a file of four, and a byte in a file as the archive leaves it.\<close>

theorem vfs_write_read_witness:
  "(\<exists>s1 s2 s3. vfs_write (Some 1) [7, 8] 2 (one_file [1, 2, 3, 4] 1 (\<lambda>_. 0)) = Inr (2, s1) \<and>
    vfs_seek (Some 1) 1 Seek_Set s1 = Inr s2 \<and> vfs_read (Some 1) 2 s2 = Inr (2, [7, 8], s3)) \<and>
   vfs_write (Some 1) [7] 1 ((one_file [1, 2] 0 (\<lambda>_. 0))\<lparr>nodes := [0 \<mapsto> (new_node [0x66] Tmpfs File 1)\<lparr>
     file_data := [1, 2], file_size := 2\<rparr>]\<rparr>) = Inl Endless"
proof
  show "\<exists>s1 s2 s3. vfs_write (Some 1) [7, 8] 2 (one_file [1, 2, 3, 4] 1 (\<lambda>_. 0)) = Inr (2, s1) \<and>
    vfs_seek (Some 1) 1 Seek_Set s1 = Inr s2 \<and> vfs_read (Some 1) 2 s2 = Inr (2, [7, 8], s3)"
    using vfs_write_read [OF one_file_points, of "[1, 2, 3, 4]" 1 "\<lambda>_. 0" 2 "[7, 8]"]
    by (auto simp: one_file_def file_ok_def archive_file_def new_node_def)
next
  let ?n = "(new_node [0x66] Tmpfs File 1)\<lparr>file_data := [1, 2], file_size := 2\<rparr>"
  let ?s = "(one_file [1, 2] 0 (\<lambda>_. 0))\<lparr>nodes := [0 \<mapsto> ?n]\<rparr>"
  have "fd_points ?s 1 \<lparr>fd_id = 3, fd_node = 0, fd_mode = ReadWrite, rw_position = 0\<rparr> ?n"
    by (simp add: fd_points_def one_file_def)
  moreover have "archive_file ?n" by (simp add: archive_file_def new_node_def)
  ultimately show "vfs_write (Some 1) [7] 1 ?s = Inl Endless"
    using vfs_write_read [of ?s 1 _ ?n 1 "[7]"] by (simp add: one_file_def)
qed

text \<open>
  C39: A write that makes a file outgrow its memory loses what the file held: the bytes in
  front of the written range are those that the new allocation happens to contain.
\<close>

theorem vfs_write_growth_loses:
  assumes "fd_points s d f n" "file_ok n" "fd_mode f \<noteq> ReadOnly" "file_size n \<noteq> 0"
    and "n_capacity n < rw_position f + len" "unat (rw_position f) + unat len \<le> 2 ^ 63" "unat len \<le> length buf"
  shows "\<exists>s' n'. vfs_write (Some d) buf len s = Inr (len, s') \<and>
    fd_points s' d (f\<lparr>rw_position := rw_position f + len\<rparr>) n' \<and>
    take (unat (rw_position f + len)) (file_data n') =
      map (fresh_bytes s) [0..<unat (rw_position f)] @ take (unat len) buf"
proof -
  let ?pos = "rw_position f"
  obtain n1 where n1: "reserve ?pos len n s = Inr n1" "file_ok n1" "tmpfs_room n1 ?pos len"
    "file_data n1 = new_bytes s (n_capacity n1)"
    using reserve_enough [OF assms(2,6)] assms(4,5) by metis
  have sum: "unat (?pos + len) = unat ?pos + unat len"
    by (rule unat_plus_u64, rule le_less_trans [OF assms(6)]) simp
  let ?data = "take (unat ?pos) (file_data n1) @ take (unat len) buf @ drop (unat ?pos + unat len) (file_data n1)"
  have wr: "tmpfs_write n1 buf ?pos len = Inr (len, n1\<lparr>file_data := ?data\<rparr>)"
    using n1(3) assms(7) by (simp add: tmpfs_write_def tmpfs_room_def)
  let ?n = "written (n1\<lparr>file_data := ?data\<rparr>) ?pos len"
  let ?s = "s\<lparr>nodes := (nodes s)(fd_node f \<mapsto> ?n)\<rparr>"
  have "vfs_write (Some d) buf len s = Inr (len, advance d len ?s)"
    using vfs_write_step [OF assms(1,3) _ n1(1) _ wr] assms(2) n1(2) by (simp add: file_ok_def)
  moreover have "fd_points ?s d f ?n" using assms(1) by (simp add: fd_points_def)
  moreover have "unat ?pos \<le> unat (n_capacity n1)"
    using n1(2,3) by (simp add: tmpfs_room_def file_ok_def)
  then have "take (unat (?pos + len)) (file_data ?n) = map (fresh_bytes s) [0..<unat ?pos] @ take (unat len) buf"
    using assms(7) unfolding sum by (simp add: written_def n1(4) new_bytes_def take_map)
  ultimately show ?thesis using fd_points_advance [of ?s d f ?n len] by blast
qed

theorem vfs_write_growth_loses_witness:
  "\<exists>s'. vfs_write (Some 1) [7, 8] 2 (one_file [1, 2] 2 (\<lambda>i. 0xee)) = Inr (2, s')"
  using vfs_write_growth_loses [OF one_file_points, of "[1, 2]" 2 2 "[7, 8]" "\<lambda>i. 0xee"]
  by (auto simp: file_ok_def new_node_def)

text \<open>An empty file written behind its start leaves the buffer allocated for it.\<close>

lemma vfs_write_faults:
  assumes "fd_points s d f n" "fd_mode f \<noteq> ReadOnly" "n_type n = File" "n_fs n = Tmpfs"
    and "file_size n = 0" "rw_position f \<noteq> 0"
  shows "vfs_write (Some d) buf len s = Inl Out_Of_Bounds"
  using assms
  by (simp add: vfs_write_def fd_points_def deref_def reserve_def fs_write_def tmpfs_write_def unat_gt_0)

lemma vfs_write_faults_witness:
  "vfs_write (Some 1) [7] 1 (one_file [] 5 (\<lambda>_. 0)) = Inl Out_Of_Bounds"
  using vfs_write_faults [OF one_file_points [of "[]" 5 "\<lambda>_. 0"], where len = 1 and buf = "[7]"] by (simp add: new_node_def)

end
