(* ===== verification/File_Types.thy ===== *)
theory File_Types
  imports File_Store Vfs_Spec
begin

text \<open>
  The types of the objects of the file system: what a node of each type has, what a descriptor refers to,
  and that no sequence of operations of the file system leaves this.
\<close>

section \<open>Well-typed objects\<close>

text \<open>
  The array of a file holds its contents and has at least its capacity; a file of the initial file system
  has contents and capacity 0.
\<close>

definition data_ok :: "vnode \<Rightarrow> bool" where
  "data_ok n \<longleftrightarrow> length (file_data n) < 2 ^ 64 \<and> unat (file_size n) \<le> length (file_data n) \<and>
     unat (n_capacity n) \<le> length (file_data n) \<and> (n_capacity n \<noteq> 0 \<longrightarrow> file_size n \<le> n_capacity n)"

definition node_typed :: "nat \<Rightarrow> vnode \<Rightarrow> bool" where
  "node_typed a n \<longleftrightarrow> (n_type n = Directory \<longleftrightarrow> n_children n \<noteq> None) \<and> (n_fs n = Tmpfs \<longrightarrow> data_ok n) \<and>
     (\<forall>m k b. n_children n = Some m \<longrightarrow> hm_get k m = Some b \<longrightarrow> a < b) \<and> (\<forall>p. n_parent n = Some p \<longrightarrow> p < a)"

definition fd_typed :: "'a vfs_scheme \<Rightarrow> nat \<Rightarrow> file_descriptor \<Rightarrow> bool" where
  "fd_typed s d f \<longleftrightarrow> d < next_object s \<and> fd_node f \<in> dom (nodes s)"

definition fs_typed :: "'a vfs_scheme \<Rightarrow> bool" where
  "fs_typed s \<longleftrightarrow> vfs_ok s \<and> (\<forall>a n. nodes s a = Some n \<longrightarrow> node_typed a n) \<and> (\<forall>d f. fds s d = Some f \<longrightarrow> fd_typed s d f)"

lemma fs_typedD:
  assumes "fs_typed s"
  shows "vfs_ok s" "nodes s a = Some n \<Longrightarrow> node_typed a n" "fds s d = Some f \<Longrightarrow> fd_typed s d f"
  using assms by (auto simp: fs_typed_def)

section \<open>Operations\<close>

datatype fs_op =
    Fs_Create "u8 list" node_type
  | Fs_Open "u8 list" open_mode
  | Fs_Close nat
  | Fs_Read nat u64
  | Fs_Write nat "u8 list" u64
  | Fs_Seek nat u64 seek_mode

definition fs_step :: "fs_op \<Rightarrow> 'a vfs_scheme \<Rightarrow> fault + 'a vfs_scheme" where
  "fs_step op s =
     (case op of
        Fs_Create path type \<Rightarrow> and_then (vfs_create path type s) (\<lambda>(_, s). Inr s)
      | Fs_Open path mode \<Rightarrow> and_then (vfs_open path mode s) (\<lambda>(_, s). Inr s)
      | Fs_Close d \<Rightarrow> Inr (vfs_close (Some d) s)
      | Fs_Read d len \<Rightarrow> and_then (vfs_read (Some d) len s) (\<lambda>(_, _, s). Inr s)
      | Fs_Write d buf len \<Rightarrow> and_then (vfs_write (Some d) buf len s) (\<lambda>(_, s). Inr s)
      | Fs_Seek d offset mode \<Rightarrow> vfs_seek (Some d) offset mode s)"

primrec fs_steps :: "fs_op list \<Rightarrow> 'a vfs_scheme \<Rightarrow> fault + 'a vfs_scheme" where
  "fs_steps [] s = Inr s"
| "fs_steps (op # ops) s = and_then (fs_step op s) (fs_steps ops)"

section \<open>Creation\<close>

lemma add_child_typed:
  assumes ok: "vfs_ok s" and typed: "\<forall>a n. nodes s a = Some n \<longrightarrow> node_typed a n"
    and p: "nodes s parent = Some p" "n_children p = Some m" and free: "hm_get name m = None"
    and n: "n_children n = None \<or> n_children n = Some no_children" "n_type n = Directory \<longleftrightarrow> n_children n \<noteq> None"
      "data_ok n" "n_parent n = Some parent"
  shows "\<forall>a n'. nodes (add_child parent name n p m s) a = Some n' \<longrightarrow> node_typed a n'"
proof (intro allI impI)
  fix a n' assume a: "nodes (add_child parent name n p m s) a = Some n'"
  let ?a = "next_object s"
  have less: "parent < ?a" using ok p(1) by (metis leI option.distinct(1) vfs_ok_def)
  have m: "hm_ok m" using vfs_ok_child [OF ok p] by blast
  have look: "hm_get k (hm_insert name ?a m) = (case hm_get k m of Some w \<Rightarrow> Some w
      | None \<Rightarrow> if hash_key name = hash_key k then Some ?a else None)" for k
    by (rule hm.look_ins [OF m])
  have get: "hm_get k (hm_insert name ?a m) = Some b \<Longrightarrow> hm_get k m = Some b \<or> b = ?a" for k b
    using look [of k] by (cases "hm_get k m"; cases "hash_key name = hash_key k") simp_all
  have "nodes (add_child parent name n p m s) a = (if a = parent then Some (p\<lparr>n_children := Some (hm_insert name ?a m)\<rparr>)
      else if a = ?a then Some n else nodes s a)"
    by (simp add: add_child_def)
  with a consider "a = parent" "n' = p\<lparr>n_children := Some (hm_insert name ?a m)\<rparr>" | "a = ?a" "n' = n" | "nodes s a = Some n'"
    by (cases "a = parent"; cases "a = ?a") auto
  then show "node_typed a n'"
  proof cases
    case 1
    have "node_typed parent p" using typed p(1) by blast
    then show ?thesis using 1 p(2) get less by (auto simp: node_typed_def data_ok_def)
  next
    case 2
    then show ?thesis using n less by (auto simp: node_typed_def)
  next
    case 3
    then show ?thesis using typed by blast
  qed
qed

lemma create_loop_typed:
  "create_loop path type fs parent s = Inr (a, s') \<Longrightarrow> vfs_ok s \<Longrightarrow> parent \<in> dom (nodes s) \<Longrightarrow>
    \<forall>a n. nodes s a = Some n \<longrightarrow> node_typed a n \<Longrightarrow> \<forall>a n. nodes s' a = Some n \<longrightarrow> node_typed a n"
proof (induction path type fs parent s rule: create_loop.induct)
  case (1 path type fs parent s)
  show ?case
  proof (cases "path = []")
    case True
    with "1.prems" show ?thesis by (simp add: create_loop.simps)
  next
    case False
    obtain p where p: "nodes s parent = Some p" using "1.prems"(3) by auto
    show ?thesis
    proof (cases "\<exists>m node. n_children p = Some m \<and> hm_get (path_name path) m = Some node")
      case True
      then obtain m node where m: "n_children p = Some m" "hm_get (path_name path) m = Some node" by blast
      have "create_loop (path_rest path) type fs node s = Inr (a, s')"
        using "1.prems"(1) False p m by (subst (asm) create_loop.simps) (simp add: deref_def)
      moreover have "node \<in> dom (nodes s)" using vfs_ok_child [OF "1.prems"(2) p m(1)] m(2) by blast
      moreover have "(case n_children p of None \<Rightarrow> None | Some m \<Rightarrow> hm_get (path_name path) m) = Some node"
        using m by simp
      ultimately show ?thesis using "1.IH"(2) False "1.prems"(2,4) by blast
    next
      case fresh: False
      let ?t = "if strcmp_empty (path_rest path) (after_empty s) then type else Directory"
      define n where "n = child_node path type fs parent s"
      have none: "(case n_children p of None \<Rightarrow> None | Some m \<Rightarrow> hm_get (path_name path) m) = None"
        using fresh by (auto split: option.splits)
      obtain m where m: "n_children p = Some m"
        using "1.prems"(1) False p none by (subst (asm) create_loop.simps) (auto simp: and_then_eq_Inr Let_def)
      let ?s = "add_child parent (path_name path) n p m s"
      have free: "hm_get (path_name path) m = None" using fresh m by auto
      have rec: "create_loop (path_rest path) type fs (next_object s) ?s = Inr (a, s')"
        using "1.prems"(1) create_loop_new [OF False p m free] by (simp add: n_def)
      have n: "n_children n = None \<or> n_children n = Some no_children" "n_type n = Directory \<longleftrightarrow> n_children n \<noteq> None"
        "data_ok n" "n_parent n = Some parent"
        using new_children_null [OF "1.prems"(2)]
        by (auto simp: n_def child_node_def child_type_def new_node_def data_ok_def)
      have "vfs_ok ?s" "next_object s \<in> dom (nodes ?s)"
        using add_child_props(1,4) [OF "1.prems"(2) p m n(1) free] by auto
      moreover have "\<forall>a n. nodes ?s a = Some n \<longrightarrow> node_typed a n"
        by (rule add_child_typed [OF "1.prems"(2,4) p m free n])
      ultimately show ?thesis
        using "1.IH"(1) [OF False none refl refl refl] rec
        unfolding n_def child_node_def child_type_def add_child_def by blast
    qed
  qed
qed

lemma create_loop_next: "create_loop path type fs parent s = Inr (a, s') \<Longrightarrow> next_object s \<le> next_object s'"
proof (induction path type fs parent s rule: create_loop.induct)
  case (1 path type fs parent s)
  show ?case
    using "1.prems" "1.IH"
    by (subst (asm) create_loop.simps)
       (fastforce simp: and_then_eq_Inr Let_def split: if_splits option.splits)
qed

lemma create_typed:
  assumes "fs_typed s" and "vfs_create path type s = Inr (node, s')"
  shows "fs_typed s'"
proof (cases "root_mountpoint s")
  case None
  then show ?thesis using assms by (simp add: vfs_create_def)
next
  case (Some r)
  have ok: "vfs_ok s" "\<forall>a n. nodes s a = Some n \<longrightarrow> node_typed a n" using assms(1) by (simp_all add: fs_typed_def)
  have r: "r \<in> dom (nodes s)" using ok(1) Some by (simp add: vfs_ok_def)
  obtain a fs where c: "create_loop path type fs r s = Inr (a, s')"
    using assms(2) Some by (auto simp: vfs_create_def and_then_eq_Inr)
  note grown = create_loop_correct [OF c ok(1) r]
  have dom: "dom (nodes s) \<subseteq> dom (nodes s')" using grown by (fastforce simp: tree_grows_def)
  have "fds s' = fds s" "next_object s \<le> next_object s'"
    using grown create_loop_next [OF c] by (simp_all add: tree_grows_def)
  then have "fd_typed s' d f" if "fds s' d = Some f" for d f
    using fs_typedD(3) [OF assms(1), of d f] that dom by (auto simp: fd_typed_def)
  then show ?thesis
    using grown create_loop_typed [OF c ok(1) r ok(2)] by (simp add: fs_typed_def)
qed


section \<open>Writing\<close>

lemma grow_reaches: "grow need capacity = Some c \<Longrightarrow> need \<le> c"
proof (rule grow.raw_induct [where P = "\<lambda>need capacity c. need \<le> c"])
  fix f :: "u64 \<Rightarrow> u64 \<Rightarrow> u64 option" and n k r
  assume "\<And>n k r. f n k = Some r \<Longrightarrow> n \<le> r" and "(if n > k then f n (k * 2) else Some k) = Some r"
  then show "n \<le> r" by (auto split: if_splits)
qed

text \<open>The array and the sizes a write leaves.\<close>

lemma reserve_cases:
  assumes "reserve pos len n s = Inr n'"
  obtains "file_size n = 0" "n' = n\<lparr>file_data := new_bytes s len, file_size := len, n_capacity := len\<rparr>"
  | c where "file_size n \<noteq> 0" "n_capacity n < pos + len" "pos + len \<le> c" "n_capacity n \<noteq> 0"
      "n' = n\<lparr>file_data := new_bytes s c, n_capacity := c\<rparr>"
  | "file_size n \<noteq> 0" "pos + len \<le> n_capacity n" "n' = n"
proof (cases "file_size n = 0 \<or> pos + len \<le> n_capacity n")
  case True
  then show thesis using assms that(1,3) by (auto simp: reserve_def split: if_splits)
next
  case False
  then obtain c where c: "grow (pos + len) (n_capacity n) = Some c" "n' = n\<lparr>file_data := new_bytes s c, n_capacity := c\<rparr>"
    using assms by (auto simp: reserve_def and_then_eq_Inr not_le split: if_splits)
  moreover have "n_capacity n \<noteq> 0" using grow_zero_False [OF c(1)] False by auto
  ultimately show thesis using False grow_reaches [OF c(1)] by (intro that(2) [of c]) (simp_all add: not_le)
qed

lemma write_data_ok:
  assumes "data_ok n" "reserve pos len n s = Inr n1" "tmpfs_write n1 buf pos len = Inr (k, n2)" "n_type n = File"
  shows "data_ok (written n2 pos len)"
proof -
  have type: "n_type n1 = File" using assms(2) by (rule reserve_cases) (use assms(4) in simp_all)
  then have fit: "unat pos + unat len \<le> length (file_data n1)" "unat len \<le> length buf"
    and n2: "n2 = n1\<lparr>file_data := take (unat pos) (file_data n1) @ take (unat len) buf @ drop (unat pos + unat len) (file_data n1)\<rparr>"
    using assms(3) by (auto simp: tmpfs_write_def split: if_splits)
  have same: "length (file_data n2) = length (file_data n1)" "file_size n2 = file_size n1" "n_capacity n2 = n_capacity n1"
    using fit by (simp_all add: n2)
  have bound: "length (file_data n1) < 2 ^ 64"
    using assms(2) by (rule reserve_cases) (use assms(1) in \<open>simp_all add: data_ok_def unat_u64_less [simplified]\<close>)
  have sum: "unat (pos + len) = unat pos + unat len" by (rule unat_plus_u64) (use fit bound in linarith)
  have ok: "data_ok n1 \<and> (n_capacity n1 \<noteq> 0 \<longrightarrow> pos + len \<le> n_capacity n1)"
    using assms(2)
  proof (cases rule: reserve_cases)
    case 1
    then show ?thesis using fit sum by (simp add: data_ok_def word_le_nat_alt unat_u64_less [simplified])
  next
    case (2 c)
    then have "file_size n \<le> c" using assms(1) by (simp add: data_ok_def word_le_nat_alt word_less_nat_alt)
    with 2 show ?thesis by (simp add: data_ok_def word_le_nat_alt unat_u64_less [simplified])
  next
    case 3
    then show ?thesis using assms(1) by simp
  qed
  then show ?thesis
    using same sum fit by (auto simp: data_ok_def written_def)
qed

lemma reserve_same: "reserve pos len n s = Inr n' \<Longrightarrow> n_type n' = n_type n \<and> n_fs n' = n_fs n \<and>
    n_children n' = n_children n \<and> n_parent n' = n_parent n"
  by (erule reserve_cases) simp_all


section \<open>The other operations\<close>

lemma fs_typed_terminal [simp]:
  "fs_typed (s\<lparr>key_events := e\<rparr>) = fs_typed s" "fs_typed (s\<lparr>screen := x\<rparr>) = fs_typed s"
  by (simp_all add: fs_typed_def vfs_ok_def fd_typed_def)

lemma fs_typed_node:
  assumes "fs_typed s" "nodes s a = Some n" "n_type n' = n_type n" "n_fs n' = n_fs n" "n_children n' = n_children n"
    "n_parent n' = n_parent n" "n_fs n = Tmpfs \<Longrightarrow> data_ok n'"
  shows "fs_typed (s\<lparr>nodes := (nodes s)(a \<mapsto> n')\<rparr>)"
proof -
  have dom: "dom ((nodes s)(a \<mapsto> n')) = dom (nodes s)" using assms(2) by auto
  have "node_typed b x" if b: "((nodes s)(a \<mapsto> n')) b = Some x" for b x
  proof (cases "b = a")
    case True
    then have "x = n'" using b by simp
    then show ?thesis using fs_typedD(2) [OF assms(1,2)] assms(3-7) True by (simp add: node_typed_def)
  next
    case False
    then show ?thesis using b fs_typedD(2) [OF assms(1), of b x] by simp
  qed
  moreover have "vfs_ok (s\<lparr>nodes := (nodes s)(a \<mapsto> n')\<rparr>)"
    unfolding vfs_ok_def
  proof (intro conjI allI impI)
    fix b assume "next_object (s\<lparr>nodes := (nodes s)(a \<mapsto> n')\<rparr>) \<le> b"
    then show "nodes (s\<lparr>nodes := (nodes s)(a \<mapsto> n')\<rparr>) b = None"
      using fs_typedD(1) [OF assms(1)] assms(2) by (auto simp: vfs_ok_def)
  next
    fix b x m assume "nodes (s\<lparr>nodes := (nodes s)(a \<mapsto> n')\<rparr>) b = Some x" "n_children x = Some m"
    then obtain y where "nodes s b = Some y" "n_children y = Some m" using assms(2,5) by (cases "b = a") auto
    then show "hm_ok m" "hm_get k m = Some c \<Longrightarrow> c \<in> dom (nodes (s\<lparr>nodes := (nodes s)(a \<mapsto> n')\<rparr>))" for k c
      using vfs_ok_child [OF fs_typedD(1) [OF assms(1)]] dom by (simp_all del: dom_fun_upd)
  next
    fix r assume "root_mountpoint (s\<lparr>nodes := (nodes s)(a \<mapsto> n')\<rparr>) = Some r"
    then show "r \<in> dom (nodes (s\<lparr>nodes := (nodes s)(a \<mapsto> n')\<rparr>))"
      using fs_typedD(1) [OF assms(1)] dom by (simp add: vfs_ok_def del: dom_fun_upd)
  next
    show "fresh_buckets (s\<lparr>nodes := (nodes s)(a \<mapsto> n')\<rparr>) = (\<lambda>_. [])"
      using fs_typedD(1) [OF assms(1)] by (simp add: vfs_ok_def)
  qed
  ultimately show ?thesis using assms(1) dom by (simp add: fs_typed_def fd_typed_def del: dom_fun_upd)
qed

lemma fs_typed_fds:
  assumes "fs_typed s" "\<And>d f. new d = Some f \<Longrightarrow> fd_typed s d f"
  shows "fs_typed (s\<lparr>fds := new\<rparr>)"
  using assms by (simp add: fs_typed_def vfs_ok_def fd_typed_def)

lemma advance_typed: "fs_typed s \<Longrightarrow> fs_typed (advance d len s)"
  unfolding advance_def
proof (rule fs_typed_fds)
  fix e f assume "fs_typed s" and "((fds s)(d := map_option (\<lambda>f. f\<lparr>rw_position := rw_position f + len\<rparr>) (fds s d))) e = Some f"
  moreover from this obtain f' where "fds s e = Some f'" "fd_node f' = fd_node f" by (cases "e = d") auto
  ultimately show "fd_typed s e f" using fs_typedD(3) [of s e f'] by (simp add: fd_typed_def)
qed

lemma get_node_loop_in:
  "get_node_loop path a s = Inr (Some b) \<Longrightarrow> vfs_ok s \<Longrightarrow> a \<in> dom (nodes s) \<Longrightarrow> b \<in> dom (nodes s)"
proof (induction path a s rule: get_node_loop.induct)
  case (1 path a s)
  show ?case
  proof (cases "path = []")
    case True
    then show ?thesis using "1.prems" by (simp add: get_node_loop.simps)
  next
    case False
    then obtain p m c where c: "nodes s a = Some p" "n_children p = Some m" "hm_get (path_name path) m = Some c"
      "get_node_loop (path_rest path) c s = Inr (Some b)"
      using "1.prems"(1) by (subst (asm) get_node_loop.simps) (auto simp: and_then_eq_Inr split: option.splits)
    have "c \<in> dom (nodes s)" using vfs_ok_child [OF "1.prems"(2) c(1,2)] c(3) by blast
    then show ?thesis using "1.IH" [OF False] c "1.prems"(2) by blast
  qed
qed

lemma get_node_in:
  assumes "vfs_ok s" and "vfs_get_node path s = Inr (Some b)"
  shows "b \<in> dom (nodes s)"
proof -
  obtain r where r: "root_mountpoint s = Some r" "get_node_loop (dropWhile (\<lambda>c. c = 0x2f) path) r s = Inr (Some b)"
    using assms(2) by (auto simp: vfs_get_node_def split: option.splits)
  then have "r \<in> dom (nodes s)" using assms(1) by (simp add: vfs_ok_def)
  then show ?thesis by (rule get_node_loop_in [OF r(2) assms(1)])
qed

lemma open_typed:
  assumes "fs_typed s" "vfs_open path mode s = Inr (fd, s')"
  shows "fs_typed s'"
proof (cases "root_mountpoint s = None")
  case True
  then show ?thesis using assms by (simp add: vfs_open_def)
next
  case False
  then obtain node where node: "vfs_get_node path s = Inr node"
    using assms(2) by (auto simp: vfs_open_def and_then_eq_Inr)
  show ?thesis
  proof (cases node)
    case None
    then show ?thesis using assms node False by (simp add: vfs_open_def)
  next
    case (Some n)
    let ?d = "next_object s"
    let ?fds = "(fds s)(?d \<mapsto> \<lparr>fd_id = - 1, fd_node = n, fd_mode = mode, rw_position = 0\<rparr>)"
    have s': "s' = s\<lparr>fds := ?fds, next_object := ?d + 1\<rparr>"
      using assms(2) node Some False by (simp add: vfs_open_def)
    have "n \<in> dom (nodes s)" using get_node_in [OF fs_typedD(1) [OF assms(1)]] node Some by blast
    moreover have "\<forall>d f. fds s d = Some f \<longrightarrow> d < ?d \<and> fd_node f \<in> dom (nodes s)"
      using fs_typedD(3) [OF assms(1)] by (simp add: fd_typed_def)
    ultimately have "\<forall>d f. ?fds d = Some f \<longrightarrow> d < ?d + 1 \<and> fd_node f \<in> dom (nodes s)"
      by (auto simp: less_Suc_eq)
    then show ?thesis using assms(1) unfolding s' by (simp add: fs_typed_def vfs_ok_def fd_typed_def)
  qed
qed


lemma close_typed: "fs_typed s \<Longrightarrow> fs_typed (vfs_close (Some d) s)"
  unfolding vfs_close_def option.case by (rule fs_typed_fds) (auto split: if_splits dest: fs_typedD(3))

lemma seek_typed:
  assumes "fs_typed s" "vfs_seek (Some d) offset mode s = Inr s'"
  shows "fs_typed s'"
proof -
  obtain f pos where f: "fds s d = Some f" "s' = s\<lparr>fds := (fds s)(d \<mapsto> f\<lparr>rw_position := pos\<rparr>)\<rparr>"
    using assms(2) by (auto simp: vfs_seek_def and_then_eq_Inr)
  have "fd_typed s e g" if "((fds s)(d \<mapsto> f\<lparr>rw_position := pos\<rparr>)) e = Some g" for e g
  proof (cases "e = d")
    case True
    then show ?thesis using that fs_typedD(3) [OF assms(1) f(1)] by (auto simp: fd_typed_def)
  next
    case False
    then show ?thesis using that fs_typedD(3) [OF assms(1), of e g] by simp
  qed
  then show ?thesis unfolding f(2) by (rule fs_typed_fds [OF assms(1)])
qed

lemma read_typed:
  assumes "fs_typed s" "vfs_read (Some d) len s = Inr (k, bytes, s')"
  shows "fs_typed s'"
proof -
  obtain f n where fn: "fds s d = Some f" "nodes s (fd_node f) = Some n"
    using assms(2) by (auto simp: vfs_read_def and_then_eq_Inr)
  have "s' = s \<or> (\<exists>t. fs_read n (rw_position f) len s = Inr (k, bytes, t) \<and> (s' = t \<or> s' = advance d len t))"
    using assms(2) fn by (auto simp: vfs_read_def deref_def and_then_eq_Inr split: if_splits)
  moreover have "fs_typed t" if "fs_read n (rw_position f) len s = Inr (k, bytes, t)" for t
    using that assms(1) by (cases "n_fs n") (auto simp: fs_read_def tty_read_def and_then_eq_Inr)
  ultimately show ?thesis using assms(1) advance_typed by blast
qed

lemma write_typed:
  assumes "fs_typed s" "vfs_write (Some d) buf len s = Inr (k, s')"
  shows "fs_typed s'"
proof -
  obtain f n where fn: "fds s d = Some f" "nodes s (fd_node f) = Some n"
    using assms(2) by (auto simp: vfs_write_def and_then_eq_Inr)
  show ?thesis
  proof (cases "fd_mode f = ReadOnly \<or> n_type n = Directory")
    case True
    then show ?thesis using assms fn by (simp add: vfs_write_def deref_def)
  next
    case False
    then have is_file: "n_type n = File" by (cases "n_type n") simp_all
    obtain n1 n2 t where w: "reserve (rw_position f) len n s = Inr n1" "fs_write n1 buf (rw_position f) len s = Inr (k, n2, t)"
      "s' = advance d len (t\<lparr>nodes := (nodes t)(fd_node f \<mapsto> written n2 (rw_position f) len)\<rparr>)"
      using assms(2) fn False by (auto simp: vfs_write_def deref_def and_then_eq_Inr written_def Let_def)
    note same = reserve_same [OF w(1)]
    have t: "fs_typed t" "nodes t = nodes s" "n_type n2 = n_type n1" "n_fs n2 = n_fs n1" "n_children n2 = n_children n1" "n_parent n2 = n_parent n1"
      using w(2) assms(1)
      by (auto simp: fs_write_def tmpfs_write_def tty_write_def and_then_eq_Inr split: filesystem.splits if_splits)
    have "data_ok (written n2 (rw_position f) len)" if "n_fs n = Tmpfs"
    proof (rule write_data_ok [OF _ w(1) _ is_file])
      show "data_ok n" using fs_typedD(2) [OF assms(1) fn(2)] that by (simp add: node_typed_def)
      show "tmpfs_write n1 buf (rw_position f) len = Inr (k, n2)"
        using w(2) same that by (auto simp: fs_write_def and_then_eq_Inr)
    qed
    then have "fs_typed (t\<lparr>nodes := (nodes t)(fd_node f \<mapsto> written n2 (rw_position f) len)\<rparr>)"
      using t same fn by (intro fs_typed_node [OF t(1), of _ n]) (simp_all add: written_def)
    then show ?thesis unfolding w(3) by (rule advance_typed)
  qed
qed

lemma fs_step_typed: "fs_typed s \<Longrightarrow> fs_step op s = Inr s' \<Longrightarrow> fs_typed s'"
  by (cases op)
     (auto simp: fs_step_def and_then_eq_Inr intro: create_typed open_typed close_typed read_typed write_typed seek_typed)


lemma fs_steps_typed: "fs_typed s \<Longrightarrow> fs_steps ops s = Inr s' \<Longrightarrow> fs_typed s'"
proof (induction ops arbitrary: s)
  case (Cons op ops)
  then show ?case using fs_step_typed by (fastforce simp: and_then_eq_Inr)
qed simp

section \<open>Well-typed operations do not go wrong\<close>

definition pointer_fault :: "fault + 'a \<Rightarrow> bool" where
  "pointer_fault r \<longleftrightarrow> r = Inl Null_Pointer \<or> r = Inl Use_After_Free"

lemma pointer_fault_simps [simp]:
  "\<not> pointer_fault (Inr x)" "\<not> pointer_fault (Inl Out_Of_Bounds)" "\<not> pointer_fault (Inl Endless)"
  by (simp_all add: pointer_fault_def)

lemma pointer_fault_and_then: "pointer_fault (and_then r g) \<Longrightarrow> pointer_fault r \<or> (\<exists>x. r = Inr x \<and> pointer_fault (g x))"
  by (cases r) (simp_all add: pointer_fault_def)

lemma pointer_fault_terminating [simp]: "\<not> pointer_fault (terminating r)"
  by (cases r) (simp_all add: terminating_def)

lemma tty_read_loop_no_pointer_fault: "\<not> pointer_fault (tty_read_loop len buffer es)"
  by (induction len buffer es rule: tty_read_loop.induct) (subst tty_read_loop.simps, simp split: list.splits)

declare tty_read_loop.simps [simp del]

lemma fd_points_typed:
  assumes "fs_typed s" "d \<in> dom (fds s)"
  obtains f n where "fds s d = Some f" "nodes s (fd_node f) = Some n" "fd_points s d f n"
  using assms fs_typedD(3) by (fastforce simp: fd_typed_def fd_points_def)

lemma read_no_pointer_fault:
  assumes "fs_typed s" "d \<in> dom (fds s)"
  shows "\<not> pointer_fault (vfs_read (Some d) len s)"
proof -
  obtain f n where fn: "fds s d = Some f" "nodes s (fd_node f) = Some n" by (rule fd_points_typed [OF assms])
  have "\<not> pointer_fault (fs_read n (rw_position f) len s)"
    by (cases "n_fs n")
       (auto simp: fs_read_def tmpfs_read_def tty_read_def tty_read_loop_no_pointer_fault dest!: pointer_fault_and_then)
  then show ?thesis
    using fn by (auto simp: vfs_read_def deref_def dest!: pointer_fault_and_then)
qed

lemma write_no_pointer_fault:
  assumes "fs_typed s" "d \<in> dom (fds s)"
  shows "\<not> pointer_fault (vfs_write (Some d) buf len s)"
proof -
  obtain f n where fn: "fds s d = Some f" "nodes s (fd_node f) = Some n" by (rule fd_points_typed [OF assms])
  have "\<not> pointer_fault (reserve (rw_position f) len n s)"
    by (auto simp: reserve_def dest!: pointer_fault_and_then)
  moreover have "\<not> pointer_fault (fs_write x buf (rw_position f) len s)" for x
    by (cases "n_fs x") (auto simp: fs_write_def tmpfs_write_def tty_write_def dest!: pointer_fault_and_then)
  ultimately show ?thesis
    using fn by (auto simp: vfs_write_def deref_def Let_def dest!: pointer_fault_and_then)
qed

lemma seek_returns:
  assumes "fs_typed s" "d \<in> dom (fds s)"
  shows "\<exists>s'. vfs_seek (Some d) offset mode s = Inr s'"
proof -
  obtain f n where "fds s d = Some f" "nodes s (fd_node f) = Some n" by (rule fd_points_typed [OF assms])
  then show ?thesis by (cases mode) (simp_all add: vfs_seek_def deref_def)
qed

lemma read_in_range:
  assumes "fs_typed s" "fd_points s d f n" "fd_mode f \<noteq> WriteOnly" "n_type n = File" "n_fs n = Tmpfs"
    "len \<noteq> 0" "unat (rw_position f) + unat len \<le> unat (file_size n)"
  shows "\<exists>s'. vfs_read (Some d) len s = Inr (len, take (unat len) (drop (unat (rw_position f)) (file_data n)), s')"
proof -
  have "data_ok n" using fs_typedD(2) [OF assms(1)] assms(2,5) by (auto simp: fd_points_def node_typed_def)
  then have "tmpfs_read n (rw_position f) len = Inr (len, take (unat len) (drop (unat (rw_position f)) (file_data n)))"
    using assms(4,7) by (simp add: tmpfs_read_def data_ok_def)
  moreover have "rw_position f < file_size n" using assms(6,7) unat_gt_0 [of len] by (simp add: word_less_nat_alt)
  ultimately show ?thesis using vfs_read_step [OF assms(2,3,4,5)] by blast
qed

text \<open>
  C10: Every state that operations of the file system reach from a well-typed one is well typed: the
  directories, and only they, have children, children and parents exist and form no cycle,
  descriptors refer to nodes that exist, and the arrays of files hold their contents and have their
  capacities. In a well-typed state reading, writing and seeking through an open descriptor follows no
  pointer that is null or dangling, seeking always returns, and reading a part of a file that is not
  empty gives exactly its bytes.
\<close>

theorem file_system_types:
  assumes "fs_typed s" and "fs_steps ops s = Inr s'" and "fd_points s' d f n"
  shows "fs_typed s' \<and> \<not> pointer_fault (vfs_read (Some d) len s') \<and> \<not> pointer_fault (vfs_write (Some d) buf len s') \<and>
    (\<exists>t. vfs_seek (Some d) offset mode s' = Inr t) \<and>
    (fd_mode f \<noteq> WriteOnly \<and> n_type n = File \<and> n_fs n = Tmpfs \<and> len \<noteq> 0 \<and>
      unat (rw_position f) + unat len \<le> unat (file_size n) \<longrightarrow>
      (\<exists>t. vfs_read (Some d) len s' = Inr (len, take (unat len) (drop (unat (rw_position f)) (file_data n)), t)))"
proof -
  have typed: "fs_typed s'" by (rule fs_steps_typed [OF assms(1,2)])
  have "d \<in> dom (fds s')" using assms(3) by (auto simp: fd_points_def)
  then show ?thesis
    using typed read_no_pointer_fault write_no_pointer_fault seek_returns read_in_range [OF typed assms(3)] by blast
qed

lemma vfs_booted_typed: "fs_typed (vfs_booted fresh after)"
  unfolding fs_typed_def using vfs_booted_ok [of fresh after]
  by (auto simp: node_typed_def root_node_def new_node_def data_ok_def vfs_booted_def vfs_start_def)

lemma one_file_typed: "fs_typed (one_file [1, 2, 3, 4] 1 fresh)"
  by (auto simp: fs_typed_def one_file_def vfs_ok_def node_typed_def fd_typed_def data_ok_def new_node_def)

theorem file_system_types_witness:
  "\<exists>s' t. fs_steps [Fs_Write 1 [7, 8] 2, Fs_Seek 1 0 Seek_Set] (one_file [1, 2, 3, 4] 1 (\<lambda>_. 0)) = Inr s' \<and>
     fs_typed s' \<and> vfs_read (Some 1) 3 s' = Inr (3, [1, 7, 8], t)"
proof -
  let ?s = "one_file [1, 2, 3, 4] 1 (\<lambda>_. 0)"
  let ?f = "\<lparr>fd_id = 3, fd_node = 0, fd_mode = ReadWrite, rw_position = 0\<rparr>"
  let ?n = "(new_node [0x66] Tmpfs File 1)\<lparr>file_data := [1, 7, 8, 4], file_size := 4, n_capacity := 4\<rparr>"
  let ?t = "?s\<lparr>nodes := [0 \<mapsto> ?n], fds := [1 \<mapsto> ?f]\<rparr>"
  have run: "fs_steps [Fs_Write 1 [7, 8] 2, Fs_Seek 1 0 Seek_Set] ?s = Inr ?t"
    by (simp add: fs_step_def vfs_write_def vfs_seek_def one_file_def new_node_def deref_def reserve_def fs_write_def tmpfs_write_def
        advance_def Let_def)
  have "fd_points ?t 1 ?f ?n" by (simp add: fd_points_def)
  from file_system_types [OF one_file_typed run this, of 3] run show ?thesis by (auto simp: new_node_def)
qed

end
