(* ===== verification/Io.thy ===== *)
theory Io
  imports Vmm
begin

text \<open>
  Access to devices: the ports of \<open>src/kernel/io.hpp\<close>, model-specific registers
  (\<open>msr.cpp\<close>), memory-mapped registers and the time stamp counter. What the devices do is
  outside the source: a device is a function from the accesses made so far to the value the
  latest of them reads, and the state records the accesses.
\<close>

text \<open>The accesses; the latest one is the head of the log.\<close>

datatype io_event =
    Out8 u16 u8 | Out16 u16 u16 | Out32 u16 u32
  | In8 u16 | In16 u16 | In32 u16
  | Mmio_Write u64 u32 | Mmio_Read u64
  | Wrmsr u64 u32 u32 | Rdmsr u64
  | Rdtsc

record bus = vmm +
  io_log :: "io_event list"
  device :: "io_event list \<Rightarrow> u64"

definition io_do :: "io_event \<Rightarrow> 'a bus_scheme \<Rightarrow> 'a bus_scheme" where
  "io_do e s = s\<lparr>io_log := e # io_log s\<rparr>"

definition io_get :: "io_event \<Rightarrow> 'a bus_scheme \<Rightarrow> u64 \<times> 'a bus_scheme" where
  "io_get e s = (device s (e # io_log s), io_do e s)"

definition out_port8 :: "u16 \<Rightarrow> u8 \<Rightarrow> 'a bus_scheme \<Rightarrow> 'a bus_scheme" where
  "out_port8 port v = io_do (Out8 port v)"

definition out_port16 :: "u16 \<Rightarrow> u16 \<Rightarrow> 'a bus_scheme \<Rightarrow> 'a bus_scheme" where
  "out_port16 port v = io_do (Out16 port v)"

definition out_port32 :: "u16 \<Rightarrow> u32 \<Rightarrow> 'a bus_scheme \<Rightarrow> 'a bus_scheme" where
  "out_port32 port v = io_do (Out32 port v)"

definition in_port8 :: "u16 \<Rightarrow> 'a bus_scheme \<Rightarrow> u8 \<times> 'a bus_scheme" where
  "in_port8 port s = map_prod ucast id (io_get (In8 port) s)"

definition in_port16 :: "u16 \<Rightarrow> 'a bus_scheme \<Rightarrow> u16 \<times> 'a bus_scheme" where
  "in_port16 port s = map_prod ucast id (io_get (In16 port) s)"

definition in_port32 :: "u16 \<Rightarrow> 'a bus_scheme \<Rightarrow> u32 \<times> 'a bus_scheme" where
  "in_port32 port s = map_prod ucast id (io_get (In32 port) s)"

definition mmio_write :: "u64 \<Rightarrow> u32 \<Rightarrow> 'a bus_scheme \<Rightarrow> 'a bus_scheme" where
  "mmio_write a v = io_do (Mmio_Write a v)"

definition mmio_read :: "u64 \<Rightarrow> 'a bus_scheme \<Rightarrow> u32 \<times> 'a bus_scheme" where
  "mmio_read a s = map_prod ucast id (io_get (Mmio_Read a) s)"

text \<open>The processor splits and joins the 64-bit value in two 32-bit registers.\<close>

definition read_msr :: "u64 \<Rightarrow> 'a bus_scheme \<Rightarrow> u64 \<times> 'a bus_scheme" where
  "read_msr msr s =
     (let (v, s) = io_get (Rdmsr msr) s; low = ucast v :: u32; high = ucast (drop_bit 32 v) :: u32
      in (push_bit 32 (ucast high) OR ucast low, s))"

definition write_msr :: "u64 \<Rightarrow> u64 \<Rightarrow> 'a bus_scheme \<Rightarrow> 'a bus_scheme" where
  "write_msr msr v = (let low = ucast (v AND 0xffffffff) :: u32; high = ucast (drop_bit 32 v) :: u32
     in io_do (Wrmsr msr low high))"

definition rdtsc :: "'a bus_scheme \<Rightarrow> u64 \<times> 'a bus_scheme" where
  "rdtsc s = io_get Rdtsc s"

lemma split_u64: "push_bit 32 (ucast (ucast (drop_bit 32 v) :: u32)) OR ucast (ucast v :: u32) = (v :: u64)"
  by (rule bit_word_eqI) (auto simp: bit_simps)

lemma read_msr_value: "read_msr msr s = io_get (Rdmsr msr) s"
  by (cases "io_get (Rdmsr msr) s") (simp add: read_msr_def split_u64)

lemma io_do_fields [simp]:
  "mem (io_do e s) = mem s" "rflags (io_do e s) = rflags s" "hhdm_offset (io_do e s) = hhdm_offset s"
  "device (io_do e s) = device s" "io_log (io_do e s) = e # io_log s" "cr3 (io_do e s) = cr3 s"
  "spaces (io_do e s) = spaces s" "bus.more (io_do e s) = bus.more s"
  by (simp_all add: io_do_def)

end
