(* ===== verification/Apic.thy ===== *)
theory Apic
  imports Io
begin

text \<open>
  The interrupt controllers (\<open>src/kernel/apic.cpp\<close>, \<open>apic.hpp\<close>): switching the old PIC off,
  the registers of the local APIC, and the redirection entries of the I/O APIC.
\<close>

section \<open>State\<close>

record apic = bus +
  apic_base_addr :: u64
  io_base_addr :: u64

definition TIMER_VECT :: u8 where
  "TIMER_VECT = 32"

definition KEYBOARD_VECT :: u8 where
  "KEYBOARD_VECT = 33"

definition E1000_VECT :: u8 where
  "E1000_VECT = 43"

definition SYSCALL_VECT :: u8 where
  "SYSCALL_VECT = 0xfe"

text \<open>The registers of the local APIC, by their offsets.\<close>

datatype lapic_register = Siv | Eoi | TimerLvt | TimerInitCount | TimerCount | TimerDivisor

fun lapic_offset :: "lapic_register \<Rightarrow> u32" where
  "lapic_offset Siv = 0xf0"
| "lapic_offset Eoi = 0xb0"
| "lapic_offset TimerLvt = 0x320"
| "lapic_offset TimerInitCount = 0x380"
| "lapic_offset TimerCount = 0x390"
| "lapic_offset TimerDivisor = 0x3e0"

section \<open>Operations\<close>

definition lapic_read :: "lapic_register \<Rightarrow> 'a apic_scheme \<Rightarrow> u32 \<times> 'a apic_scheme" where
  "lapic_read reg s = mmio_read (apic_base_addr s + ucast (lapic_offset reg)) s"

definition lapic_write :: "lapic_register \<Rightarrow> u32 \<Rightarrow> 'a apic_scheme \<Rightarrow> 'a apic_scheme" where
  "lapic_write reg v s = mmio_write (apic_base_addr s + ucast (lapic_offset reg)) v s"

definition disable_pic :: "'a bus_scheme \<Rightarrow> 'a bus_scheme" where
  "disable_pic s =
     fold (\<lambda>(port, v). out_port8 port v)
       [(0x20, 0x11), (0xA0, 0x11), (0x21, 0x20), (0xA1, 0x28), (0x21, 0x02), (0xA1, 0x04),
        (0x21, 0x01), (0xA1, 0x01), (0x21, 0xff), (0xA1, 0xff)] s"

definition lapic_init :: "'a apic_scheme \<Rightarrow> 'a apic_scheme" where
  "lapic_init s =
     (let (base, s) = read_msr 0x1b s;
          s = s\<lparr>apic_base_addr := PHYS_TO_VIRT s (base AND 0xfffff000)\<rparr>;
          (sivr, s) = lapic_read Siv s
      in lapic_write Siv (sivr OR push_bit 8 1 OR 255) s)"

definition ioapic_read :: "u8 \<Rightarrow> 'a apic_scheme \<Rightarrow> u32 \<times> 'a apic_scheme" where
  "ioapic_read offset s =
     (let s = mmio_write (io_base_addr s) (ucast offset) s in mmio_read (io_base_addr s + 0x10) s)"

definition ioapic_write :: "u8 \<Rightarrow> u32 \<Rightarrow> 'a apic_scheme \<Rightarrow> 'a apic_scheme" where
  "ioapic_write offset v s =
     (let s = mmio_write (io_base_addr s) (ucast offset) s in mmio_write (io_base_addr s + 0x10) v s)"

text \<open>
  Setting two fields of a redirection entry: the vector in bits 0 to 7, and the mask, a field
  of one bit, in bit 16.
\<close>

definition set_vect :: "u8 \<Rightarrow> u64 \<Rightarrow> u64" where
  "set_vect vect raw = (raw AND NOT 0xff) OR ucast vect"

definition set_interrupt_mask :: "u8 \<Rightarrow> u64 \<Rightarrow> u64" where
  "set_interrupt_mask masked raw = (raw AND NOT (push_bit 16 1)) OR push_bit 16 (ucast (masked AND 1))"

definition redirect_pin :: "u8 \<Rightarrow> u8 \<Rightarrow> u8 \<Rightarrow> 'a apic_scheme \<Rightarrow> 'a apic_scheme" where
  "redirect_pin offset vect masked s =
     (let (lower, s) = ioapic_read offset s;
          (higher, s) = ioapic_read (offset + 1) s;
          raw = push_bit 32 (ucast higher) OR ucast lower;
          raw = set_interrupt_mask masked (set_vect vect raw);
          s = ioapic_write offset (ucast raw) s
      in ioapic_write (offset + 1) (ucast (drop_bit 32 raw)) s)"

definition ioapic_init :: "'a apic_scheme \<Rightarrow> 'a apic_scheme" where
  "ioapic_init s =
     (let s = s\<lparr>io_base_addr := PHYS_TO_VIRT s 0xfec00000\<rparr>;
          s = redirect_pin 0x12 KEYBOARD_VECT 0 s;
          divisor = word_of_int (1193182 div 1000) :: u16;
          s = out_port8 0x43 (push_bit 6 0 OR push_bit 4 3 OR push_bit 1 2 OR 0) s;
          s = out_port8 0x40 (ucast divisor) s;
          s = out_port8 0x40 (ucast (drop_bit 8 divisor)) s;
          s = redirect_pin 0x14 TIMER_VECT 0 s;
          s = lapic_write TimerInitCount 0xffffffff s
      in enable_interrupts s)"

definition apic_init :: "'a apic_scheme \<Rightarrow> 'a apic_scheme" where
  "apic_init s = ioapic_init (lapic_init (disable_pic s))"

section \<open>Redirection entries\<close>

text \<open>
  What the two writes of \<open>redirect_pin\<close> carry: the new vector and mask, and every other bit of
  the entry as it was read.
\<close>

definition redirected :: "u8 \<Rightarrow> u8 \<Rightarrow> u64 \<Rightarrow> u64" where
  "redirected vect masked raw = set_interrupt_mask masked (set_vect vect raw)"

lemma redirected_bits:
  "bit (redirected vect masked raw) n \<longleftrightarrow>
    (if n < 8 then bit vect n else if n = 16 then bit masked 0 else bit raw n)"
proof -
  have low: "bit (255 :: int) k \<longleftrightarrow> k < 8" for k
  proof -
    have "(255 :: int) = Bit_Operations.mask 8" by (simp add: mask_eq_exp_minus_1)
    then show ?thesis by (simp only: bit_mask_iff) auto
  qed
  have one: "bit (65536 :: int) k \<longleftrightarrow> k = 16" for k
  proof -
    have "(65536 :: int) = 2 ^ 16" by simp
    then show ?thesis by (simp only: bit_exp_iff) auto
  qed
  show ?thesis
    by (auto simp: redirected_def set_vect_def set_interrupt_mask_def bit_simps bit_1_iff low one
        dest: bit_imp_le_length)
qed

end
