(* ===== verification/Task_List.thy ===== *)
theory Task_List
  imports Prelude "HOL-Library.Monad_Syntax"
begin

text \<open>
  The queue of the scheduler, the class \<open>TaskList\<close> of \<open>src/kernel/scheduler.hpp\<close>: a doubly
  linked list with a cursor. Nodes live in a store indexed by address, 0 being the null
  pointer; an access through an address without a node is a fault, the value \<open>None\<close>. The
  contract the scheduler relies on is the locale \<open>cyclic_queue\<close>.
\<close>

section \<open>Operations\<close>

record tl_node =
  tl_task :: nat
  tl_prev :: u64
  tl_next :: u64

record task_list =
  tl_nodes :: "u64 \<rightharpoonup> tl_node"
  tl_front :: u64
  tl_current :: u64

definition tl_empty :: task_list where
  "tl_empty = \<lparr>tl_nodes = Map.empty, tl_front = 0, tl_current = 0\<rparr>"

definition tl_node :: "nat \<Rightarrow> tl_node" where
  "tl_node task = \<lparr>tl_task = task, tl_prev = 0, tl_next = 0\<rparr>"

definition tl_get_current :: "task_list \<Rightarrow> nat option" where
  "tl_get_current l = map_option tl_task (tl_nodes l (tl_current l))"

text \<open>The result is the task, null if the list is empty.\<close>

definition tl_next_task :: "task_list \<Rightarrow> (nat option \<times> task_list) option" where
  "tl_next_task l =
     do {
       n \<leftarrow> tl_nodes l (tl_current l);
       let l = l\<lparr>tl_current := tl_next n\<rparr>;
       let l = (if tl_current l = 0 then l\<lparr>tl_current := tl_front l\<rparr> else l);
       if tl_current l \<noteq> 0 then do { m \<leftarrow> tl_nodes l (tl_current l); Some (Some (tl_task m), l) }
       else Some (None, l) }"

definition tl_set_prev :: "u64 \<Rightarrow> u64 \<Rightarrow> task_list \<Rightarrow> task_list option" where
  "tl_set_prev a p l = do { n \<leftarrow> tl_nodes l a; Some (l\<lparr>tl_nodes := (tl_nodes l)(a \<mapsto> n\<lparr>tl_prev := p\<rparr>)\<rparr>) }"

definition tl_set_next :: "u64 \<Rightarrow> u64 \<Rightarrow> task_list \<Rightarrow> task_list option" where
  "tl_set_next a p l = do { n \<leftarrow> tl_nodes l a; Some (l\<lparr>tl_nodes := (tl_nodes l)(a \<mapsto> n\<lparr>tl_next := p\<rparr>)\<rparr>) }"

definition tl_add_task :: "u64 \<Rightarrow> nat \<Rightarrow> task_list \<Rightarrow> task_list option" where
  "tl_add_task node task l =
     do {
       let l = l\<lparr>tl_nodes := (tl_nodes l)(node \<mapsto> tl_node task)\<rparr>;
       l \<leftarrow> (if tl_front l = 0 then Some (l\<lparr>tl_current := node\<rparr>)
             else do { l \<leftarrow> tl_set_next node (tl_front l) l; tl_set_prev (tl_front l) node l });
       Some (l\<lparr>tl_front := node\<rparr>) }"

definition tl_remove_current :: "task_list \<Rightarrow> task_list option" where
  "tl_remove_current l =
     (if tl_current l = 0 then Some l
      else do {
        c \<leftarrow> tl_nodes l (tl_current l);
        l \<leftarrow> (if tl_current l = tl_front l then Some (l\<lparr>tl_front := tl_next c\<rparr>)
              else do {
                l \<leftarrow> tl_set_next (tl_prev c) (tl_next c) l;
                if tl_next c \<noteq> 0 then tl_set_prev (tl_next c) (tl_prev c) l else Some l });
        c \<leftarrow> tl_nodes l (tl_current l);
        let l = l\<lparr>tl_nodes := (tl_nodes l)(tl_current l := None)\<rparr>;
        Some (if tl_next c \<noteq> 0 then l\<lparr>tl_current := tl_next c\<rparr> else l\<lparr>tl_current := tl_front l\<rparr>) })"

definition tl_is_empty :: "task_list \<Rightarrow> bool" where
  "tl_is_empty l \<longleftrightarrow> tl_front l = 0"

section \<open>The contract\<close>

text \<open>
  A cyclic list with a cursor: the tasks before the cursor, and those from it on. The cursor
  is on a task unless the list is empty.
\<close>

type_synonym cyclic = "nat list \<times> nat list"

definition cyc_ok :: "cyclic \<Rightarrow> bool" where
  "cyc_ok c \<longleftrightarrow> (snd c = [] \<longrightarrow> fst c = [])"

fun cyc_add :: "nat \<Rightarrow> cyclic \<Rightarrow> cyclic" where
  "cyc_add t (ps, []) = ([], [t])"
| "cyc_add t (ps, x # xs) = (t # ps, x # xs)"

fun cyc_next :: "cyclic \<Rightarrow> cyclic" where
  "cyc_next (ps, [x]) = ([], ps @ [x])"
| "cyc_next (ps, x # y # xs) = (ps @ [x], y # xs)"
| "cyc_next (ps, []) = (ps, [])"

fun cyc_remove :: "cyclic \<Rightarrow> cyclic" where
  "cyc_remove (ps, []) = (ps, [])"
| "cyc_remove (ps, [x]) = ([], ps)"
| "cyc_remove (ps, x # y # xs) = (ps, y # xs)"

text \<open>The tasks in the order the cursor will visit them.\<close>

definition cyc_order :: "cyclic \<Rightarrow> nat list" where
  "cyc_order c = snd c @ fst c"

lemma cyc_next_order: "cyc_ok c \<Longrightarrow> cyc_ok (cyc_next c) \<and> cyc_order (cyc_next c) = rotate1 (cyc_order c)"
  by (induction c rule: cyc_next.induct) (auto simp: cyc_order_def cyc_ok_def)

lemma cyc_add_ok: "cyc_ok (cyc_add t c)"
  by (induction t c rule: cyc_add.induct) (auto simp: cyc_ok_def)

lemma cyc_remove_order: "cyc_ok c \<Longrightarrow> cyc_ok (cyc_remove c) \<and> cyc_order (cyc_remove c) = tl (cyc_order c)"
  by (induction c rule: cyc_remove.induct) (auto simp: cyc_order_def cyc_ok_def)

locale cyclic_queue =
  fixes add :: "'a \<Rightarrow> nat \<Rightarrow> 'q \<Rightarrow> 'q option"
    and advance_cursor :: "'q \<Rightarrow> (nat option \<times> 'q) option"
    and remove_cursor :: "'q \<Rightarrow> 'q option"
    and rep :: "'q \<Rightarrow> cyclic \<Rightarrow> bool"
    and fresh :: "'a \<Rightarrow> 'q \<Rightarrow> bool"
  assumes rep_ok: "rep q c \<Longrightarrow> cyc_ok c"
    and add_rep: "rep q c \<Longrightarrow> fresh a q \<Longrightarrow> \<exists>q'. add a t q = Some q' \<and> rep q' (cyc_add t c)"
    and next_rep: "rep q c \<Longrightarrow> snd c \<noteq> [] \<Longrightarrow>
      \<exists>q'. advance_cursor q = Some (Some (hd (snd (cyc_next c))), q') \<and> rep q' (cyc_next c)"
    and remove_rep: "rep q c \<Longrightarrow> \<exists>q'. remove_cursor q = Some q' \<and> rep q' (cyc_remove c)"
begin

text \<open>The tasks \<open>k\<close> advances return.\<close>

fun visit :: "nat \<Rightarrow> 'q \<Rightarrow> (nat list \<times> 'q) option" where
  "visit 0 q = Some ([], q)"
| "visit (Suc k) q =
     (case advance_cursor q of Some (Some t, q') \<Rightarrow> map_option (map_prod (Cons t) id) (visit k q') | _ \<Rightarrow> None)"

text \<open>Advancing never faults and visits the tasks in turn.\<close>

lemma visit_rotates:
  "rep q c \<Longrightarrow> snd c \<noteq> [] \<Longrightarrow>
    \<exists>q' c'. visit k q = Some (map (\<lambda>i. cyc_order c ! (Suc i mod length (cyc_order c))) [0..<k], q') \<and> rep q' c' \<and>
      cyc_order c' = rotate k (cyc_order c)"
proof (induction k arbitrary: q c)
  case (Suc k)
  obtain q1 where q1: "advance_cursor q = Some (Some (hd (snd (cyc_next c))), q1)" "rep q1 (cyc_next c)"
    using next_rep [OF Suc.prems] by blast
  have ok: "cyc_ok c" by (rule rep_ok [OF Suc.prems(1)])
  let ?xs = "cyc_order c"
  have order: "cyc_order (cyc_next c) = rotate1 ?xs" and ok': "cyc_ok (cyc_next c)"
    using cyc_next_order [OF ok] by simp_all
  have ne: "?xs \<noteq> []" using Suc.prems(2) by (simp add: cyc_order_def)
  have ne': "snd (cyc_next c) \<noteq> []"
  proof
    assume "snd (cyc_next c) = []"
    then have "cyc_order (cyc_next c) = []" using ok' by (simp add: cyc_ok_def cyc_order_def)
    then show False using order ne by (metis length_0_conv length_rotate1)
  qed
  have "hd (snd (cyc_next c)) = hd (rotate1 ?xs)" using order ne' by (metis cyc_order_def hd_append2)
  also have "\<dots> = ?xs ! (Suc 0 mod length ?xs)"
    using ne by (simp add: hd_conv_nth nth_rotate1)
  finally have hd: "hd (snd (cyc_next c)) = ?xs ! (Suc 0 mod length ?xs)" .
  have "rotate1 ?xs ! (Suc i mod length ?xs) = ?xs ! (Suc (Suc i) mod length ?xs)" for i
    using ne by (simp add: nth_rotate1 mod_Suc_eq)
  then have rest: "map (\<lambda>i. rotate1 ?xs ! (Suc i mod length ?xs)) [0..<k] =
      map (\<lambda>i. ?xs ! (Suc i mod length ?xs)) (map Suc [0..<k])" by simp
  have upt: "[0..<Suc k] = 0 # map Suc [0..<k]" using map_Suc_upt upt_conv_Cons by auto
  from Suc.IH [OF q1(2) ne'] obtain q2 c2 where
    "visit k q1 = Some (map (\<lambda>i. rotate1 ?xs ! (Suc i mod length ?xs)) [0..<k], q2)" "rep q2 c2"
    "cyc_order c2 = rotate k (rotate1 ?xs)"
    unfolding order length_rotate1 by blast
  then show ?case unfolding rest upt using q1(1) hd
    by (intro exI [of _ q2] exI [of _ c2]) (simp add: rotate1_rotate_swap)
qed auto

end

section \<open>The list meets the contract\<close>

text \<open>A segment of next pointers, and the prev pointers inside a list.\<close>

fun seg :: "(u64 \<rightharpoonup> tl_node) \<Rightarrow> u64 \<Rightarrow> (u64 \<times> nat) list \<Rightarrow> u64 \<Rightarrow> bool" where
  "seg h p [] q \<longleftrightarrow> p = q"
| "seg h p (x # xs) q \<longleftrightarrow> p = fst x \<and> p \<noteq> 0 \<and> (\<exists>n. h p = Some n \<and> tl_task n = snd x \<and> seg h (tl_next n) xs q)"

fun backs :: "(u64 \<rightharpoonup> tl_node) \<Rightarrow> (u64 \<times> nat) list \<Rightarrow> bool" where
  "backs h (x # y # xs) \<longleftrightarrow> map_option tl_prev (h (fst y)) = Some (fst x) \<and> backs h (y # xs)"
| "backs h _ \<longleftrightarrow> True"

definition tl_links :: "task_list \<Rightarrow> (u64 \<times> nat) list \<Rightarrow> bool" where
  "tl_links l xs \<longleftrightarrow> seg (tl_nodes l) (tl_front l) xs 0 \<and> backs (tl_nodes l) xs \<and> distinct (map fst xs)"

definition tl_rep :: "task_list \<Rightarrow> cyclic \<Rightarrow> bool" where
  "tl_rep l c \<longleftrightarrow> cyc_ok c \<and> (\<exists>xs ys. tl_links l (xs @ ys) \<and> map snd xs = fst c \<and> map snd ys = snd c \<and>
     tl_current l = (case ys of [] \<Rightarrow> 0 | y # _ \<Rightarrow> fst y))"

lemma seg_append: "seg h p (xs @ ys) q \<longleftrightarrow> (\<exists>r. seg h p xs r \<and> seg h r ys q)"
  by (induction xs arbitrary: p) auto

lemma seg_outside: "a \<notin> fst ` set xs \<Longrightarrow> seg (h(a := v)) p xs q \<longleftrightarrow> seg h p xs q"
  by (induction xs arbitrary: p) auto

lemma seg_prev: "h a = Some n \<Longrightarrow> seg (h(a \<mapsto> n\<lparr>tl_prev := b\<rparr>)) p xs q \<longleftrightarrow> seg h p xs q"
  by (induction xs arbitrary: p) auto

lemma seg_start: "seg h p xs q \<Longrightarrow> p = (case xs of [] \<Rightarrow> q | x # _ \<Rightarrow> fst x)"
  by (cases xs) auto

lemma backs_cong:
  "(\<And>a. a \<in> fst ` set (tl xs) \<Longrightarrow> map_option tl_prev (h a) = map_option tl_prev (h' a)) \<Longrightarrow> backs h xs = backs h' xs"
  by (induction h xs rule: backs.induct) auto

lemma backs_append:
  "backs h (xs @ y # ys) \<longleftrightarrow> backs h (xs @ [y]) \<and> backs h (y # ys)"
  by (cases ys; induction h xs rule: backs.induct) auto

lemma tl_links_add:
  assumes "tl_links l xs" "xs \<noteq> []" "a \<noteq> 0" "a \<notin> fst ` set xs"
  shows "\<exists>l'. tl_add_task a t l = Some l' \<and> tl_links l' ((a, t) # xs) \<and> tl_current l' = tl_current l"
proof -
  obtain y ys where xs: "xs = y # ys" using assms(2) by (cases xs) auto
  then obtain n where n: "tl_front l = fst y" "fst y \<noteq> 0" "tl_nodes l (fst y) = Some n" "tl_task n = snd y"
    using assms(1) by (auto simp: tl_links_def)
  let ?h = "(tl_nodes l)(a \<mapsto> \<lparr>tl_task = t, tl_prev = 0, tl_next = fst y\<rparr>, fst y \<mapsto> n\<lparr>tl_prev := a\<rparr>)"
  have ne: "a \<noteq> fst y" using assms(4) xs by auto
  have "tl_add_task a t l = Some (l\<lparr>tl_nodes := ?h, tl_front := a\<rparr>)"
    using n ne by (simp add: tl_add_task_def tl_node_def tl_set_next_def tl_set_prev_def Let_def)
  moreover have "seg ?h (fst y) xs 0"
    using assms(1,4) n ne seg_prev [of "(tl_nodes l)(a \<mapsto> \<lparr>tl_task = t, tl_prev = 0, tl_next = fst y\<rparr>)" "fst y" n a]
    by (simp add: tl_links_def seg_outside)
  moreover have "backs ?h xs = backs (tl_nodes l) xs"
  proof (rule backs_cong)
    fix b assume "b \<in> fst ` set (tl xs)"
    then have "b \<in> fst ` set ys" using xs by simp
    moreover have "a \<notin> fst ` set ys" "fst y \<notin> fst ` set ys" using assms(1,4) xs by (simp_all add: tl_links_def)
    ultimately have "b \<noteq> a" "b \<noteq> fst y" by metis+
    then show "map_option tl_prev (?h b) = map_option tl_prev (tl_nodes l b)" by simp
  qed
  ultimately show ?thesis using assms n ne xs by (auto simp: tl_links_def)
qed

text \<open>Removing the node under the cursor: at the front, and behind a node \<open>w\<close>.\<close>

lemma tl_remove_front:
  assumes "tl_links l ((a, t) # ys)" "tl_current l = a"
  shows "\<exists>l'. tl_remove_current l = Some l' \<and> tl_links l' ys \<and> tl_current l' = (case ys of [] \<Rightarrow> 0 | y # _ \<Rightarrow> fst y)"
proof -
  obtain c where c: "tl_front l = a" "a \<noteq> 0" "tl_nodes l a = Some c" "seg (tl_nodes l) (tl_next c) ys 0"
    and d: "a \<notin> fst ` set ys" "distinct (map fst ys)"
    using assms(1) by (auto simp: tl_links_def)
  have start: "tl_next c = (case ys of [] \<Rightarrow> 0 | y # _ \<Rightarrow> fst y)" by (rule seg_start [OF c(4)])
  have "backs (tl_nodes l) ys" using assms(1) by (cases ys) (simp_all add: tl_links_def)
  moreover have "backs ((tl_nodes l)(a := None)) ys = backs (tl_nodes l) ys"
    by (rule backs_cong) (use d(1) in \<open>cases ys; auto\<close>)
  ultimately show ?thesis
    using c d start assms(2) by (auto simp: tl_remove_current_def tl_links_def Let_def seg_outside)
qed

lemma tl_remove_behind:
  assumes links: "tl_links l (ws @ w # (a, t) # ys)" and cur: "tl_current l = a"
  shows "\<exists>l'. tl_remove_current l = Some l' \<and> tl_links l' (ws @ w # ys) \<and>
    tl_current l' = (case ys of [] \<Rightarrow> tl_front l | y # _ \<Rightarrow> fst y) \<and> tl_front l' = tl_front l"
proof -
  let ?h = "tl_nodes l"
  obtain nw c where seg: "seg ?h (tl_front l) ws (fst w)" "fst w \<noteq> 0" "?h (fst w) = Some nw" "tl_task nw = snd w"
      "a \<noteq> 0" "?h a = Some c" "seg ?h (tl_next c) ys 0"
    using links by (auto simp: tl_links_def seg_append)
  have d: "fst w \<noteq> a" "fst w \<notin> fst ` set ws" "fst w \<notin> fst ` set ys" "a \<notin> fst ` set ws" "a \<notin> fst ` set ys"
      "fst ` set ws \<inter> fst ` set ys = {}" "distinct (map fst (ws @ w # ys))"
    using links by (auto simp: tl_links_def)
  have backs: "backs ?h (ws @ [w])" "tl_prev c = fst w" "backs ?h ys"
    using links seg(6) backs_append [of ?h ws w "(a, t) # ys"] by (cases ys; auto simp: tl_links_def)+
  have notfront: "tl_front l \<noteq> a"
    using seg_start [OF seg(1)] d(1,4) by (cases ws) auto
  have start: "tl_next c = (case ys of [] \<Rightarrow> 0 | y # _ \<Rightarrow> fst y)" by (rule seg_start [OF seg(7)])
  define h1 where "h1 = ?h(fst w \<mapsto> nw\<lparr>tl_next := tl_next c\<rparr>)"
  obtain h2 where h2: "tl_remove_current l = Some (l\<lparr>tl_nodes := h2(a := None),
        tl_current := (case ys of [] \<Rightarrow> tl_front l | y # _ \<Rightarrow> fst y)\<rparr>)"
    and w2: "\<exists>m. h2 (fst w) = Some m \<and> tl_task m = snd w \<and> tl_next m = tl_next c"
    and prev2: "\<And>b. b \<noteq> fst (hd ys) \<or> ys = [] \<Longrightarrow> map_option tl_prev (h2 b) = map_option tl_prev (?h b)"
    and hd2: "ys \<noteq> [] \<Longrightarrow> map_option tl_prev (h2 (fst (hd ys))) = Some (fst w)"
    and seg2: "\<And>p xs q. fst w \<notin> fst ` set xs \<Longrightarrow> seg h2 p xs q = seg ?h p xs q"
  proof (cases ys)
    case Nil
    show thesis
    proof (rule that [of h1])
      show "tl_remove_current l = Some (l\<lparr>tl_nodes := h1(a := None), tl_current := (case ys of [] \<Rightarrow> tl_front l | y # _ \<Rightarrow> fst y)\<rparr>)"
        using seg cur notfront start Nil d(1) backs(2)
        by (simp add: tl_remove_current_def tl_set_next_def h1_def Let_def)
    qed (use Nil seg(3,4) in \<open>auto simp: h1_def seg_outside\<close>)
  next
    case (Cons y ys')
    then obtain ny where ny: "fst y \<noteq> 0" "?h (fst y) = Some ny" "tl_task ny = snd y" using seg(7) by auto
    have dy: "fst y \<noteq> fst w" "fst y \<noteq> a" using d Cons by auto
    show thesis
    proof (rule that [of "h1(fst y \<mapsto> ny\<lparr>tl_prev := fst w\<rparr>)"])
      show "tl_remove_current l = Some (l\<lparr>tl_nodes := (h1(fst y \<mapsto> ny\<lparr>tl_prev := fst w\<rparr>))(a := None),
          tl_current := (case ys of [] \<Rightarrow> tl_front l | y # _ \<Rightarrow> fst y)\<rparr>)"
        using seg cur notfront start Cons d(1) backs(2) ny dy
        by (simp add: tl_remove_current_def tl_set_next_def tl_set_prev_def h1_def Let_def)
      show "seg (h1(fst y \<mapsto> ny\<lparr>tl_prev := fst w\<rparr>)) p xs q = seg ?h p xs q" if "fst w \<notin> fst ` set xs" for p xs q
        using that ny dy seg_prev [of h1 "fst y" ny "fst w" p xs q] by (simp add: h1_def seg_outside)
    qed (use Cons seg(3,4) dy ny in \<open>auto simp: h1_def\<close>)
  qed
  let ?h3 = "h2(a := None)"
  obtain m where m: "h2 (fst w) = Some m" "tl_task m = snd w" "tl_next m = tl_next c" using w2 by blast
  have "seg ?h3 (tl_front l) (ws @ w # ys) 0"
    using seg(1,2,7) m d by (auto simp: seg_append seg_outside seg2)
  moreover have "backs ?h3 (ws @ [w]) = backs ?h (ws @ [w])"
  proof (rule backs_cong)
    fix b assume "b \<in> fst ` set (tl (ws @ [w]))"
    then have "b \<in> fst ` set (ws @ [w])" by (cases ws) auto
    then have "b \<noteq> a" "b \<noteq> fst (hd ys) \<or> ys = []" using d by (cases ys; auto)+
    then show "map_option tl_prev (?h3 b) = map_option tl_prev (?h b)" using prev2 by simp
  qed
  moreover have "backs ?h3 ys = backs ?h ys"
  proof (rule backs_cong)
    fix b assume b: "b \<in> fst ` set (tl ys)"
    then have "b \<noteq> a" "b \<noteq> fst (hd ys)" using d(5,7) by (cases ys; auto)+
    then show "map_option tl_prev (?h3 b) = map_option tl_prev (?h b)" using prev2 by simp
  qed
  moreover have "backs ?h3 (w # ys) \<longleftrightarrow> backs ?h3 ys" using hd2 d(5) by (cases ys) auto
  ultimately have "tl_links (l\<lparr>tl_nodes := ?h3, tl_current := (case ys of [] \<Rightarrow> tl_front l | y # _ \<Rightarrow> fst y)\<rparr>) (ws @ w # ys)"
    using backs d(7) backs_append [of ?h3 ws w ys] by (simp add: tl_links_def)
  then show ?thesis using h2 by simp
qed

lemma tl_links_current [simp]: "tl_links (l\<lparr>tl_current := a\<rparr>) xs = tl_links l xs"
  by (simp add: tl_links_def)

lemma tl_repE:
  assumes "tl_rep l c"
  obtains xs ys where "tl_links l (xs @ ys)" "map snd xs = fst c" "map snd ys = snd c"
    "tl_current l = (case ys of [] \<Rightarrow> 0 | y # _ \<Rightarrow> fst y)" "cyc_ok c"
  using assms by (auto simp: tl_rep_def)

lemma tl_repI:
  "tl_links l (xs @ ys) \<Longrightarrow> map snd xs = ps \<Longrightarrow> map snd ys = qs \<Longrightarrow>
    tl_current l = (case ys of [] \<Rightarrow> 0 | y # _ \<Rightarrow> fst y) \<Longrightarrow> (qs = [] \<Longrightarrow> ps = []) \<Longrightarrow> tl_rep l (ps, qs)"
  by (auto simp: tl_rep_def cyc_ok_def)

lemma tl_node_at: "tl_links l (xs @ y # ys) \<Longrightarrow>
    fst y \<noteq> 0 \<and> (\<exists>n. tl_nodes l (fst y) = Some n \<and> tl_task n = snd y \<and> tl_next n = (case ys of [] \<Rightarrow> 0 | z # _ \<Rightarrow> fst z))"
  by (auto simp: tl_links_def seg_append dest: seg_start)

lemma tl_add_rep:
  assumes "tl_rep l c" "a \<noteq> 0" "tl_nodes l a = None"
  shows "\<exists>l'. tl_add_task a t l = Some l' \<and> tl_rep l' (cyc_add t c)"
proof -
  from assms(1) obtain xs ys where r: "tl_links l (xs @ ys)" "map snd xs = fst c" "map snd ys = snd c"
    "tl_current l = (case ys of [] \<Rightarrow> 0 | y # _ \<Rightarrow> fst y)" "cyc_ok c" by (rule tl_repE)
  show ?thesis
  proof (cases ys)
    case Nil
    then have "xs = []" "c = ([], [])" using r by (cases c; auto simp: cyc_ok_def)+
    then have front: "tl_front l = 0" using r(1) Nil by (simp add: tl_links_def)
    let ?l = "l\<lparr>tl_nodes := (tl_nodes l)(a \<mapsto> tl_node t), tl_current := a, tl_front := a\<rparr>"
    have "tl_add_task a t l = Some ?l" using front by (simp add: tl_add_task_def Let_def)
    moreover have "tl_rep ?l ([], [t])"
      by (rule tl_repI [of _ "[]" "[(a, t)]"]) (use assms(2) in \<open>auto simp: tl_links_def tl_node_def\<close>)
    ultimately show ?thesis using \<open>c = ([], [])\<close> by simp
  next
    case (Cons y ys')
    have "a \<notin> fst ` set (xs @ ys)"
    proof
      assume "a \<in> fst ` set (xs @ ys)"
      then obtain us z vs where "xs @ ys = us @ z # vs" "a = fst z" by (metis imageE split_list)
      then show False using tl_node_at [of l us z vs] r(1) assms(3) by auto
    qed
    then obtain l' where l': "tl_add_task a t l = Some l'" "tl_links l' ((a, t) # xs @ ys)" "tl_current l' = tl_current l"
      using tl_links_add [OF r(1) _ assms(2), of t] Cons by auto
    have "tl_rep l' (t # fst c, snd c)"
      by (rule tl_repI [of _ "(a, t) # xs" ys]) (use l' r Cons in auto)
    moreover have "cyc_add t c = (t # fst c, snd c)" using r(3) Cons by (cases c; cases "snd c") auto
    ultimately show ?thesis using l'(1) by simp
  qed
qed

lemma tl_next_rep:
  assumes "tl_rep l c" "snd c \<noteq> []"
  shows "\<exists>l'. tl_next_task l = Some (Some (hd (snd (cyc_next c))), l') \<and> tl_rep l' (cyc_next c)"
proof -
  from assms(1) obtain xs ys where r: "tl_links l (xs @ ys)" "map snd xs = fst c" "map snd ys = snd c"
    "tl_current l = (case ys of [] \<Rightarrow> 0 | y # _ \<Rightarrow> fst y)" "cyc_ok c" by (rule tl_repE)
  then obtain y ys' where ys: "ys = y # ys'" using assms(2) by (cases ys) auto
  obtain n where n: "fst y \<noteq> 0" "tl_nodes l (fst y) = Some n" "tl_next n = (case ys' of [] \<Rightarrow> 0 | z # _ \<Rightarrow> fst z)"
    using tl_node_at [of l xs y ys'] r(1) ys by auto
  show ?thesis
  proof (cases ys')
    case Nil
    then have c: "c = (map snd xs, [snd y])" using r ys by (cases c) auto
    obtain z zs where z: "xs @ ys = z # zs" using ys by (cases xs) auto
    then obtain m where m: "tl_front l = fst z" "fst z \<noteq> 0" "tl_nodes l (fst z) = Some m" "tl_task m = snd z"
      using r(1) tl_node_at [of l "[]" z zs] by (auto simp: tl_links_def)
    have "tl_next_task l = Some (Some (snd z), l\<lparr>tl_current := fst z\<rparr>)"
      using r(4) ys n Nil m by (simp add: tl_next_task_def Let_def)
    moreover have "tl_rep (l\<lparr>tl_current := fst z\<rparr>) ([], map snd xs @ [snd y])"
    proof (rule tl_repI [of _ "[]" "xs @ ys"])
      show "tl_current (l\<lparr>tl_current := fst z\<rparr>) = (case xs @ ys of [] \<Rightarrow> 0 | y # _ \<Rightarrow> fst y)" using z by simp
    qed (use r(1) ys Nil in auto)
    moreover have "snd z = hd (map snd xs @ [snd y])" using z ys Nil by (cases xs) auto
    ultimately show ?thesis using c by simp
  next
    case (Cons z zs)
    then have c: "c = (map snd xs, snd y # snd z # map snd zs)" using r ys by (cases c) auto
    obtain m where m: "fst z \<noteq> 0" "tl_nodes l (fst z) = Some m" "tl_task m = snd z"
      using tl_node_at [of l "xs @ [y]" z zs] r(1) ys Cons by auto
    have "tl_next_task l = Some (Some (snd z), l\<lparr>tl_current := fst z\<rparr>)"
      using r(4) ys n Cons m by (simp add: tl_next_task_def Let_def)
    moreover have "tl_rep (l\<lparr>tl_current := fst z\<rparr>) (map snd xs @ [snd y], snd z # map snd zs)"
      by (rule tl_repI [of _ "xs @ [y]" ys']) (use r(1) ys Cons in \<open>auto simp: tl_links_def\<close>)
    ultimately show ?thesis using c by simp
  qed
qed

lemma tl_remove_rep:
  assumes "tl_rep l c"
  shows "\<exists>l'. tl_remove_current l = Some l' \<and> tl_rep l' (cyc_remove c)"
proof -
  from assms(1) obtain xs ys where r: "tl_links l (xs @ ys)" "map snd xs = fst c" "map snd ys = snd c"
    "tl_current l = (case ys of [] \<Rightarrow> 0 | y # _ \<Rightarrow> fst y)" "cyc_ok c" by (rule tl_repE)
  show ?thesis
  proof (cases ys)
    case Nil
    then have "cyc_remove c = c" using r by (cases c) auto
    then show ?thesis using Nil r(4) assms by (simp add: tl_remove_current_def)
  next
    case (Cons y ys')
    have c: "cyc_remove c = (if ys' = [] then ([], map snd xs) else (map snd xs, map snd ys'))"
      using r(2,3) Cons by (cases c; cases ys') auto
    show ?thesis
    proof (cases "xs = []")
      case True
      then obtain l' where l': "tl_remove_current l = Some l'" "tl_links l' ys'"
        "tl_current l' = (case ys' of [] \<Rightarrow> 0 | y # _ \<Rightarrow> fst y)"
        using tl_remove_front [of l "fst y" "snd y" ys'] r(1,4) Cons by auto
      have "tl_rep l' ([], map snd ys')" by (rule tl_repI [of _ "[]" ys']) (use l' in auto)
      then show ?thesis using l'(1) c True by (cases ys') simp_all
    next
      case False
      then obtain ws w where ws: "xs = ws @ [w]" by (metis rev_exhaust)
      then obtain l' where l': "tl_remove_current l = Some l'" "tl_links l' (xs @ ys')"
        "tl_current l' = (case ys' of [] \<Rightarrow> tl_front l | y # _ \<Rightarrow> fst y)" "tl_front l' = tl_front l"
        using tl_remove_behind [of l ws w "fst y" "snd y" ys'] r(1,4) Cons by auto
      show ?thesis
      proof (cases ys')
        case Nil
        have "tl_front l = (case xs of [] \<Rightarrow> 0 | x # _ \<Rightarrow> fst x)"
          using l'(2,4) Nil seg_start [of "tl_nodes l'" "tl_front l'" xs 0] by (simp add: tl_links_def)
        then have "tl_rep l' ([], map snd xs)"
          by (intro tl_repI [of _ "[]" xs]) (use l' Nil in auto)
        then show ?thesis using l'(1) c Nil by simp
      next
        case C2: (Cons z zs)
        have "tl_rep l' (map snd xs, map snd ys')" by (rule tl_repI [of _ xs ys']) (use l' C2 in auto)
        then show ?thesis using l'(1) c C2 by simp
      qed
    qed
  qed
qed

interpretation tl: cyclic_queue tl_add_task tl_next_task tl_remove_current tl_rep "\<lambda>a l. a \<noteq> 0 \<and> tl_nodes l a = None"
  by unfold_locales (auto simp: tl_add_rep tl_next_rep tl_remove_rep elim: tl_repE)

section \<open>Runs\<close>

datatype tl_op = Add u64 nat | Next | Remove

text \<open>One operation on the list and on the cyclic list; the scheduler advances a non-empty list only.\<close>

fun tl_step :: "tl_op \<Rightarrow> task_list \<Rightarrow> (nat option \<times> task_list) option" where
  "tl_step (Add a t) l = map_option (Pair None) (tl_add_task a t l)"
| "tl_step Next l = (if tl_is_empty l then Some (None, l) else tl_next_task l)"
| "tl_step Remove l = map_option (Pair None) (tl_remove_current l)"

fun cyc_step :: "tl_op \<Rightarrow> cyclic \<Rightarrow> nat option \<times> cyclic" where
  "cyc_step (Add a t) c = (None, cyc_add t c)"
| "cyc_step Next c = (if snd c = [] then (None, c) else (Some (hd (snd (cyc_next c))), cyc_next c))"
| "cyc_step Remove c = (None, cyc_remove c)"

fun tl_run :: "tl_op list \<Rightarrow> task_list \<Rightarrow> (nat option list \<times> task_list) option" where
  "tl_run [] l = Some ([], l)"
| "tl_run (p # ps) l =
     (case tl_step p l of None \<Rightarrow> None | Some (r, l) \<Rightarrow> map_option (map_prod (Cons r) id) (tl_run ps l))"

fun cyc_run :: "tl_op list \<Rightarrow> cyclic \<Rightarrow> nat option list \<times> cyclic" where
  "cyc_run [] c = ([], c)"
| "cyc_run (p # ps) c = (let (r, c) = cyc_step p c; (rs, c) = cyc_run ps c in (r # rs, c))"

text \<open>New nodes get addresses that are not in use.\<close>

fun tl_fresh :: "tl_op list \<Rightarrow> task_list \<Rightarrow> bool" where
  "tl_fresh [] l \<longleftrightarrow> True"
| "tl_fresh (p # ps) l \<longleftrightarrow> (case p of Add a t \<Rightarrow> a \<noteq> 0 \<and> tl_nodes l a = None | _ \<Rightarrow> True) \<and>
     (case tl_step p l of None \<Rightarrow> True | Some (r, l) \<Rightarrow> tl_fresh ps l)"

lemma tl_is_empty_rep: "tl_rep l c \<Longrightarrow> tl_is_empty l \<longleftrightarrow> snd c = []"
proof (elim tl_repE)
  fix xs ys assume "tl_links l (xs @ ys)" "map snd xs = fst c" "map snd ys = snd c" "cyc_ok c"
  then show "tl_is_empty l \<longleftrightarrow> snd c = []"
    by (cases ys; cases xs) (auto simp: tl_is_empty_def tl_links_def cyc_ok_def)
qed

lemma tl_step_refines:
  assumes "tl_rep l c" "case p of Add a t \<Rightarrow> a \<noteq> 0 \<and> tl_nodes l a = None | _ \<Rightarrow> True"
  shows "\<exists>l'. tl_step p l = Some (fst (cyc_step p c), l') \<and> tl_rep l' (snd (cyc_step p c))"
  using assms tl.add_rep [OF assms(1)] tl.next_rep [OF assms(1)] tl.remove_rep [OF assms(1)]
  by (cases p) (auto simp: tl_is_empty_rep)

lemma tl_run_refines:
  "tl_rep l c \<Longrightarrow> tl_fresh ps l \<Longrightarrow> \<exists>l'. tl_run ps l = Some (fst (cyc_run ps c), l') \<and> tl_rep l' (snd (cyc_run ps c))"
proof (induction ps arbitrary: l c)
  case (Cons p ps)
  obtain l1 where l1: "tl_step p l = Some (fst (cyc_step p c), l1)" "tl_rep l1 (snd (cyc_step p c))"
    using tl_step_refines [OF Cons.prems(1)] Cons.prems(2) by fastforce
  then have "tl_fresh ps l1" using Cons.prems(2) by simp
  from Cons.IH [OF l1(2) this] l1(1) show ?case by (auto simp: case_prod_unfold Let_def)
qed auto

lemma tl_visit_run:
  "tl.visit k l = Some (ts, l') \<Longrightarrow> tl_rep l c \<Longrightarrow> snd c \<noteq> [] \<Longrightarrow> tl_run (replicate k Next) l = Some (map Some ts, l')"
proof (induction k arbitrary: l ts c)
  case (Suc k)
  obtain l1 where l1: "tl_next_task l = Some (Some (hd (snd (cyc_next c))), l1)" "tl_rep l1 (cyc_next c)"
    using tl.next_rep [OF Suc.prems(2,3)] by blast
  have "snd (cyc_next c) \<noteq> []" using Suc.prems(3) by (induction c rule: cyc_next.induct) auto
  then show ?case using Suc.IH [OF _ l1(2)] Suc.prems l1(1) by (auto simp: tl_is_empty_rep)
qed simp

text \<open>
  C9: The queue of the scheduler never faults: in every run of additions, advances and
  removals, with new nodes at unused addresses, it returns the tasks of a cyclic list with
  a cursor and represents this list; and advancing then visits its tasks in turn, each once
  in every round.
\<close>

theorem task_list_refines_cyclic:
  assumes "tl_fresh ps tl_empty"
  shows "\<exists>rs c l. cyc_run ps ([], []) = (rs, c) \<and> tl_run ps tl_empty = Some (rs, l) \<and> tl_rep l c \<and>
    (snd c \<noteq> [] \<longrightarrow> (\<exists>l'. tl_run (replicate k Next) l =
       Some (map (\<lambda>i. Some (cyc_order c ! (Suc i mod length (cyc_order c)))) [0..<k], l')))"
proof -
  have "tl_rep tl_empty ([], [])" by (rule tl_repI [of _ "[]" "[]"]) (auto simp: tl_links_def tl_empty_def)
  from tl_run_refines [OF this assms] obtain l where
    l: "tl_run ps tl_empty = Some (fst (cyc_run ps ([], [])), l)" "tl_rep l (snd (cyc_run ps ([], [])))" by blast
  let ?c = "snd (cyc_run ps ([], []))"
  have "\<exists>l'. tl_run (replicate k Next) l =
      Some (map (\<lambda>i. Some (cyc_order ?c ! (Suc i mod length (cyc_order ?c)))) [0..<k], l')" if ne: "snd ?c \<noteq> []"
    using tl.visit_rotates [OF l(2) ne, of k] tl_visit_run [OF _ l(2) ne, of k] by auto
  with l show ?thesis by (metis prod.collapse)
qed

theorem task_list_refines_cyclic_witness:
  "\<exists>l. tl_run [Add 8 1, Add 16 2, Next, Next, Remove, Next] tl_empty = Some ([None, None, Some 2, Some 1, None, Some 2], l)"
proof -
  let ?ps = "[Add 8 1, Add 16 2, Next, Next, Remove, Next]"
  have "tl_fresh ?ps tl_empty"
    by (simp add: tl_add_task_def tl_empty_def tl_node_def tl_set_next_def tl_set_prev_def tl_is_empty_def
        tl_next_task_def tl_remove_current_def Let_def)
  from task_list_refines_cyclic [OF this, of 0] obtain rs c l where
    run: "cyc_run ?ps ([], []) = (rs, c)" "tl_run ?ps tl_empty = Some (rs, l)" by blast
  have "fst (cyc_run ?ps ([], [])) = [None, None, Some 2, Some 1, None, Some 2]" by (simp add: Let_def)
  with run show ?thesis by simp
qed

end
