(* ===== verification/Task.thy ===== *)
theory Task
  imports Apic Vfs Ringbuffer Linked_List Task_List
begin

text \<open>
  Tasks (\<open>src/kernel/task.cpp\<close>, \<open>task.hpp\<close>) and the state of the whole kernel. A task, a file
  system node and a file descriptor are objects in stores indexed by their addresses; the
  page tables, the stacks and the memory of the page allocator are bytes of the machine.
\<close>

section \<open>State\<close>

text \<open>The registers an interrupt saves, in the order of the structure.\<close>

record registers =
  r15 :: u64
  r14 :: u64
  r13 :: u64
  r12 :: u64
  r11 :: u64
  r10 :: u64
  r9 :: u64
  r8 :: u64
  rbp :: u64
  rdi :: u64
  rsi :: u64
  rdx :: u64
  rcx :: u64
  rbx :: u64
  rax :: u64
  vect_num :: u64
  err_code :: u64
  iret_rip :: u64
  iret_cs :: u64
  iret_flags :: u64
  iret_rsp :: u64
  iret_ss :: u64

definition zero_registers :: registers where
  "zero_registers = \<lparr>r15 = 0, r14 = 0, r13 = 0, r12 = 0, r11 = 0, r10 = 0, r9 = 0, r8 = 0, rbp = 0, rdi = 0,
     rsi = 0, rdx = 0, rcx = 0, rbx = 0, rax = 0, vect_num = 0, err_code = 0, iret_rip = 0, iret_cs = 0,
     iret_flags = 0, iret_rsp = 0, iret_ss = 0\<rparr>"

datatype status = Ready | Running | Sleeping | WaitingIo

text \<open>
  \<open>events\<close> is a ring buffer of five keyboard events. The working directory is a string with the
  number of bytes allocated for it; the constructor does not set it.
\<close>

record task =
  pid :: u64
  status :: status
  address_space :: u64
  t_context :: registers
  task_name :: "u8 list"
  tsc_sleep :: u64
  events :: "keyboard_event ringbuffer"
  handles :: "nat dll"
  socket_handles :: "nat dll"
  next_id :: int
  futexes :: "u64 dll"
  heap_cur :: u64
  working_dir :: "u8 list"
  working_dir_size :: nat

text \<open>
  The static variables of the timer, the scheduler and the tasks. \<open>next_task_object\<close> and
  \<open>next_node\<close> are the addresses of the next task and of the next list node to be allocated.
\<close>

record kernel = apic +
  files :: vfs
  tasks :: "nat \<rightharpoonup> task"
  next_task_object :: nat
  next_node :: u64
  next_pid :: u64
  current_task :: "nat option"
  idle_task :: "nat option"
  queue :: task_list
  futex_handles :: "nat dll"
  futex_lock :: spinlock
  real_time :: u64
  apic_calibrated_ticks :: u32
  cycles_per_ms :: u32

definition update_task :: "nat \<Rightarrow> (task \<Rightarrow> task) \<Rightarrow> 'a kernel_scheme \<Rightarrow> 'a kernel_scheme" where
  "update_task t f s = s\<lparr>tasks := (tasks s)(t := map_option f (tasks s t))\<rparr>"

definition new_node_address :: "'a kernel_scheme \<Rightarrow> u64 \<times> 'a kernel_scheme" where
  "new_node_address s = (next_node s, s\<lparr>next_node := next_node s + 1\<rparr>)"

text \<open>A fault of a list operation is a null pointer.\<close>

definition pointing :: "'a option \<Rightarrow> fault + 'a" where
  "pointing r = (case r of None \<Rightarrow> Inl Null_Pointer | Some x \<Rightarrow> Inr x)"

lemma pointing_Some [simp]: "pointing (Some x) = Inr x"
  by (simp add: pointing_def)

lemma pointing_eq_Inr [simp]: "pointing r = Inr x \<longleftrightarrow> r = Some x"
  by (auto simp: pointing_def split: option.splits)

section \<open>Handles\<close>

text \<open>The current task; a deleted task is used after it was freed.\<close>

definition running_task :: "'a kernel_scheme \<Rightarrow> fault + (nat \<times> task)" where
  "running_task s = and_then (non_null (current_task s)) (\<lambda>t. and_then (live (tasks s) t) (\<lambda>k. Inr (t, k)))"

definition add_file_handle :: "nat \<Rightarrow> nat option \<Rightarrow> 'a kernel_scheme \<Rightarrow> fault + (int \<times> 'a kernel_scheme)" where
  "add_file_handle t fd s =
     (case fd of None \<Rightarrow> Inr (- 1, s)
      | Some d \<Rightarrow> and_then (live (tasks s) t) (\<lambda>k. and_then (deref (fds (files s)) d) (\<lambda>f.
          let f = (if fd_id f = - 1 then f\<lparr>fd_id := next_id k\<rparr> else f);
              (a, s) = new_node_address s
          in and_then (pointing (dll_push a d (handles k))) (\<lambda>l.
               Inr (fd_id f, s\<lparr>files := (files s)\<lparr>fds := (fds (files s))(d \<mapsto> f)\<rparr>,
                 tasks := (tasks s)(t \<mapsto> k\<lparr>next_id := next_id k + 1, handles := l\<rparr>)\<rparr>)))))"

text \<open>The search through a list of descriptors.\<close>

partial_function (option) find_handle ::
  "(nat \<rightharpoonup> file_descriptor) \<Rightarrow> int \<Rightarrow> u64 \<Rightarrow> nat dll \<Rightarrow> (fault + nat option) option" where
  "find_handle descs i current l =
     (if current = 0 then Some (Inr None)
      else case dll_nodes l current of None \<Rightarrow> Some (Inl Null_Pointer)
        | Some n \<Rightarrow> (case descs (nd_value n) of None \<Rightarrow> Some (Inl Use_After_Free)
            | Some f \<Rightarrow> if fd_id f = i then Some (Inr (Some (nd_value n))) else find_handle descs i (nd_next n) l))"

declare find_handle.simps [code]

definition get_file_handle :: "task \<Rightarrow> int \<Rightarrow> 'a kernel_scheme \<Rightarrow> fault + nat option" where
  "get_file_handle k i s =
     (case find_handle (fds (files s)) i (dll_head (handles k)) (handles k) of None \<Rightarrow> Inl Endless | Some r \<Rightarrow> r)"

section \<open>The initial stack\<close>

record auxval =
  at_entry :: u64
  at_phdr :: u64
  at_phent :: u64
  at_phnum :: u64

text \<open>The constants of \<open>elf.h\<close> that name the entries of the auxiliary vector.\<close>

record auxv_types =
  AT_SECURE :: u64
  AT_ENTRY :: u64
  AT_PHDR :: u64
  AT_PHENT :: u64
  AT_PHNUM :: u64

text \<open>The bytes of each string below the stack pointer, without the null byte.\<close>

primrec copy_strings :: "u8 list list \<Rightarrow> u64 \<Rightarrow> memory \<Rightarrow> u64 \<times> memory" where
  "copy_strings [] stack m = (stack, m)"
| "copy_strings (str # strs) stack m =
     (let stack = stack - of_nat (length str) - 1 in copy_strings strs stack (put_bytes stack str m))"

definition push_to_stack :: "u64 \<Rightarrow> u64 \<times> memory \<Rightarrow> u64 \<times> memory" where
  "push_to_stack v sm = (let stack = fst sm - 8 in (stack, write64 stack v (snd sm)))"

text \<open>The pointers to the copied strings, as the user program will see them.\<close>

primrec push_pointers :: "u8 list list \<Rightarrow> u64 \<Rightarrow> u64 \<times> memory \<Rightarrow> u64 \<times> (u64 \<times> memory)" where
  "push_pointers [] old_rsp sm = (old_rsp, sm)"
| "push_pointers (str # strs) old_rsp sm =
     (let old_rsp = old_rsp - (of_nat (length str) + 1) in push_pointers strs old_rsp (push_to_stack old_rsp sm))"

definition push_auxv :: "auxv_types \<Rightarrow> auxval \<Rightarrow> u64 \<times> memory \<Rightarrow> u64 \<times> memory" where
  "push_auxv c auxv sm =
     fold push_to_stack [0, 0, 0, AT_SECURE c, at_entry auxv, AT_ENTRY c, at_phdr auxv, AT_PHDR c,
       at_phent auxv, AT_PHENT c, at_phnum auxv, AT_PHNUM c] sm"

text \<open>
  \<open>stack_top\<close> is where the kernel reaches the end of the stack and \<open>rsp\<close> where the program does;
  the result is the stack pointer of the program.
\<close>

definition init_stack :: "auxv_types \<Rightarrow> u8 list list \<Rightarrow> u8 list list \<Rightarrow> auxval \<Rightarrow> u64 \<Rightarrow> u64 \<Rightarrow> memory \<Rightarrow> u64 \<times> memory"
where
  "init_stack c argv envp auxv stack_top rsp m =
     (let (stack, m) = copy_strings envp stack_top m;
          (stack, m) = copy_strings argv stack m;
          stack = ALIGN_DOWN stack 16;
          stack = (if (length argv + length envp) mod 2 = 0 then stack - 8 else stack);
          sm = push_auxv c auxv (stack, m);
          sm = push_to_stack 0 sm;
          (old_rsp, sm) = push_pointers envp rsp sm;
          sm = push_to_stack 0 sm;
          (old_rsp, sm) = push_pointers argv old_rsp sm;
          sm = push_to_stack (of_nat (length argv)) sm
      in (rsp - (stack_top - fst sm), snd sm))"

section \<open>Creating a task\<close>

definition KERNEL_CS :: u64 where
  "KERNEL_CS = 0x08"

definition KERNEL_DS :: u64 where
  "KERNEL_DS = 0x10"

definition USER_CS :: u64 where
  "USER_CS = 0x18"

definition USER_DS :: u64 where
  "USER_DS = 0x20"

text \<open>The stack and the segments of a program, and of a thread of the kernel.\<close>

definition user_stack :: "auxv_types \<Rightarrow> u64 \<Rightarrow> auxval \<Rightarrow> registers \<Rightarrow> 'a kernel_scheme \<Rightarrow> (registers \<times> 'a kernel_scheme) option"
where
  "user_stack c space auxv ctx s =
     do {
       (phys_stack, s) \<leftarrow> pmm_alloc (STACK_SIZE div PAGE_SIZE) s;
       s \<leftarrow> map_range space (USER_STACK_BASE - STACK_SIZE) phys_stack (STACK_SIZE div PAGE_SIZE)
         (PTE_PRESENT OR PTE_WRITABLE OR PTE_NX OR PTE_USER) s;
       let (rsp, m) = init_stack c [] [] auxv (PHYS_TO_VIRT s (phys_stack + STACK_SIZE)) USER_STACK_BASE (mem s);
       Some (ctx\<lparr>iret_rsp := rsp, iret_cs := USER_CS OR 3, iret_ss := USER_DS OR 3\<rparr>, s\<lparr>mem := m\<rparr>) }"

definition kernel_stack :: "registers \<Rightarrow> 'a kernel_scheme \<Rightarrow> (registers \<times> 'a kernel_scheme) option" where
  "kernel_stack ctx s =
     do {
       (phys_stack, s) \<leftarrow> pmm_alloc (STACK_SIZE div PAGE_SIZE) s;
       Some (ctx\<lparr>iret_rsp := PHYS_TO_VIRT s (phys_stack + STACK_SIZE), iret_cs := KERNEL_CS, iret_ss := KERNEL_DS\<rparr>, s) }"

text \<open>
  \<open>None\<close> is an allocator that does not return. The fields the constructor does not set are
  those of \<open>junk\<close>, what the allocated memory held.
\<close>

definition task_create ::
  "auxv_types \<Rightarrow> task \<Rightarrow> u8 list \<Rightarrow> u64 \<Rightarrow> bool \<Rightarrow> u64 option \<Rightarrow> auxval \<Rightarrow> 'a kernel_scheme \<Rightarrow>
   (fault + (nat \<times> 'a kernel_scheme)) option" where
  "task_create c junk name start user_mode page_map auxv s =
     do {
       let t = next_task_object s;
       let p = next_pid s;
       let s = s\<lparr>next_task_object := t + 1, next_pid := p + 1\<rparr>;
       (space, s) \<leftarrow> (case page_map of None \<Rightarrow> new_space s | Some a \<Rightarrow> Some (a, s));
       let ctx = zero_registers\<lparr>iret_rip := start\<rparr>;
       (ctx, s) \<leftarrow> (if user_mode then user_stack c space auxv ctx s else kernel_stack ctx s);
       let k = junk\<lparr>pid := p, status := Ready, address_space := space, t_context := ctx\<lparr>iret_flags := 0x202\<rparr>,
         task_name := name, handles := dll_empty, socket_handles := dll_empty, next_id := 3, futexes := dll_empty,
         events := rb_new (rb_data (events junk))\<rparr>;
       let s = s\<lparr>tasks := (tasks s)(t \<mapsto> k)\<rparr>;
       Some (and_then (add_file_handle t (Some (vfs_stdin (files s))) s) (\<lambda>(_, s).
         and_then (add_file_handle t (Some (vfs_stdout (files s))) s) (\<lambda>(_, s).
         and_then (add_file_handle t (Some (vfs_stderr (files s))) s) (\<lambda>(_, s). Inr (t, s))))) }"

text \<open>The destructor frees the user stack and the address space.\<close>

definition task_delete :: "nat \<Rightarrow> 'a kernel_scheme \<Rightarrow> (fault + 'a kernel_scheme) option" where
  "task_delete t s =
     (case tasks s t of None \<Rightarrow> Some (Inl Use_After_Free)
      | Some k \<Rightarrow> do {
          (phys, s) \<leftarrow> virt_to_phys (address_space k) (USER_STACK_BASE - STACK_SIZE) s;
          s \<leftarrow> pmm_free phys (STACK_SIZE div PAGE_SIZE) s;
          s \<leftarrow> delete_address_space (address_space k) s;
          Some (Inr (s\<lparr>tasks := (tasks s)(t := None)\<rparr>)) })"

end
