(* ===== verification/Initial_Stack.thy ===== *)
theory Initial_Stack
  imports Task
begin

text \<open>
  The layout of the stack a new program starts with, as \<open>Task::create\<close> writes it.
\<close>

lemma read64_below:
  assumes "8 \<le> a - b" "8 \<le> b - a"
  shows "read64 (write64 (p - a) v m) (p - b) = read64 m (p - b)"
proof (rule read64_write64_disjoint [OF region8_disjoint])
  show "8 \<le> p - b - (p - a)" "8 \<le> p - a - (p - b)" using assms by (simp_all add: algebra_simps)
qed

lemma write64_above:
  assumes "n \<le> a - (p - n)" "8 \<le> k" "k \<le> n"
  shows "write64 (p - k) v m a = m a"
proof (rule write64_outside)
  have "8 \<le> a - (p - k)" using assms by uint_arith
  then show "a \<notin> region (p - k) 8" by (simp add: region_def not_less)
qed

lemma low_four: "p AND 0xf = take_bit 4 (p :: u64)"
  by (simp add: take_bit_eq_mask mask_eq_exp_minus_1)

lemma align_16:
  assumes "p AND 0xf = 0"
  shows "ALIGN_DOWN p 16 = p"
proof (rule bit_word_eqI)
  fix n assume "n < LENGTH(64)"
  have "ALIGN_DOWN p 16 = p AND NOT (Bit_Operations.mask 4)" by (simp add: ALIGN_DOWN_def mask_eq_exp_minus_1)
  moreover have "\<not> bit (take_bit 4 p) n" using assms by (simp add: low_four)
  ultimately show "bit (ALIGN_DOWN p 16) n = bit p n"
    using \<open>n < LENGTH(64)\<close> by (auto simp: bit_simps)
qed

lemma aligned_minus_128:
  assumes "p AND 0xf = 0"
  shows "(p - 128) AND 0xf = (0 :: u64)"
proof -
  have "uint (p AND 0xf) = uint p mod 16" for p :: u64
    by (simp add: low_four take_bit_eq_mod uint_mod)
  moreover have "uint (p - 128) = (uint p - 128) mod 2 ^ 64"
    by (simp add: uint_word_ariths)
  then have "uint (p - 128) mod 16 = (uint p - 128) mod 16"
    by (simp only:) (rule mod_mod_cancel, simp)
  moreover have "(uint p - 128) mod 16 = uint p mod 16"
    using mod_mult_self1 [of "uint p" "- 8" 16] by (simp only: mult_minus_left) simp
  ultimately have "uint ((p - 128) AND 0xf) = uint (p AND 0xf)" by metis
  then show ?thesis using assms by (simp add: uint_0_iff)
qed

text \<open>The words of the initial stack, from the stack pointer of the program upwards.\<close>

definition stack_words :: "auxv_types \<Rightarrow> auxval \<Rightarrow> u64 list" where
  "stack_words c auxv = [0, 0, 0, AT_PHNUM c, at_phnum auxv, AT_PHENT c, at_phent auxv, AT_PHDR c, at_phdr auxv,
     AT_ENTRY c, at_entry auxv, AT_SECURE c, 0, 0, 0]"

text \<open>
  C17: A new program finds at its stack pointer, which is a multiple of 16, a count of no
  arguments, the null pointers that end the arguments and the environment, and the auxiliary
  vector, ended by a null entry; the stack pointer lies as far below the end of the stack as
  the words that were written, and nothing else is.
\<close>

theorem initial_stack_layout:
  assumes "stack_top AND 0xf = 0" and "rsp AND 0xf = 0"
    and "init_stack c [] [] auxv stack_top rsp m = (sp, m')"
  shows "sp = rsp - 128 \<and> sp AND 0xf = 0 \<and>
    map (\<lambda>i. read64 m' (stack_top - 128 + 8 * of_nat i)) [0..<15] = stack_words c auxv \<and>
    (\<forall>a. 128 \<le> a - (stack_top - 128) \<longrightarrow> m' a = m a)"
proof -
  let ?vs = "[0, 0, 0, AT_SECURE c, at_entry auxv, AT_ENTRY c, at_phdr auxv, AT_PHDR c, at_phent auxv,
    AT_PHENT c, at_phnum auxv, AT_PHNUM c, 0, 0, 0]"
  let ?sm = "fold push_to_stack ?vs (stack_top - 8, m)"
  have "push_to_stack (of_nat 0) (push_to_stack 0 (push_to_stack 0 (push_auxv c auxv (stack_top - 8, m)))) = ?sm"
    by (simp add: push_auxv_def)
  then have "init_stack c [] [] auxv stack_top rsp m = (rsp - (stack_top - fst ?sm), snd ?sm)"
    unfolding init_stack_def by (simp add: align_16 [OF assms(1)] Let_def del: fold.simps of_nat_0)
  moreover have "fst ?sm = stack_top - 128" by (simp add: push_to_stack_def Let_def)
  ultimately have r: "sp = rsp - 128" "m' = snd ?sm"
    using assms(3) by simp_all
  have "sp AND 0xf = 0"
    unfolding r(1) by (rule aligned_minus_128 [OF assms(2)])
  moreover have "map (\<lambda>i. read64 m' (stack_top - 128 + 8 * of_nat i)) [0..<15] = stack_words c auxv"
    unfolding r(2)
    by (simp add: push_to_stack_def Let_def stack_words_def upt_rec read64_below read64_write64_same)
  moreover have "m' a = m a" if "128 \<le> a - (stack_top - 128)" for a
    unfolding r(2) using that by (simp add: push_to_stack_def Let_def write64_above [of 128])
  ultimately show ?thesis using r(1) by blast
qed

theorem initial_stack_layout_witness:
  "\<exists>m'. init_stack \<lparr>AT_SECURE = 23, AT_ENTRY = 9, AT_PHDR = 3, AT_PHENT = 4, AT_PHNUM = 5\<rparr> [] []
      \<lparr>at_entry = 0x401000, at_phdr = 0x400040, at_phent = 56, at_phnum = 4\<rparr> 0x8000 0x7000 (\<lambda>_. 0) = (0x6f80, m') \<and>
    read64 m' 0x7f98 = 5"
proof -
  let ?c = "\<lparr>AT_SECURE = 23, AT_ENTRY = 9, AT_PHDR = 3, AT_PHENT = 4, AT_PHNUM = 5\<rparr>"
  let ?v = "\<lparr>at_entry = 0x401000, at_phdr = 0x400040, at_phent = 56, at_phnum = 4\<rparr>"
  obtain sp m' where i: "init_stack ?c [] [] ?v 0x8000 0x7000 (\<lambda>_. 0) = (sp, m')" by fastforce
  have "sp = 0x7000 - 128" "map (\<lambda>i. read64 m' (0x8000 - 128 + 8 * of_nat i)) [0..<15] = stack_words ?c ?v"
    using initial_stack_layout [OF _ _ i] by simp_all
  moreover have "map (\<lambda>i. read64 m' (0x8000 - 128 + 8 * of_nat i)) [0..<15] ! 3 = read64 m' (0x8000 - 128 + 8 * of_nat 3)"
    by (rule trans [OF nth_map]) simp_all
  ultimately have "read64 m' (0x8000 - 128 + 8 * of_nat 3) = stack_words ?c ?v ! 3" "sp = 0x7000 - 128" by simp_all
  then show ?thesis using i by (simp add: stack_words_def)
qed

end
