(* ===== verification/Scheduler.thy ===== *)
theory Scheduler
  imports Task
begin

text \<open>
  The round-robin scheduler (\<open>src/kernel/scheduler.cpp\<close>) with the part of the timer it uses
  (\<open>timer.cpp\<close>): switching tasks in the timer interrupt, sleeping, waiting for input, futexes
  and the end of a task. The time stamp counter is a device; the register frame of the
  interrupt is an argument and a result.
\<close>

section \<open>The timer\<close>

definition lapic_stop :: "'a kernel_scheme \<Rightarrow> 'a kernel_scheme" where
  "lapic_stop s = lapic_write TimerLvt (push_bit 16 1) s"

definition lapic_resume :: "'a kernel_scheme \<Rightarrow> 'a kernel_scheme" where
  "lapic_resume s =
     (let s = lapic_write TimerInitCount (apic_calibrated_ticks s) s
      in lapic_write TimerLvt (ucast TIMER_VECT OR push_bit 17 1) s)"

definition ms_to_cycles :: "u64 \<Rightarrow> 'a kernel_scheme \<Rightarrow> u64" where
  "ms_to_cycles ms s = ucast (cycles_per_ms s) * ms"

definition get_real_time :: "'a kernel_scheme \<Rightarrow> u64" where
  "get_real_time s = real_time s"

section \<open>Switching tasks\<close>

definition set_status :: "nat \<Rightarrow> status \<Rightarrow> 'a kernel_scheme \<Rightarrow> 'a kernel_scheme" where
  "set_status t st = update_task t (\<lambda>k. k\<lparr>status := st\<rparr>)"

text \<open>
  A task that cannot run: the cursor moves on, to the next task or, if there is no other one,
  to the idle task.
\<close>

definition skip_task :: "nat \<Rightarrow> 'a kernel_scheme \<Rightarrow> fault + 'a kernel_scheme" where
  "skip_task t s =
     and_then (pointing (tl_next_task (queue s))) (\<lambda>(next_task, q).
       let s = s\<lparr>queue := q\<rparr>
       in if next_task \<noteq> Some t then Inr (s\<lparr>current_task := tl_get_current q\<rparr>)
          else Inr (s\<lparr>current_task := idle_task s\<rparr>))"

partial_function (option) find_task :: "'a kernel_scheme \<Rightarrow> (fault + 'a kernel_scheme) option" where
  "find_task s =
     (case running_task s of Inl e \<Rightarrow> Some (Inl e)
      | Inr (t, k) \<Rightarrow>
        (case status k of
           Running \<Rightarrow> Some (Inr s)
         | Ready \<Rightarrow> Some (Inr (set_status t Running s))
         | Sleeping \<Rightarrow>
             (case rdtsc s of (now, s) \<Rightarrow>
               if now \<ge> tsc_sleep k then find_task (set_status t Running s)
               else (case skip_task t s of Inl e \<Rightarrow> Some (Inl e) | Inr s \<Rightarrow> find_task s))
         | WaitingIo \<Rightarrow> (case skip_task t s of Inl e \<Rightarrow> Some (Inl e) | Inr s \<Rightarrow> find_task s)))"

declare find_task.simps [code]

text \<open>The first part of \<open>schedule\<close>: which task is left, and whether its registers are kept.\<close>

definition save_context :: "registers \<Rightarrow> 'a kernel_scheme \<Rightarrow> fault + 'a kernel_scheme" where
  "save_context regs s =
     (if tl_is_empty (queue s) then Inr (s\<lparr>current_task := idle_task s\<rparr>)
      else and_then (running_task s) (\<lambda>(t, k).
        if status k \<noteq> Ready then Inr (update_task t (\<lambda>k. k\<lparr>t_context := regs\<rparr>) s) else Inr s))"

definition advance_queue :: "'a kernel_scheme \<Rightarrow> fault + 'a kernel_scheme" where
  "advance_queue s =
     (if tl_is_empty (queue s) then Inr s
      else and_then (pointing (tl_next_task (queue s))) (\<lambda>(next_task, q). Inr (s\<lparr>queue := q, current_task := next_task\<rparr>)))"

definition schedule :: "registers \<Rightarrow> 'a kernel_scheme \<Rightarrow> fault + (registers \<times> 'a kernel_scheme)" where
  "schedule regs s =
     (let s = lapic_stop s
      in if tl_is_empty (queue s) \<and> idle_task s = None then Inr (regs, lapic_resume s)
         else and_then (save_context regs s) (\<lambda>s. and_then (advance_queue s) (\<lambda>s.
           and_then (and_then (terminating (find_task s)) id) (\<lambda>s.
           and_then (running_task s) (\<lambda>(t, k).
             Inr (t_context k, lapic_resume (switch_space (address_space k) s)))))))"

section \<open>What tasks ask for\<close>

text \<open>
  \<open>yield\<close> raises the timer interrupt; \<open>interrupt\<close> stands for the dispatch of this vector with
  the registers of the caller.
\<close>

type_synonym 'a dispatch = "registers \<Rightarrow> 'a kernel_scheme \<Rightarrow> fault + (registers \<times> 'a kernel_scheme)"

definition yield :: "'a dispatch \<Rightarrow> registers \<Rightarrow> 'a kernel_scheme \<Rightarrow> fault + (registers \<times> 'a kernel_scheme)" where
  "yield interrupt regs s = interrupt regs (lapic_stop s)"

definition kill_and_yield ::
  "'a dispatch \<Rightarrow> registers \<Rightarrow> 'a kernel_scheme \<Rightarrow> fault + (registers \<times> 'a kernel_scheme)" where
  "kill_and_yield interrupt regs s =
     (if tl_is_empty (queue s) then Inr (regs, s)
      else and_then (non_null (current_task s)) (\<lambda>t.
        and_then (and_then (terminating (task_delete t s)) id) (\<lambda>s.
        and_then (pointing (tl_remove_current (queue s))) (\<lambda>q. yield interrupt regs (s\<lparr>queue := q\<rparr>)))))"

definition sched_sleep ::
  "'a dispatch \<Rightarrow> u64 \<Rightarrow> registers \<Rightarrow> 'a kernel_scheme \<Rightarrow> fault + (registers \<times> 'a kernel_scheme)" where
  "sched_sleep interrupt ms regs s =
     and_then (running_task s) (\<lambda>(t, k).
       let (now, s) = rdtsc s
       in yield interrupt regs (update_task t (\<lambda>k. k\<lparr>status := Sleeping, tsc_sleep := now + ms_to_cycles ms s\<rparr>) s))"

definition await_io ::
  "'a dispatch \<Rightarrow> registers \<Rightarrow> 'a kernel_scheme \<Rightarrow> fault + (registers \<times> 'a kernel_scheme)" where
  "await_io interrupt regs s =
     and_then (running_task s) (\<lambda>(t, k). yield interrupt regs (set_status t WaitingIo s))"

definition add_task :: "nat \<Rightarrow> 'a kernel_scheme \<Rightarrow> fault + 'a kernel_scheme" where
  "add_task t s =
     (let (a, s) = new_node_address s
      in and_then (pointing (tl_add_task a t (queue s))) (\<lambda>q. Inr (s\<lparr>queue := q\<rparr>)))"

text \<open>The walks over the queue that wake tasks.\<close>

partial_function (option) wake_each ::
  "(task \<Rightarrow> task) \<Rightarrow> u64 \<Rightarrow> 'a kernel_scheme \<Rightarrow> (fault + 'a kernel_scheme) option" where
  "wake_each f current s =
     (if current = 0 then Some (Inr s)
      else case tl_nodes (queue s) current of None \<Rightarrow> Some (Inl Null_Pointer)
        | Some n \<Rightarrow> (case tasks s (tl_task n) of None \<Rightarrow> Some (Inl Use_After_Free)
            | Some k \<Rightarrow> wake_each f (tl_next n) (s\<lparr>tasks := (tasks s)(tl_task n \<mapsto> f k)\<rparr>)))"

declare wake_each.simps [code]

definition woken :: "task \<Rightarrow> task" where
  "woken k = (if status k = WaitingIo then k\<lparr>status := Running\<rparr> else k)"

definition wake_io :: "keyboard_event \<Rightarrow> 'a kernel_scheme \<Rightarrow> fault + 'a kernel_scheme" where
  "wake_io e s = and_then (terminating (wake_each (\<lambda>k. woken (k\<lparr>events := rb_write 5 e (events k)\<rparr>))
     (tl_front (queue s)) s)) id"

definition wake_net :: "'a kernel_scheme \<Rightarrow> fault + 'a kernel_scheme" where
  "wake_net s = and_then (terminating (wake_each woken (tl_front (queue s)) s)) id"

section \<open>Futexes\<close>

definition add_futex_handle :: "nat \<Rightarrow> 'a kernel_scheme \<Rightarrow> fault + 'a kernel_scheme" where
  "add_futex_handle t s =
     and_then (terminating (acquire futex_lock futex_lock_update s)) (\<lambda>s.
       let (a, s) = new_node_address s
       in and_then (pointing (dll_push a t (futex_handles s))) (\<lambda>l.
            Inr (release futex_lock futex_lock_update (s\<lparr>futex_handles := l\<rparr>))))"

definition remove_futex_handle :: "nat \<Rightarrow> 'a kernel_scheme \<Rightarrow> fault + 'a kernel_scheme" where
  "remove_futex_handle t s =
     and_then (terminating (acquire futex_lock futex_lock_update s)) (\<lambda>s.
       and_then (pointing (dll_remove t (futex_handles s))) (\<lambda>l.
         Inr (release futex_lock futex_lock_update (s\<lparr>futex_handles := l\<rparr>))))"

partial_function (option) wake_futexes :: "u64 \<Rightarrow> u64 \<Rightarrow> 'a kernel_scheme \<Rightarrow> (fault + 'a kernel_scheme) option" where
  "wake_futexes p current s =
     (if current = 0 then Some (Inr s)
      else case dll_nodes (futex_handles s) current of None \<Rightarrow> Some (Inl Null_Pointer)
        | Some n \<Rightarrow> (case tasks s (nd_value n) of None \<Rightarrow> Some (Inl Use_After_Free)
            | Some k \<Rightarrow> (case dll_get p (futexes k) of None \<Rightarrow> Some (Inl Null_Pointer)
                | Some found \<Rightarrow> wake_futexes p (nd_next n)
                    (if found \<noteq> None then set_status (nd_value n) Running s else s))))"

declare wake_futexes.simps [code]

definition wake_futex_handles :: "u64 \<Rightarrow> 'a kernel_scheme \<Rightarrow> fault + 'a kernel_scheme" where
  "wake_futex_handles p s =
     and_then (terminating (acquire futex_lock futex_lock_update s)) (\<lambda>s.
       and_then (and_then (terminating (wake_futexes p (dll_head (futex_handles s)) s)) id) (\<lambda>s.
         Inr (release futex_lock futex_lock_update s)))"

section \<open>Start\<close>

text \<open>\<open>idle_func\<close> is the address of the function the idle task runs.\<close>

definition scheduler_init ::
  "auxv_types \<Rightarrow> task \<Rightarrow> auxval \<Rightarrow> u64 \<Rightarrow> 'a kernel_scheme \<Rightarrow> (fault + 'a kernel_scheme) option" where
  "scheduler_init c junk auxv idle_func s =
     do {
       r \<leftarrow> task_create c junk [0x69, 0x64, 0x6c, 0x65] idle_func False None auxv s;
       Some (and_then r (\<lambda>(t, s). Inr (s\<lparr>idle_task := Some t, current_task := Some t\<rparr>))) }"

end
