(* ===== verification/Scheduler_Spec.thy ===== *)
theory Scheduler_Spec
  imports Scheduler
begin

text \<open>
  What the scheduler promises: the next runnable task in the order of the queue gets the
  processor, with the registers it was interrupted with; and the states in which it has
  nothing to run.
\<close>

section \<open>The cursor\<close>

text \<open>The current task is the one under the cursor of the queue.\<close>

definition cursor_at :: "'a kernel_scheme \<Rightarrow> cyclic \<Rightarrow> bool" where
  "cursor_at s c \<longleftrightarrow> tl_rep (queue s) c \<and> snd c \<noteq> [] \<and> current_task s = Some (hd (snd c))"

lemma tl_get_current_rep: "tl_rep l c \<Longrightarrow> snd c \<noteq> [] \<Longrightarrow> tl_get_current l = Some (hd (snd c))"
proof (elim tl_repE)
  fix xs ys assume r: "tl_links l (xs @ ys)" "map snd ys = snd c" "snd c \<noteq> []"
    "tl_current l = (case ys of [] \<Rightarrow> 0 | y # _ \<Rightarrow> fst y)"
  then obtain y ys' where ys: "ys = y # ys'" by (cases ys) auto
  then show ?thesis using tl_node_at [of l xs y ys'] r by (cases "snd c") (auto simp: tl_get_current_def)
qed

lemma cyc_order_hd: "snd c \<noteq> [] \<Longrightarrow> cyc_order c = hd (snd c) # tl (snd c) @ fst c"
  by (cases "snd c") (auto simp: cyc_order_def)

lemma cyc_next_nonempty: "snd c \<noteq> [] \<Longrightarrow> snd (cyc_next c) \<noteq> []"
  by (induction c rule: cyc_next.induct) auto

lemma next_order: "tl_rep l c \<Longrightarrow> cyc_order (cyc_next c) = rotate1 (cyc_order c)"
  using cyc_next_order tl.rep_ok by blast

lemma skip_task_moves:
  assumes "cursor_at s c" "cyc_order c = t # u # us" "t \<noteq> u"
  shows "\<exists>q. skip_task t s = Inr (s\<lparr>queue := q, current_task := Some u\<rparr>) \<and>
    cursor_at (s\<lparr>queue := q, current_task := Some u\<rparr>) (cyc_next c) \<and> cyc_order (cyc_next c) = u # us @ [t]"
proof -
  have c: "tl_rep (queue s) c" "snd c \<noteq> []" using assms(1) by (simp_all add: cursor_at_def)
  obtain q where q: "tl_next_task (queue s) = Some (Some (hd (snd (cyc_next c))), q)" "tl_rep q (cyc_next c)"
    using tl.next_rep [OF c] by blast
  have order: "cyc_order (cyc_next c) = u # us @ [t]" using next_order [OF c(1)] assms(2) by simp
  have ne: "snd (cyc_next c) \<noteq> []" by (rule cyc_next_nonempty [OF c(2)])
  then have "hd (snd (cyc_next c)) = u" using order by (simp add: cyc_order_hd)
  moreover have "tl_get_current q = Some (hd (snd (cyc_next c)))" by (rule tl_get_current_rep [OF q(2) ne])
  ultimately show ?thesis
    using q assms(3) ne order by (auto simp: skip_task_def Let_def cursor_at_def)
qed

lemma skip_task_alone:
  assumes "cursor_at s c" "cyc_order c = [t]"
  shows "\<exists>q. skip_task t s = Inr (s\<lparr>queue := q, current_task := idle_task s\<rparr>) \<and> tl_rep q c"
proof -
  have c: "tl_rep (queue s) c" "snd c \<noteq> []" using assms(1) by (simp_all add: cursor_at_def)
  then have "c = ([], [t])" using assms(2) by (cases c; cases "snd c") (auto simp: cyc_order_def)
  then show ?thesis using tl.next_rep [OF c] by (auto simp: skip_task_def Let_def)
qed

section \<open>Finding a task\<close>

text \<open>
  A task that cannot run waits for input or sleeps until a time the counter does not reach;
  one that can is ready, was running, or its sleep is over.
\<close>

definition blocked :: "'a bus_scheme \<Rightarrow> task \<Rightarrow> bool" where
  "blocked s k \<longleftrightarrow> status k = WaitingIo \<or> status k = Sleeping \<and> (\<forall>es. device s (Rdtsc # es) < tsc_sleep k)"

definition runnable :: "'a bus_scheme \<Rightarrow> task \<Rightarrow> bool" where
  "runnable s k \<longleftrightarrow> status k = Ready \<or> status k = Running \<or>
     status k = Sleeping \<and> (\<forall>es. tsc_sleep k \<le> device s (Rdtsc # es))"

lemma running_task_eq: "current_task s = Some t \<Longrightarrow> tasks s t = Some k \<Longrightarrow> running_task s = Inr (t, k)"
  by (simp add: running_task_def non_null_def live_def)

lemma find_task_runnable:
  assumes "current_task s = Some t" "tasks s t = Some k" "runnable s k"
  shows "\<exists>es. find_task s = Some (Inr (s\<lparr>io_log := es @ io_log s, tasks := (tasks s)(t \<mapsto> k\<lparr>status := Running\<rparr>)\<rparr>))"
proof -
  have run: "running_task s = Inr (t, k)" by (rule running_task_eq [OF assms(1,2)])
  show ?thesis
  proof (cases "status k")
    case Ready
    then have "find_task s = Some (Inr (s\<lparr>io_log := [] @ io_log s, tasks := (tasks s)(t \<mapsto> k\<lparr>status := Running\<rparr>)\<rparr>))"
      using run assms(2) by (subst find_task.simps) (simp add: set_status_def update_task_def)
    then show ?thesis by blast
  next
    case Running
    then have "k\<lparr>status := Running\<rparr> = k" by (cases k) simp
    then have "s\<lparr>io_log := [] @ io_log s, tasks := (tasks s)(t \<mapsto> k\<lparr>status := Running\<rparr>)\<rparr> = s"
      using assms(2) by (simp add: fun_upd_idem)
    moreover have "find_task s = Some (Inr s)" using run Running by (subst find_task.simps) simp
    ultimately have "find_task s = Some (Inr (s\<lparr>io_log := [] @ io_log s, tasks := (tasks s)(t \<mapsto> k\<lparr>status := Running\<rparr>)\<rparr>))"
      by simp
    then show ?thesis by blast
  next
    case Sleeping
    let ?s = "s\<lparr>io_log := [Rdtsc] @ io_log s, tasks := (tasks s)(t \<mapsto> k\<lparr>status := Running\<rparr>)\<rparr>"
    have "find_task ?s = Some (Inr ?s)"
      using assms(1) by (subst find_task.simps) (simp add: running_task_def non_null_def live_def)
    moreover have "find_task s = find_task ?s"
      using run Sleeping assms(2,3)
      by (subst find_task.simps) (simp add: runnable_def rdtsc_def io_get_def io_do_def set_status_def update_task_def)
    ultimately show ?thesis by metis
  next
    case WaitingIo
    then show ?thesis using assms(3) by (simp add: runnable_def)
  qed
qed

lemma same_current: "current_task s = Some t \<Longrightarrow>
    s\<lparr>io_log := l, queue := queue s, current_task := Some t, tasks := T\<rparr> = s\<lparr>io_log := l, tasks := T\<rparr>"
  by (cases s) simp

lemma find_task_blocked:
  assumes "cursor_at s c" "cyc_order c = t # u # us" "t \<noteq> u" "tasks s t = Some k" "blocked s k"
  shows "\<exists>q es. find_task s = find_task (s\<lparr>io_log := es @ io_log s, queue := q, current_task := Some u\<rparr>) \<and>
    cursor_at (s\<lparr>io_log := es @ io_log s, queue := q, current_task := Some u\<rparr>) (cyc_next c) \<and>
    cyc_order (cyc_next c) = u # us @ [t]"
proof -
  have cur: "current_task s = Some t"
    using assms(1,2) by (auto simp: cursor_at_def cyc_order_hd)
  have run: "running_task s = Inr (t, k)" by (rule running_task_eq [OF cur assms(4)])
  show ?thesis
  proof (cases "status k = WaitingIo")
    case True
    obtain q where q: "skip_task t s = Inr (s\<lparr>queue := q, current_task := Some u\<rparr>)"
      "cursor_at (s\<lparr>queue := q, current_task := Some u\<rparr>) (cyc_next c)" "cyc_order (cyc_next c) = u # us @ [t]"
      using skip_task_moves [OF assms(1-3)] by blast
    have "find_task s = find_task (s\<lparr>io_log := [] @ io_log s, queue := q, current_task := Some u\<rparr>)"
      using run True q(1) by (subst find_task.simps) simp
    with q show ?thesis by (intro exI [of _ q] exI [of _ "[]"]) (simp add: cursor_at_def)
  next
    case False
    then have sl: "status k = Sleeping" "\<And>es. device s (Rdtsc # es) < tsc_sleep k"
      using assms(5) by (auto simp: blocked_def)
    let ?s = "s\<lparr>io_log := Rdtsc # io_log s\<rparr>"
    have "cursor_at ?s c" using assms(1) by (simp add: cursor_at_def)
    from skip_task_moves [OF this assms(2,3)] obtain q where q: "skip_task t ?s = Inr (?s\<lparr>queue := q, current_task := Some u\<rparr>)"
      "cursor_at (?s\<lparr>queue := q, current_task := Some u\<rparr>) (cyc_next c)" "cyc_order (cyc_next c) = u # us @ [t]"
      by blast
    have "find_task s = find_task (s\<lparr>io_log := [Rdtsc] @ io_log s, queue := q, current_task := Some u\<rparr>)"
      using run sl(1) sl(2) [of "io_log s"] q(1) by (subst find_task.simps) (simp add: rdtsc_def io_get_def io_do_def flip: not_less)
    with q show ?thesis by (intro exI [of _ q] exI [of _ "[Rdtsc]"]) (simp add: cursor_at_def)
  qed
qed

text \<open>The search goes on in the order of the queue to the first task that can run.\<close>

lemma find_task_in_order:
  assumes "cursor_at s c" "cyc_order c = ps @ t # qs" "distinct (cyc_order c)"
    and "\<And>p. p \<in> set ps \<Longrightarrow> \<exists>k. tasks s p = Some k \<and> blocked s k" "tasks s t = Some k" "runnable s k"
  shows "\<exists>es q c'. find_task s = Some (Inr (s\<lparr>io_log := es @ io_log s, queue := q, current_task := Some t,
      tasks := (tasks s)(t \<mapsto> k\<lparr>status := Running\<rparr>)\<rparr>)) \<and> tl_rep q c' \<and> cyc_order c' = t # qs @ ps"
  using assms
proof (induction ps arbitrary: s c qs)
  case Nil
  then have cur: "current_task s = Some t" by (auto simp: cursor_at_def cyc_order_hd)
  obtain es where "find_task s = Some (Inr (s\<lparr>io_log := es @ io_log s, tasks := (tasks s)(t \<mapsto> k\<lparr>status := Running\<rparr>)\<rparr>))"
    using find_task_runnable [OF cur Nil.prems(5,6)] by blast
  then have "find_task s = Some (Inr (s\<lparr>io_log := es @ io_log s, queue := queue s, current_task := Some t,
      tasks := (tasks s)(t \<mapsto> k\<lparr>status := Running\<rparr>)\<rparr>))"
    unfolding same_current [OF cur] .
  moreover have "tl_rep (queue s) c" using Nil.prems(1) by (simp add: cursor_at_def)
  moreover have "cyc_order c = t # qs @ []" using Nil.prems(2) by simp
  ultimately show ?case by blast
next
  case (Cons p ps)
  obtain u us where u: "ps @ t # qs = u # us" by (cases ps) auto
  have ord: "cyc_order c = p # u # us" using Cons.prems(2) u by simp
  have "p \<noteq> u" using Cons.prems(3) unfolding ord by simp
  moreover obtain kp where "tasks s p = Some kp" "blocked s kp" using Cons.prems(4) by auto
  ultimately obtain q es where step:
    "find_task s = find_task (s\<lparr>io_log := es @ io_log s, queue := q, current_task := Some u\<rparr>)"
    "cursor_at (s\<lparr>io_log := es @ io_log s, queue := q, current_task := Some u\<rparr>) (cyc_next c)"
    "cyc_order (cyc_next c) = u # us @ [p]"
    using find_task_blocked [OF Cons.prems(1) ord] by blast
  let ?s = "s\<lparr>io_log := es @ io_log s, queue := q, current_task := Some u\<rparr>"
  have same: "device ?s = device s" "tasks ?s = tasks s" by simp_all
  have order: "cyc_order (cyc_next c) = ps @ t # (qs @ [p])" using step(3) u by (metis append_Cons append_assoc)
  have "distinct (cyc_order (cyc_next c))" using Cons.prems(2,3) order by auto
  moreover have "\<exists>k. tasks ?s x = Some k \<and> blocked ?s k" if "x \<in> set ps" for x
    using Cons.prems(4) [of x] that by (simp add: blocked_def)
  moreover have "tasks ?s t = Some k" "runnable ?s k" using Cons.prems(5,6) by (simp_all add: runnable_def)
  ultimately obtain es' q' c' where
    "find_task ?s = Some (Inr (?s\<lparr>io_log := es' @ io_log ?s, queue := q', current_task := Some t,
      tasks := (tasks ?s)(t \<mapsto> k\<lparr>status := Running\<rparr>)\<rparr>))" "tl_rep q' c'" "cyc_order c' = t # (qs @ [p]) @ ps"
    using Cons.IH [OF step(2) order] by blast
  moreover from this(1) have "find_task s = Some (Inr (s\<lparr>io_log := (es' @ es) @ io_log s, queue := q',
      current_task := Some t, tasks := (tasks s)(t \<mapsto> k\<lparr>status := Running\<rparr>)\<rparr>))"
    using step(1) by simp
  moreover have "t # (qs @ [p]) @ ps = t # qs @ p # ps" by simp
  ultimately show ?case by metis
qed

section \<open>Switching\<close>

text \<open>Programming the timer only writes to its registers.\<close>

lemma lapic_stop_log: "\<exists>es. lapic_stop s = s\<lparr>io_log := es @ io_log s\<rparr>"
proof -
  have "lapic_stop s = s\<lparr>io_log := [Mmio_Write (apic_base_addr s + ucast (lapic_offset TimerLvt)) (push_bit 16 1)] @ io_log s\<rparr>"
    by (simp add: lapic_stop_def lapic_write_def mmio_write_def io_do_def)
  then show ?thesis by blast
qed

lemma lapic_resume_fields [simp]:
  "tasks (lapic_resume s) = tasks s" "queue (lapic_resume s) = queue s" "current_task (lapic_resume s) = current_task s"
  "cr3 (lapic_resume s) = cr3 s" "idle_task (lapic_resume s) = idle_task s" "device (lapic_resume s) = device s"
  by (simp_all add: lapic_resume_def lapic_write_def mmio_write_def io_do_def Let_def)

definition saved_tasks :: "registers \<Rightarrow> nat \<Rightarrow> task \<Rightarrow> 'a kernel_scheme \<Rightarrow> nat \<rightharpoonup> task" where
  "saved_tasks regs t0 k0 s = (if status k0 \<noteq> Ready then (tasks s)(t0 \<mapsto> k0\<lparr>t_context := regs\<rparr>) else tasks s)"

text \<open>Up to the search, \<open>schedule\<close> stops the timer, keeps the registers and moves the cursor.\<close>

lemma schedule_starts:
  assumes "tl_rep (queue s) c" "snd c \<noteq> []" "current_task s = Some t0" "tasks s t0 = Some k0"
  shows "\<exists>es q. cursor_at (s\<lparr>io_log := es @ io_log s, queue := q, current_task := Some (hd (snd (cyc_next c))),
        tasks := saved_tasks regs t0 k0 s\<rparr>) (cyc_next c) \<and>
    schedule regs s = and_then (and_then (terminating (find_task (s\<lparr>io_log := es @ io_log s, queue := q,
        current_task := Some (hd (snd (cyc_next c))), tasks := saved_tasks regs t0 k0 s\<rparr>))) id)
      (\<lambda>s. and_then (running_task s) (\<lambda>(t, k). Inr (t_context k, lapic_resume (switch_space (address_space k) s))))"
proof -
  obtain es where es: "lapic_stop s = s\<lparr>io_log := es @ io_log s\<rparr>" using lapic_stop_log by blast
  obtain q where q: "tl_next_task (queue s) = Some (Some (hd (snd (cyc_next c))), q)" "tl_rep q (cyc_next c)"
    using tl.next_rep [OF assms(1,2)] by blast
  have ne: "\<not> tl_is_empty (queue s)" using assms(1,2) by (simp add: tl_is_empty_rep)
  have T: "tasks (s\<lparr>io_log := l, tasks := tasks s\<rparr>) = tasks s" for l by simp
  let ?s = "s\<lparr>io_log := es @ io_log s\<rparr>"
  have "save_context regs ?s = Inr (?s\<lparr>tasks := saved_tasks regs t0 k0 s\<rparr>)"
    using ne assms(3,4)
    by (simp add: save_context_def running_task_def non_null_def live_def update_task_def saved_tasks_def)
  moreover have "advance_queue (?s\<lparr>tasks := saved_tasks regs t0 k0 s\<rparr>) =
      Inr (?s\<lparr>tasks := saved_tasks regs t0 k0 s, queue := q, current_task := Some (hd (snd (cyc_next c)))\<rparr>)"
    using ne q(1) by (simp add: advance_queue_def)
  moreover have "?s\<lparr>tasks := T, queue := q, current_task := t\<rparr> =
      s\<lparr>io_log := es @ io_log s, queue := q, current_task := t, tasks := T\<rparr>" for T t by simp
  ultimately show ?thesis
    using ne q(2) cyc_next_nonempty [OF assms(2)]
    by (intro exI [of _ es] exI [of _ q]) (simp add: schedule_def es Let_def cursor_at_def)
qed

lemma schedule_next:
  assumes "tl_rep (queue s) c" "snd c \<noteq> []" "distinct (cyc_order c)"
    and "current_task s = Some t0" "tasks s t0 = Some k0"
    and "rotate1 (cyc_order c) = ps @ t # qs"
    and "\<forall>p \<in> set ps. \<exists>k. saved_tasks regs t0 k0 s p = Some k \<and> blocked s k"
    and "saved_tasks regs t0 k0 s t = Some k" "runnable s k"
  shows "\<exists>s' c'. schedule regs s = Inr (t_context k, s') \<and> current_task s' = Some t \<and>
    tasks s' = (saved_tasks regs t0 k0 s)(t \<mapsto> k\<lparr>status := Running\<rparr>) \<and>
    cr3 s' = VIRT_TO_PHYS s (as_pml4 (spaces s (address_space k))) \<and>
    tl_rep (queue s') c' \<and> cyc_order c' = t # qs @ ps \<and> device s' = device s"
proof -
  let ?T = "saved_tasks regs t0 k0 s"
  obtain es q where at: "cursor_at (s\<lparr>io_log := es @ io_log s, queue := q, current_task := Some (hd (snd (cyc_next c))),
        tasks := ?T\<rparr>) (cyc_next c)"
    and sched: "schedule regs s = and_then (and_then (terminating (find_task (s\<lparr>io_log := es @ io_log s, queue := q,
        current_task := Some (hd (snd (cyc_next c))), tasks := ?T\<rparr>))) id)
      (\<lambda>s. and_then (running_task s) (\<lambda>(t, k). Inr (t_context k, lapic_resume (switch_space (address_space k) s))))"
    using schedule_starts [OF assms(1,2,4,5)] by blast
  let ?s = "s\<lparr>io_log := es @ io_log s, queue := q, current_task := Some (hd (snd (cyc_next c))), tasks := ?T\<rparr>"
  have order: "cyc_order (cyc_next c) = ps @ t # qs" using next_order [OF assms(1)] assms(6) by simp
  have "distinct (cyc_order (cyc_next c))" using next_order [OF assms(1)] assms(3) by simp
  moreover have "\<exists>k. tasks ?s p = Some k \<and> blocked ?s k" if "p \<in> set ps" for p
    using assms(7) that by (auto simp: blocked_def)
  moreover have "tasks ?s t = Some k" "runnable ?s k" using assms(8,9) by (simp_all add: runnable_def)
  ultimately obtain es' q' c' where found:
    "find_task ?s = Some (Inr (?s\<lparr>io_log := es' @ io_log ?s, queue := q', current_task := Some t,
      tasks := (tasks ?s)(t \<mapsto> k\<lparr>status := Running\<rparr>)\<rparr>))" "tl_rep q' c'" "cyc_order c' = t # qs @ ps"
    using find_task_in_order [OF at order] by blast
  let ?s' = "?s\<lparr>io_log := es' @ io_log ?s, queue := q', current_task := Some t,
      tasks := (tasks ?s)(t \<mapsto> k\<lparr>status := Running\<rparr>)\<rparr>"
  have "running_task ?s' = Inr (t, k\<lparr>status := Running\<rparr>)" by (simp add: running_task_def non_null_def live_def)
  then have "schedule regs s = Inr (t_context k, lapic_resume (switch_space (address_space k) ?s'))"
    unfolding sched found(1) by (simp add: terminating_def)
  then show ?thesis
    using found(2,3) by (intro exI [of _ "lapic_resume (switch_space (address_space k) ?s')"] exI [of _ c'])
      (simp add: switch_space_def VIRT_TO_PHYS_def)
qed

section \<open>A sample kernel\<close>

text \<open>A kernel with two tasks in its queue and an idle task.\<close>

definition two_tasks :: task_list where
  "two_tasks = \<lparr>tl_nodes = [16 \<mapsto> \<lparr>tl_task = 1, tl_prev = 0, tl_next = 8\<rparr>, 8 \<mapsto> \<lparr>tl_task = 2, tl_prev = 16, tl_next = 0\<rparr>],
     tl_front = 16, tl_current = 8\<rparr>"

lemma two_tasks_rep: "tl_rep two_tasks ([1], [2])"
  by (rule tl_repI [of _ "[(16, 1)]" "[(8, 2)]"]) (simp_all add: two_tasks_def tl_links_def)

definition sample_task :: "u64 \<Rightarrow> status \<Rightarrow> task" where
  "sample_task p st = \<lparr>pid = p, status = st, address_space = 0, t_context = zero_registers\<lparr>iret_rip := p\<rparr>, task_name = [],
     tsc_sleep = 0, events = rb_new (replicate 5 \<lparr>ev_key = 0, ev_ascii = 0, ev_pressed = False\<rparr>), handles = dll_empty,
     socket_handles = dll_empty, next_id = 3, futexes = dll_empty, heap_cur = 0, working_dir = [0x2f], working_dir_size = 8\<rparr>"

definition sample_vfs :: vfs where
  "sample_vfs = \<lparr>nodes = Map.empty, fds = Map.empty, next_object = 0, root_mountpoint = None, next_inode = 0,
     vfs_stdin = 0, vfs_stdout = 0, vfs_stderr = 0, fresh_bytes = (\<lambda>_. 0), fresh_buckets = (\<lambda>_. []), after_empty = (\<lambda>_. 1), key_events = [], screen = []\<rparr>"

definition sample_kernel :: "status \<Rightarrow> status \<Rightarrow> kernel" where
  "sample_kernel st1 st2 = apic.extend (bus.extend (vmm.extend vmm_sample (bus.fields [] (\<lambda>_. 0))) (apic.fields 0 0)) (kernel.fields sample_vfs
     [0 \<mapsto> sample_task 0 Running, 1 \<mapsto> sample_task 1 st1, 2 \<mapsto> sample_task 2 st2] 3 32 3 (Some 2) (Some 0) two_tasks
     dll_empty \<lparr>locked = False, restore_interrupts = False\<rparr> 0 0 0)"

lemma sample_kernel_simps [simp]:
  "queue (sample_kernel a b) = two_tasks" "current_task (sample_kernel a b) = Some 2" "idle_task (sample_kernel a b) = Some 0"
  "tasks (sample_kernel a b) = [0 \<mapsto> sample_task 0 Running, 1 \<mapsto> sample_task 1 a, 2 \<mapsto> sample_task 2 b]"
  "device (sample_kernel a b) = (\<lambda>_. 0)"
  by (simp_all add: sample_kernel_def vmm.defs bus.defs apic.defs kernel.defs)

lemma sample_task_simps [simp]: "status (sample_task p st) = st" "t_context (sample_task p st) = zero_registers\<lparr>iret_rip := p\<rparr>"
  by (simp_all add: sample_task_def)

section \<open>Properties\<close>

text \<open>
  C6: \<open>schedule\<close> keeps the registers of the task that was running, unless it is ready, and
  gives the processor to the first task that can run in the order of the queue, with the
  registers and the address space of that task, which is now running and under the cursor;
  nothing else of any task changes and no task leaves the queue.
\<close>

theorem schedule_round_robin:
  assumes "tl_rep (queue s) c" "snd c \<noteq> []" "distinct (cyc_order c)"
    and "current_task s = Some t0" "tasks s t0 = Some k0"
    and "rotate1 (cyc_order c) = ps @ t # qs"
    and "\<forall>p \<in> set ps. \<exists>k. saved_tasks regs t0 k0 s p = Some k \<and> blocked s k"
    and "saved_tasks regs t0 k0 s t = Some k" "runnable s k"
  shows "\<exists>s' c'. schedule regs s = Inr (t_context k, s') \<and> current_task s' = Some t \<and>
    tasks s' = (saved_tasks regs t0 k0 s)(t \<mapsto> k\<lparr>status := Running\<rparr>) \<and>
    cr3 s' = VIRT_TO_PHYS s (as_pml4 (spaces s (address_space k))) \<and>
    tl_rep (queue s') c' \<and> cyc_order c' = t # qs @ ps"
  using schedule_next [OF assms] by blast

theorem schedule_round_robin_witness:
  "\<exists>s'. schedule zero_registers (sample_kernel Ready Running) = Inr (zero_registers\<lparr>iret_rip := 1\<rparr>, s') \<and> current_task s' = Some 1"
  using schedule_round_robin [of "sample_kernel Ready Running" "([1], [2])" 2 "sample_task 2 Running" "[]" 1 "[2]"
      zero_registers "sample_task 1 Ready"] two_tasks_rep
  by (simp add: cyc_order_def saved_tasks_def runnable_def) blast

text \<open>Tasks that all wait for input, at least two of them, keep the search going round for ever.\<close>

lemma find_task_endless:
  assumes "find_task s = Some r"
  shows "\<not> (\<exists>c. cursor_at s c \<and> 2 \<le> length (cyc_order c) \<and> distinct (cyc_order c) \<and>
    (\<forall>t \<in> set (cyc_order c). \<exists>k. tasks s t = Some k \<and> status k = WaitingIo))"
  using assms
proof (rule find_task.raw_induct [where P = "\<lambda>s r. \<not> (\<exists>c. cursor_at s c \<and> 2 \<le> length (cyc_order c) \<and>
    distinct (cyc_order c) \<and> (\<forall>t \<in> set (cyc_order c). \<exists>k. tasks s t = Some k \<and> status k = WaitingIo))", rotated])
  fix f :: "'a kernel_scheme \<Rightarrow> (fault + 'a kernel_scheme) option" and s :: "'a kernel_scheme" and r
  assume IH: "\<And>s r. f s = Some r \<Longrightarrow> \<not> (\<exists>c. cursor_at s c \<and> 2 \<le> length (cyc_order c) \<and>
      distinct (cyc_order c) \<and> (\<forall>t \<in> set (cyc_order c). \<exists>k. tasks s t = Some k \<and> status k = WaitingIo))"
    and eq: "(case running_task s of Inl e \<Rightarrow> Some (Inl e)
      | Inr (t, k) \<Rightarrow>
        (case status k of
           Ready \<Rightarrow> Some (Inr (set_status t Running s))
         | Running \<Rightarrow> Some (Inr s)
         | Sleeping \<Rightarrow>
             (case rdtsc s of (now, s) \<Rightarrow>
               if now \<ge> tsc_sleep k then f (set_status t Running s)
               else (case skip_task t s of Inl e \<Rightarrow> Some (Inl e) | Inr s \<Rightarrow> f s))
         | WaitingIo \<Rightarrow> (case skip_task t s of Inl e \<Rightarrow> Some (Inl e) | Inr s \<Rightarrow> f s))) = Some r"
  show "\<not> (\<exists>c. cursor_at s c \<and> 2 \<le> length (cyc_order c) \<and> distinct (cyc_order c) \<and>
      (\<forall>t \<in> set (cyc_order c). \<exists>k. tasks s t = Some k \<and> status k = WaitingIo))"
  proof clarify
    fix c assume c: "cursor_at s c" "2 \<le> length (cyc_order c)" "distinct (cyc_order c)"
      "\<forall>t \<in> set (cyc_order c). \<exists>k. tasks s t = Some k \<and> status k = WaitingIo"
    then obtain t u us where order: "cyc_order c = t # u # us"
      by (cases "cyc_order c"; cases "tl (cyc_order c)") auto
    then have "t \<noteq> u" using c(3) by auto
    from skip_task_moves [OF c(1) order this] obtain q where
      q: "skip_task t s = Inr (s\<lparr>queue := q, current_task := Some u\<rparr>)"
        "cursor_at (s\<lparr>queue := q, current_task := Some u\<rparr>) (cyc_next c)" "cyc_order (cyc_next c) = u # us @ [t]" by blast
    have "current_task s = Some t" using c(1) order by (auto simp: cursor_at_def cyc_order_hd)
    moreover obtain k where "tasks s t = Some k" "status k = WaitingIo" using c(4) order by auto
    ultimately have "f (s\<lparr>queue := q, current_task := Some u\<rparr>) = Some r"
      using eq q(1) by (simp add: running_task_eq)
    moreover have "\<forall>x \<in> set (cyc_order (cyc_next c)). \<exists>k. tasks (s\<lparr>queue := q, current_task := Some u\<rparr>) x = Some k \<and>
        status k = WaitingIo" using c(4) unfolding order q(3) by simp
    moreover have "distinct (cyc_order (cyc_next c))" "2 \<le> length (cyc_order (cyc_next c))"
      using c(3) unfolding order q(3) by auto
    ultimately show False using IH q(2) by blast
  qed
qed

text \<open>
  C36: When every task in the queue waits for input, a queue of one task gives the processor
  to the idle task, but with two or more tasks \<open>schedule\<close> never returns: it walks round the
  queue with interrupts off, so no input can arrive.
\<close>

theorem schedule_all_waiting:
  assumes "tl_rep (queue s) c" "snd c \<noteq> []" "distinct (cyc_order c)"
    and "current_task s = Some t0" "tasks s t0 = Some k0"
    and "\<forall>t \<in> set (cyc_order c). \<exists>k. tasks s t = Some k \<and> status k = WaitingIo"
  shows "(2 \<le> length (cyc_order c) \<longrightarrow> schedule regs s = Inl Endless) \<and>
    (\<forall>i k. length (cyc_order c) = 1 \<and> idle_task s = Some i \<and> tasks s i = Some k \<and> status k = Running \<and> i \<noteq> t0 \<longrightarrow>
      (\<exists>s'. schedule regs s = Inr (t_context k, s') \<and> current_task s' = Some i))"
proof -
  let ?T = "saved_tasks regs t0 k0 s"
  obtain es q where at: "cursor_at (s\<lparr>io_log := es @ io_log s, queue := q, current_task := Some (hd (snd (cyc_next c))),
        tasks := ?T\<rparr>) (cyc_next c)"
    and sched: "schedule regs s = and_then (and_then (terminating (find_task (s\<lparr>io_log := es @ io_log s, queue := q,
        current_task := Some (hd (snd (cyc_next c))), tasks := ?T\<rparr>))) id)
      (\<lambda>s. and_then (running_task s) (\<lambda>(t, k). Inr (t_context k, lapic_resume (switch_space (address_space k) s))))"
    using schedule_starts [OF assms(1,2,4,5)] by blast
  let ?s = "s\<lparr>io_log := es @ io_log s, queue := q, current_task := Some (hd (snd (cyc_next c))), tasks := ?T\<rparr>"
  have order: "cyc_order (cyc_next c) = rotate1 (cyc_order c)" by (rule next_order [OF assms(1)])
  have waiting: "\<forall>t \<in> set (cyc_order (cyc_next c)). \<exists>k. tasks ?s t = Some k \<and> status k = WaitingIo"
  proof
    fix t assume "t \<in> set (cyc_order (cyc_next c))"
    then obtain k where k: "tasks s t = Some k" "status k = WaitingIo" using assms(6) order by auto
    then show "\<exists>k. tasks ?s t = Some k \<and> status k = WaitingIo"
      using assms(5) by (cases "t = t0") (auto simp: saved_tasks_def)
  qed
  have "schedule regs s = Inl Endless" if "2 \<le> length (cyc_order c)"
  proof -
    have "2 \<le> length (cyc_order (cyc_next c))" "distinct (cyc_order (cyc_next c))" using that assms(3) by (simp_all add: order)
    then have "find_task ?s = None" using find_task_endless at waiting by (metis (no_types, lifting) option.exhaust)
    then show ?thesis unfolding sched by (simp add: terminating_def)
  qed
  moreover have "\<exists>s'. schedule regs s = Inr (t_context k, s') \<and> current_task s' = Some i"
    if one: "length (cyc_order c) = 1" and i: "idle_task s = Some i" "tasks s i = Some k" "status k = Running" "i \<noteq> t0" for i k
  proof -
    obtain t where t: "cyc_order (cyc_next c) = [t]" using one order by (cases "cyc_order c") auto
    have cur: "current_task ?s = Some t" using at t by (auto simp: cursor_at_def cyc_order_hd)
    obtain kt where kt: "tasks ?s t = Some kt" "status kt = WaitingIo" using waiting t by auto
    obtain q' where "skip_task t ?s = Inr (?s\<lparr>queue := q', current_task := idle_task ?s\<rparr>)"
      using skip_task_alone [OF at t] by blast
    then have "find_task ?s = find_task (?s\<lparr>queue := q', current_task := idle_task ?s\<rparr>)"
      using running_task_eq [OF cur kt(1)] kt(2) by (subst find_task.simps) simp
    moreover have ik: "running_task (?s\<lparr>queue := q', current_task := idle_task ?s\<rparr>) = Inr (i, k)"
      using i by (simp add: running_task_def non_null_def live_def saved_tasks_def)
    then have "find_task (?s\<lparr>queue := q', current_task := idle_task ?s\<rparr>) =
        Some (Inr (?s\<lparr>queue := q', current_task := idle_task ?s\<rparr>))"
      using i(3) by (subst find_task.simps) simp
    ultimately show ?thesis unfolding sched using ik i(1) by (simp add: terminating_def switch_space_def)
  qed
  ultimately show ?thesis by blast
qed

theorem schedule_all_waiting_witness:
  "schedule zero_registers (sample_kernel WaitingIo WaitingIo) = Inl Endless"
  using schedule_all_waiting [of "sample_kernel WaitingIo WaitingIo" "([1], [2])" 2 "sample_task 2 WaitingIo" zero_registers]
    two_tasks_rep
  by (simp add: cyc_order_def)

text \<open>A task that ends while others are queued: the scheduler touches it after it was freed.\<close>

lemma schedule_deleted_task:
  assumes "current_task s = Some t" "tasks s t = None" "\<not> tl_is_empty (queue s)"
  shows "schedule regs s = Inl Use_After_Free"
proof -
  obtain es where es: "lapic_stop s = s\<lparr>io_log := es @ io_log s\<rparr>" using lapic_stop_log by blast
  show ?thesis using assms
    by (simp add: schedule_def es Let_def save_context_def running_task_def non_null_def live_def)
qed

end
