(* ===== verification/Scheduler_Turns.thy ===== *)
theory Scheduler_Turns
  imports Scheduler_Spec
begin

text \<open>
  Turns: what a sequence of timer interrupts does to a set of tasks. Every task that can run gets the
  processor in turn, with the registers it was interrupted with.
\<close>

section \<open>Sequences of timer interrupts\<close>

text \<open>
  The registers of the running task at each interrupt are given; the results are the task
  that runs after each one, and the registers it gets.
\<close>

fun timer_interrupts ::
  "registers list \<Rightarrow> 'a kernel_scheme \<Rightarrow> fault + ((nat option \<times> registers) list \<times> 'a kernel_scheme)" where
  "timer_interrupts [] s = Inr ([], s)"
| "timer_interrupts (r # rs) s =
     and_then (schedule r s) (\<lambda>(regs, s1). and_then (timer_interrupts rs s1) (\<lambda>(ts, s2).
       Inr ((current_task s1, regs) # ts, s2)))"

definition can_run :: "'a kernel_scheme \<Rightarrow> nat \<Rightarrow> bool" where
  "can_run s t \<longleftrightarrow> (case tasks s t of None \<Rightarrow> False | Some k \<Rightarrow> runnable s k)"

definition cannot_run :: "'a kernel_scheme \<Rightarrow> nat \<Rightarrow> bool" where
  "cannot_run s t \<longleftrightarrow> (case tasks s t of None \<Rightarrow> False | Some k \<Rightarrow> blocked s k)"

definition saved_registers :: "'a kernel_scheme \<Rightarrow> nat \<Rightarrow> registers" where
  "saved_registers s t = (case tasks s t of None \<Rightarrow> zero_registers | Some k \<Rightarrow> t_context k)"

text \<open>The tasks that can run, in the order of their turns; the first of them is running.\<close>

definition turns :: "'a kernel_scheme \<Rightarrow> cyclic \<Rightarrow> nat list" where
  "turns s c = filter (can_run s) (cyc_order c)"

definition in_turn :: "'a kernel_scheme \<Rightarrow> cyclic \<Rightarrow> bool" where
  "in_turn s c \<longleftrightarrow> cursor_at s c \<and> distinct (cyc_order c) \<and> (\<forall>t \<in> set (cyc_order c). can_run s t \<or> cannot_run s t) \<and>
     (\<exists>t k. current_task s = Some t \<and> tasks s t = Some k \<and> status k = Running)"

lemma split_first:
  assumes "x \<in> set xs" "P x"
  obtains ps y qs where "xs = ps @ y # qs" "P y" "\<forall>p \<in> set ps. \<not> P p"
  using split_list_first_prop [of xs P] assms by blast

text \<open>One interrupt: the next turn.\<close>

lemma next_turn:
  assumes "in_turn s c"
  shows "\<exists>s' c' u. schedule r s = Inr (saved_registers s' u, s') \<and> current_task s' = Some u \<and> in_turn s' c' \<and>
    turns s' c' = rotate1 (turns s c) \<and> u = hd (turns s' c') \<and> 
    (\<forall>t. saved_registers s' t = (if t = hd (turns s c) then r else saved_registers s t))"
proof -
  obtain t0 k0 where cur: "current_task s = Some t0" "tasks s t0 = Some k0" "status k0 = Running"
    using assms by (auto simp: in_turn_def)
  have c: "tl_rep (queue s) c" "snd c \<noteq> []" "distinct (cyc_order c)" and hd0: "t0 = hd (snd c)"
    using assms cur(1) by (auto simp: in_turn_def cursor_at_def)
  obtain us where order: "cyc_order c = t0 # us" using cyc_order_hd [OF c(2)] hd0 by blast
  let ?T = "saved_tasks r t0 k0 s"
  have T: "?T = (tasks s)(t0 \<mapsto> k0\<lparr>t_context := r\<rparr>)" using cur(3) by (simp add: saved_tasks_def)
  have run0: "can_run s t0" using cur(2,3) by (simp add: can_run_def runnable_def)
  obtain ps u qs where split: "us @ [t0] = ps @ u # qs" "can_run s u" "\<forall>p \<in> set ps. \<not> can_run s p"
    by (rule split_first [of t0 "us @ [t0]" "can_run s"]) (use run0 in auto)
  have set_eq: "set (ps @ u # qs) = set (cyc_order c)" using split(1) order by (metis rotate1.simps(2) set_rotate1)
  obtain k where k: "?T u = Some k" "runnable s k"
    using split(2) by (cases "u = t0") (auto simp: T can_run_def runnable_def cur(2) split: option.splits)
  have "\<exists>k. ?T p = Some k \<and> blocked s k" if "p \<in> set ps" for p
  proof -
    have "cannot_run s p" using assms set_eq split(3) that unfolding in_turn_def by auto
    moreover have "p \<noteq> t0" using split(3) run0 that by auto
    ultimately show ?thesis by (auto simp: T cannot_run_def split: option.splits)
  qed
  then obtain s' c' where s': "schedule r s = Inr (t_context k, s')" "current_task s' = Some u"
    "tasks s' = ?T(u \<mapsto> k\<lparr>status := Running\<rparr>)" "tl_rep (queue s') c'" "cyc_order c' = u # qs @ ps" "device s' = device s"
    using schedule_next [OF c cur(1,2) _ _ k, of ps qs] order split(1) by auto
  have runs: "can_run s' = can_run s"
    using k cur by (auto simp: fun_eq_iff can_run_def s'(3,6) T runnable_def split: option.splits if_splits)
  have stays: "cannot_run s' t" if "cannot_run s t" "\<not> can_run s t" for t
    using that k cur by (auto simp: can_run_def cannot_run_def s'(3,6) T runnable_def blocked_def split: option.splits if_splits)
  have "turns s' c' = u # filter (can_run s) qs"
    using split(2,3) by (simp add: turns_def s'(5) runs filter_empty_conv)
  also have "\<dots> = filter (can_run s) (us @ [t0])" using split by (simp add: filter_empty_conv)
  also have "\<dots> = rotate1 (turns s c)" using run0 by (simp add: turns_def order)
  finally have turn: "turns s' c' = rotate1 (turns s c)" .
  have "snd c' \<noteq> []" using tl.rep_ok [OF s'(4)] s'(5) by (auto simp: cyc_ok_def cyc_order_def)
  then have "cursor_at s' c'" using s'(2,4,5) by (simp add: cursor_at_def cyc_order_hd)
  moreover have "distinct (us @ [t0])" using c(3) order by auto
  then have "distinct (cyc_order c')" unfolding split(1) s'(5) by auto
  ultimately have "in_turn s' c'"
    using assms set_eq runs stays s'(2,3,5) unfolding in_turn_def by auto
  moreover have "saved_registers s' t = (if t = hd (turns s c) then r else saved_registers s t)" for t
    using k(1) run0 by (auto simp: saved_registers_def s'(3) T turns_def order)
  moreover have "saved_registers s' u = t_context k" by (simp add: saved_registers_def s'(3))
  moreover have "u = hd (turns s' c')" by (simp add: turns_def s'(5) runs split(2))
  ultimately show ?thesis
    using s'(1,2) turn by (intro exI [of _ s'] exI [of _ c'] exI [of _ u]) simp
qed


lemma turns_distinct:
  assumes "in_turn s c"
  shows "turns s c \<noteq> []" and "distinct (turns s c)"
proof -
  obtain t k where t: "current_task s = Some t" "tasks s t = Some k" "status k = Running" "snd c \<noteq> []"
    "t = hd (snd c)" "distinct (cyc_order c)"
    using assms by (auto simp: in_turn_def cursor_at_def)
  then have "t \<in> set (turns s c)" by (simp add: turns_def can_run_def runnable_def cyc_order_hd)
  then show "turns s c \<noteq> []" by auto
  show "distinct (turns s c)" using t(6) by (simp add: turns_def)
qed

text \<open>Rounds: the \<open>i\<close>-th interrupt of a sequence leads to the task \<open>i + 1\<close> places on.\<close>

lemma interrupts_in_turn:
  assumes "in_turn s c"
  shows "\<exists>s' c'. timer_interrupts rs s = Inr (map (\<lambda>i. (Some (turns s c ! (Suc i mod length (turns s c))),
      if Suc i < length (turns s c) then saved_registers s (turns s c ! Suc i) else rs ! (Suc i - length (turns s c))))
      [0..<length rs], s') \<and> in_turn s' c' \<and> turns s' c' = rotate (length rs) (turns s c)"
  using assms
proof (induction rs arbitrary: s c)
  case Nil
  then show ?case by (intro exI [of _ s] exI [of _ c]) simp
next
  case (Cons r rs)
  obtain s1 c1 u where step: "schedule r s = Inr (saved_registers s1 u, s1)" "current_task s1 = Some u" "in_turn s1 c1"
    "turns s1 c1 = rotate1 (turns s c)" "u = hd (turns s1 c1)"
    "\<And>t. saved_registers s1 t = (if t = hd (turns s c) then r else saved_registers s t)"
    using next_turn [OF Cons.prems] by blast
  let ?T = "turns s c" and ?n = "length (turns s c)"
  have n: "0 < ?n" "?T \<noteq> []" "distinct ?T" using turns_distinct [OF Cons.prems] by auto
  define f where "f = (\<lambda>i. (Some (?T ! (Suc i mod ?n)),
      if Suc i < ?n then saved_registers s (?T ! Suc i) else (r # rs) ! (Suc i - ?n)))"
  obtain s2 c2 where rest: "timer_interrupts rs s1 = Inr (map (\<lambda>i. (Some (turns s1 c1 ! (Suc i mod length (turns s1 c1))),
      if Suc i < length (turns s1 c1) then saved_registers s1 (turns s1 c1 ! Suc i) else rs ! (Suc i - length (turns s1 c1))))
      [0..<length rs], s2)" "in_turn s2 c2" "turns s2 c2 = rotate (length rs) (turns s1 c1)"
    using Cons.IH [OF step(3)] by blast
  have nth: "turns s1 c1 ! i = ?T ! (Suc i mod ?n)" if "i < ?n" for i
    using that by (simp add: step(4) nth_rotate1)
  have regs: "saved_registers s1 (?T ! i) = (if i = 0 then r else saved_registers s (?T ! i))" if "i < ?n" for i
    using that n by (auto simp: step(6) hd_conv_nth nth_eq_iff_index_eq)
  have later: "(Some (turns s1 c1 ! (Suc i mod length (turns s1 c1))),
      if Suc i < length (turns s1 c1) then saved_registers s1 (turns s1 c1 ! Suc i) else rs ! (Suc i - length (turns s1 c1))) =
      f (Suc i)" for i
  proof -
    have len: "length (turns s1 c1) = ?n" by (simp add: step(4))
    consider "Suc (Suc i) < ?n" | "Suc (Suc i) = ?n" | "?n \<le> Suc i" by linarith
    then show ?thesis
      unfolding len f_def by cases (use n nth [of "Suc i mod ?n"] nth [of "Suc i"] regs [of 0] regs [of "Suc (Suc i)"] in
        \<open>auto simp: mod_Suc_eq Suc_diff_le\<close>)
  qed
  have first: "(Some u, saved_registers s1 u) = f 0"
  proof -
    have "u = ?T ! (1 mod ?n)" using n nth [of 0] by (simp add: step(5) hd_conv_nth step(4))
    moreover consider "?n = 1" | "1 < ?n" using n(1) by linarith
    ultimately show ?thesis unfolding f_def by cases (use n regs [of 0] regs [of 1] in auto)
  qed
  have "timer_interrupts (r # rs) s = Inr (f 0 # map (\<lambda>i. f (Suc i)) [0..<length rs], s2)"
    unfolding first [symmetric] using step(1,2) rest(1) by (simp only: timer_interrupts.simps later) simp
  also have "f 0 # map (\<lambda>i. f (Suc i)) [0..<length rs] = map f [0..<length (r # rs)]"
    by (simp add: upt_conv_Cons map_Suc_upt [symmetric] comp_def del: upt_Suc)
  finally have "timer_interrupts (r # rs) s = Inr (map f [0..<length (r # rs)], s2)" .
  moreover have "turns s2 c2 = rotate (length (r # rs)) ?T"
    using rest(3) step(4) by (simp add: rotate1_rotate_swap)
  ultimately show ?case using rest(2) unfolding f_def by blast
qed

section \<open>Properties\<close>

text \<open>
  C7: However long the timer goes on interrupting tasks that do not give up the processor, no
  call of \<open>schedule\<close> faults or fails to return, and the tasks of the queue that can run take turns in the
  order of the queue: of \<open>n\<close> of them each runs again after \<open>n\<close> interrupts, with exactly the registers it
  was interrupted with (at first those saved for it), whatever the others had in theirs. Tasks that wait or sleep in
  between are passed over.
\<close>

theorem timer_interrupts_fair:
  assumes "cursor_at s c" and "distinct (cyc_order c)" and "\<forall>t \<in> set (cyc_order c). can_run s t \<or> cannot_run s t"
    and "current_task s = Some t" and "tasks s t = Some k" and "status k = Running"
  shows "\<exists>s'. timer_interrupts rs s =
    Inr (map (\<lambda>i. (Some (turns s c ! (Suc i mod length (turns s c))),
        if Suc i < length (turns s c) then saved_registers s (turns s c ! Suc i) else rs ! (Suc i - length (turns s c))))
      [0..<length rs], s')"
proof -
  have "in_turn s c" using assms by (simp add: in_turn_def)
  then show ?thesis using interrupts_in_turn by blast
qed

theorem timer_interrupts_fair_witness:
  "\<exists>s'. timer_interrupts [zero_registers\<lparr>rax := 1\<rparr>, zero_registers\<lparr>rax := 2\<rparr>, zero_registers\<lparr>rax := 3\<rparr>] (sample_kernel Ready Running) =
    Inr ([(Some 1, zero_registers\<lparr>iret_rip := 1\<rparr>), (Some 2, zero_registers\<lparr>rax := 1\<rparr>), (Some 1, zero_registers\<lparr>rax := 2\<rparr>)], s')"
proof -
  let ?s = "sample_kernel Ready Running"
  have "turns ?s ([1], [2]) = [2, 1]" by (simp add: turns_def cyc_order_def can_run_def runnable_def)
  then show ?thesis
    using timer_interrupts_fair [of ?s "([1], [2])" 2 "sample_task 2 Running"
        "[zero_registers\<lparr>rax := 1\<rparr>, zero_registers\<lparr>rax := 2\<rparr>, zero_registers\<lparr>rax := 3\<rparr>]"] two_tasks_rep
    by (simp add: cursor_at_def cyc_order_def can_run_def runnable_def saved_registers_def upt_rec mod_Suc)
qed

end
