(* ===== verification/Terminal.thy ===== *)
theory Terminal
  imports Format Faults
begin

text \<open>
  The text terminal (\<open>src/kernel/terminal.cpp\<close>, \<open>terminal.hpp\<close>): formatting, colours, the
  cursor, drawing the glyphs of a PSF font into the frame buffer, and scrolling. The frame
  buffer is a function from pixel numbers to colours, the font the bytes of its file.
\<close>

section \<open>State\<close>

record psf_font =
  font_bytes :: "u64 \<Rightarrow> u8"
  bytesperglyph :: u32
  font_height :: u32
  font_width :: u32

record terminal =
  font :: psf_font
  cursor_y :: u8
  cursor_x :: u8
  fb_address :: "u64 option"
  fb_width :: u64
  fb_height :: u64
  pixels :: "u64 \<Rightarrow> u32"

text \<open>The frame buffer of the boot loader, null before \<open>init\<close>, and the font that is linked in.\<close>

definition terminal_init :: "psf_font \<Rightarrow> u64 \<Rightarrow> u64 \<Rightarrow> u64 \<Rightarrow> terminal \<Rightarrow> terminal" where
  "terminal_init psf address width height t =
     t\<lparr>fb_address := Some address, fb_width := width, fb_height := height, font := psf\<rparr>"

definition get_framebuffer :: "terminal \<Rightarrow> u64" where
  "get_framebuffer t = (case fb_address t of None \<Rightarrow> 0 | Some a \<Rightarrow> a)"

definition get_width :: "terminal \<Rightarrow> u64" where
  "get_width t = fb_width t"

definition get_height :: "terminal \<Rightarrow> u64" where
  "get_height t = fb_height t"

text \<open>Blue is the lowest byte.\<close>

definition Rgb :: "u8 \<Rightarrow> u8 \<Rightarrow> u8 \<Rightarrow> u32" where
  "Rgb red green blue = ucast blue OR push_bit 8 (ucast green) OR push_bit 16 (ucast red)"

definition GREEN :: u32 where
  "GREEN = Rgb 22 198 12"

definition RED :: u32 where
  "RED = Rgb 231 72 86"

definition WHITE :: u32 where
  "WHITE = Rgb 242 242 242"

definition YELLOW :: u32 where
  "YELLOW = Rgb 249 241 165"

definition COLOR_MAX_LENGTH :: nat where
  "COLOR_MAX_LENGTH = 16"

section \<open>Formatting\<close>

text \<open>
  An argument of \<open>printf\<close> as \<open>va_arg\<close> reads it. Nothing is written for a specifier that is not
  known; reading more arguments than there are is undefined.
\<close>

datatype fmt_arg = Number u64 | Str "u8 list"

fun vsprintf :: "u8 list \<Rightarrow> bool \<Rightarrow> fmt_arg list \<Rightarrow> fault + u8 list" where
  "vsprintf [] spec args = Inr []"
| "vsprintf (c # cs) spec args =
     (if c = 0x25 then vsprintf cs True args
      else if \<not> spec then and_then (vsprintf cs False args) (\<lambda>out. Inr (c # out))
      else if c = 0x63 then
        (case args of Number w # args \<Rightarrow> and_then (vsprintf cs False args) (\<lambda>out. Inr (ucast w # out))
         | _ \<Rightarrow> Inl Out_Of_Bounds)
      else if c = 0x64 then
        (case args of Number w # args \<Rightarrow> and_then (vsprintf cs False args) (\<lambda>out. Inr (int_to_str (sint w) @ out))
         | _ \<Rightarrow> Inl Out_Of_Bounds)
      else if c = 0x73 then
        (case args of Str str # args \<Rightarrow> and_then (vsprintf cs False args) (\<lambda>out. Inr (str @ out))
         | _ \<Rightarrow> Inl Out_Of_Bounds)
      else if c = 0x78 then
        (case args of Number w # args \<Rightarrow> and_then (vsprintf cs False args) (\<lambda>out. Inr (uint_to_hex w @ out))
         | _ \<Rightarrow> Inl Out_Of_Bounds)
      else vsprintf cs False args)"

section \<open>Drawing\<close>

text \<open>A character is signed: those from 128 on index the font below its start.\<close>

definition glyph_byte :: "terminal \<Rightarrow> u8 \<Rightarrow> u32 \<Rightarrow> u8" where
  "glyph_byte t c i = font_bytes (font t) (ucast (32 + scast c * bytesperglyph (font t)) + ucast i)"

definition pixel_index :: "terminal \<Rightarrow> u64 \<Rightarrow> u64 \<Rightarrow> u32 \<Rightarrow> u32 \<Rightarrow> u32" where
  "pixel_index t cy cx i j =
     ucast (ucast (ucast cx * font_width (font t) + j) + fb_width t * ucast (i + ucast cy * font_height (font t)))"

definition pixel_color :: "terminal \<Rightarrow> u8 \<Rightarrow> u32 \<Rightarrow> u32 \<Rightarrow> u32 \<Rightarrow> u32 \<Rightarrow> u32" where
  "pixel_color t c i j fg bg =
     (if drop_bit (unat (font_width (font t) - j)) (ucast (glyph_byte t c i) :: u32) AND 1 \<noteq> 0 then fg else bg)"

definition put_char :: "u8 \<Rightarrow> u64 \<Rightarrow> u64 \<Rightarrow> u32 \<Rightarrow> u32 \<Rightarrow> terminal \<Rightarrow> terminal" where
  "put_char c cy cx fg bg t =
     fold (\<lambda>i. fold (\<lambda>j t. t\<lparr>pixels := (pixels t)(ucast (pixel_index t cy cx (of_nat i) (of_nat j)) :=
         pixel_color t c (of_nat i) (of_nat j) fg bg)\<rparr>) [0..<unat (font_width (font t))])
       [0..<unat (font_height (font t))] t"

definition clear_screen :: "terminal \<Rightarrow> terminal" where
  "clear_screen t = t\<lparr>pixels := (\<lambda>p. if p < fb_height t * fb_width t then 0 else pixels t p)\<rparr>"

text \<open>The copy goes from lower to higher addresses and reads ahead of what it writes.\<close>

definition scroll :: "terminal \<Rightarrow> terminal" where
  "scroll t =
     (let line_size = ucast (fb_width t * 4) :: u32;
          buffer_size = ucast ((fb_height t - 1) * ucast line_size) :: u32;
          distance = fb_width t * ucast (font_height (font t))
      in t\<lparr>pixels := (\<lambda>p. if p < ucast buffer_size div 4 then pixels t (p + distance) else pixels t p)\<rparr>)"

section \<open>Writing text\<close>

text \<open>\<open>strcmp\<close> on strings, which does not look at the first characters.\<close>

definition strcmp_str :: "u8 list \<Rightarrow> u8 list \<Rightarrow> bool" where
  "strcmp_str first second = (case first of [] \<Rightarrow> True | _ # cs \<Rightarrow> cs = tl second)"

definition color_of :: "u8 list \<Rightarrow> u32 option" where
  "color_of code =
     (if strcmp_str code [0x72, 0x65, 0x64] then Some RED
      else if strcmp_str code [0x67, 0x72, 0x65, 0x65, 0x6e] then Some GREEN
      else if strcmp_str code [0x77, 0x68, 0x69, 0x74, 0x65] then Some WHITE
      else if strcmp_str code [0x79, 0x65, 0x6c, 0x6c, 0x6f, 0x77] then Some YELLOW
      else None)"

text \<open>One visible character at the position \<open>(y, x)\<close>, and the position after it.\<close>

definition put_at :: "u8 \<Rightarrow> u32 \<Rightarrow> u32 \<Rightarrow> u64 \<times> u64 \<times> terminal \<Rightarrow> u64 \<times> u64 \<times> terminal" where
  "put_at c fg bg yxt =
     (let (y, x, t) = yxt;
          (y, x) = (if x \<ge> fb_width t div ucast (font_width (font t)) then (y + 1, 0) else (y, x));
          (y, t) = (if y \<ge> fb_height t div ucast (font_height (font t)) then (y - 1, scroll t) else (y, t))
      in (y, x + 1, put_char c y x fg bg t))"

text \<open>
  The rest of the string, the number of characters before it, and the limit, \<open>- 1\<close> for none. A
  colour code is collected in a buffer of \<open>COLOR_MAX_LENGTH\<close> bytes, with no regard to the
  limit, and has to leave room for its null byte. The number of characters is an \<open>int\<close> of 32 bits in
  the code; it is unbounded here, so the model stands for strings of fewer than \<open>2 ^ 31\<close> characters.
\<close>

function puts_loop :: "u8 list \<Rightarrow> int \<Rightarrow> int \<Rightarrow> u32 \<Rightarrow> u32 \<Rightarrow> u64 \<times> u64 \<times> terminal \<Rightarrow> fault + (u64 \<times> u64 \<times> terminal)" where
  "puts_loop str i limit color bg yxt =
     (case str of [] \<Rightarrow> Inr yxt
      | c # cs \<Rightarrow>
        if c = 0 \<or> i = limit then Inr yxt
        else if c = 0x0a then puts_loop cs (i + 1) limit color bg (fst yxt + 1, 0, snd (snd yxt))
        else if c = 0x7b then
          let code = takeWhile (\<lambda>c. c \<noteq> 0x7d) cs
          in if length code = length cs \<or> COLOR_MAX_LENGTH \<le> length code then Inl Out_Of_Bounds
             else (case color_of (takeWhile (\<lambda>c. c \<noteq> 0) code) of
                 Some color \<Rightarrow> puts_loop (drop (length code + 1) cs) (i + int (length code) + 2) limit color bg yxt
               | None \<Rightarrow> puts_loop cs (i + 1) limit color bg (put_at c color bg yxt))
        else puts_loop cs (i + 1) limit color bg (put_at c color bg yxt))"
  by pat_completeness auto
termination
  by (relation "measure (\<lambda>(str, _). length str)") auto

declare puts_loop.simps [simp del]

definition puts :: "u8 list \<Rightarrow> int \<Rightarrow> u32 \<Rightarrow> u32 \<Rightarrow> terminal \<Rightarrow> fault + terminal" where
  "puts str limit fg bg t =
     and_then (puts_loop str 0 limit fg bg (ucast (cursor_y t), ucast (cursor_x t), t))
       (\<lambda>(y, x, t). Inr (t\<lparr>cursor_y := ucast y, cursor_x := ucast x\<rparr>))"

text \<open>The text of \<open>printf\<close>, built in a buffer of 1024 bytes that was cleared.\<close>

definition printf_text :: "u8 list \<Rightarrow> fmt_arg list \<Rightarrow> fault + u8 list" where
  "printf_text format args =
     and_then (vsprintf format False args) (\<lambda>text. if 1024 \<le> length text then Inl Out_Of_Bounds else Inr text)"

end
