(* ===== verification/Packets.thy ===== *)
theory Packets
  imports Prelude
begin

text \<open>
  The bytes of network packets (\<open>src/kernel/net/socket.hpp\<close>) and their checksum
  (\<open>Socket::get_checksum\<close> in \<open>socket.cpp\<close>). A packet is a list of bytes; the structures laid
  over it are loads and stores at the offsets of their fields, in the byte order of the machine,
  and a field in network order goes through \<open>bswap16\<close>.
\<close>

section \<open>Fields\<close>

definition bswap16 :: "u16 \<Rightarrow> u16" where
  "bswap16 w = push_bit 8 w OR drop_bit 8 w"

definition le16 :: "u8 \<Rightarrow> u8 \<Rightarrow> u16" where
  "le16 a b = ucast a OR push_bit 8 (ucast b)"

definition bytes16 :: "u16 \<Rightarrow> u8 list" where
  "bytes16 w = [ucast w, ucast (drop_bit 8 w)]"

definition load16 :: "u8 list \<Rightarrow> nat \<Rightarrow> u16" where
  "load16 d i = le16 (d ! i) (d ! (i + 1))"

definition bytes32 :: "u32 \<Rightarrow> u8 list" where
  "bytes32 w = [ucast w, ucast (drop_bit 8 w), ucast (drop_bit 16 w), ucast (drop_bit 24 w)]"

definition load32 :: "u8 list \<Rightarrow> nat \<Rightarrow> u32" where
  "load32 d i = ucast (d ! i) OR push_bit 8 (ucast (d ! (i + 1))) OR push_bit 16 (ucast (d ! (i + 2)))
     OR push_bit 24 (ucast (d ! (i + 3)))"

lemma le16_bytes16 [simp]: "le16 (ucast w) (ucast (drop_bit 8 w)) = w"
  unfolding le16_def by (rule bit_word_eqI) (auto simp: bit_simps)

lemma load16_bytes16: "load16 (bytes16 w) 0 = w"
  by (simp add: load16_def bytes16_def)

lemma load32_bytes32: "load32 (bytes32 w) 0 = w"
proof -
  have "bit (ucast (ucast w :: u8) OR push_bit 8 (ucast (ucast (drop_bit 8 w) :: u8)) OR
      push_bit 16 (ucast (ucast (drop_bit 16 w) :: u8)) OR push_bit 24 (ucast (ucast (drop_bit 24 w) :: u8)) :: u32) n \<longleftrightarrow> bit w n"
    if "n < 32" for n
  proof -
    consider "n < 8" | "8 \<le> n" "n < 16" | "16 \<le> n" "n < 24" | "24 \<le> n" by linarith
    then show ?thesis using that by cases (auto simp: bit_simps)
  qed
  then show ?thesis unfolding load32_def bytes32_def by (intro bit_word_eqI) simp
qed

lemma bswap16_bswap16 [simp]: "bswap16 (bswap16 w) = w"
  unfolding bswap16_def by (rule bit_word_eqI) (auto simp: bit_simps)

lemma load16_at: "i = length xs \<Longrightarrow> load16 (xs @ bytes16 w @ ys) i = w"
  by (simp add: load16_def bytes16_def nth_append)

lemma load32_at: "i = length xs \<Longrightarrow> load32 (xs @ bytes32 w @ ys) i = w"
  using load32_bytes32 [of w] by (simp add: load32_def bytes32_def nth_append)

section \<open>The checksum\<close>

text \<open>The words are added pairwise; a last single byte is left out.\<close>

fun checksum_words :: "u8 list \<Rightarrow> u32 \<Rightarrow> u32" where
  "checksum_words (a # b # bs) checksum = checksum_words bs (checksum + ucast (le16 a b))"
| "checksum_words _ checksum = checksum"

definition get_checksum :: "u8 list \<Rightarrow> u16" where
  "get_checksum data =
     (let checksum = checksum_words data 0;
          checksum = (checksum AND 0xffff) + drop_bit 16 checksum;
          checksum = (if checksum > 0xffff then checksum + 1 else checksum)
      in ucast (NOT checksum))"

section \<open>Addition of ones' complement\<close>

text \<open>The sum the checksum of the internet protocols is defined by: the carry is added at the end.\<close>

definition oc_add :: "u16 \<Rightarrow> u16 \<Rightarrow> u16" where
  "oc_add a b = (if unat a + unat b < 2 ^ 16 then a + b else a + b + 1)"

text \<open>The words of the data; the standard pads a last single byte with zero.\<close>

fun words16 :: "u8 list \<Rightarrow> u16 list" where
  "words16 (a # b # bs) = le16 a b # words16 bs"
| "words16 [a] = [le16 a 0]"
| "words16 [] = []"

definition oc_sum :: "u16 list \<Rightarrow> u16" where
  "oc_sum ws = foldl oc_add 0 ws"

text \<open>The value of a sum \<open>n\<close> of numbers.\<close>

definition oc_of :: "nat \<Rightarrow> nat" where
  "oc_of n = (if n = 0 then 0 else 1 + (n - 1) mod 65535)"

lemma oc_of_eqI:
  assumes "c = 0 \<longleftrightarrow> n = 0" "c \<le> 65535" "c mod 65535 = n mod 65535"
  shows "c = oc_of n"
proof (cases "n = 0")
  case False
  then obtain c' n' where c: "c = Suc c'" "n = Suc n'" using assms(1) by (metis not0_implies_Suc)
  then have "c' mod 65535 = n' mod 65535" using assms(3) by (simp add: mod_Suc split: if_splits)
  then show ?thesis using c assms(2) by (simp add: oc_of_def)
qed (use assms in \<open>simp add: oc_of_def\<close>)

lemma oc_of_props: "oc_of n = 0 \<longleftrightarrow> n = 0" "oc_of n \<le> 65535" "oc_of n mod 65535 = n mod 65535"
proof -
  have "(n - 1) mod 65535 < 65535" by simp
  then have "1 + (n - 1) mod 65535 \<le> 65535" by linarith
  then show "oc_of n \<le> 65535" by (simp add: oc_of_def)
  show "oc_of n mod 65535 = n mod 65535" by (cases n) (simp_all add: oc_of_def mod_Suc_eq)
qed (simp add: oc_of_def)

lemma unat_oc_add: "unat (oc_add a b) = (if unat a + unat b < 65536 then unat a + unat b else unat a + unat b - 65535)"
proof (cases "unat a + unat b < 65536")
  case True
  then show ?thesis by (simp add: oc_add_def unat_word_ariths)
next
  case False
  have "unat a < 65536" "unat b < 65536" using unsigned_less [of a, where 'a = nat] unsigned_less [of b, where 'a = nat] by simp_all
  then have "(unat a + unat b) mod 65536 = unat a + unat b - 65536" using False by (simp add: le_mod_geq)
  then show ?thesis
    using False \<open>unat a < 65536\<close> \<open>unat b < 65536\<close>
    by (simp add: oc_add_def unat_word_ariths mod_Suc Suc_diff_le [symmetric])
qed

lemma oc_add_of: "unat a = oc_of n \<Longrightarrow> unat (oc_add a b) = oc_of (n + unat b)"
proof (rule oc_of_eqI)
  assume a: "unat a = oc_of n"
  have b: "unat b < 65536" using unsigned_less [of b, where 'a = nat] by simp
  note n = oc_of_props [of n]
  show "unat (oc_add a b) = 0 \<longleftrightarrow> n + unat b = 0" using n by (auto simp: unat_oc_add a)
  show "unat (oc_add a b) \<le> 65535"
    using unsigned_less [of "oc_add a b", where 'a = nat] by simp
  have "(oc_of n + unat b) mod 65535 = (n + unat b) mod 65535" using n(3) by (metis mod_add_left_eq)
  then show "unat (oc_add a b) mod 65535 = (n + unat b) mod 65535" by (auto simp: unat_oc_add a le_mod_geq)
qed

definition total :: "u16 list \<Rightarrow> nat" where
  "total ws = sum_list (map unat ws)"

lemma foldl_oc_add: "unat a = oc_of n \<Longrightarrow> unat (foldl oc_add a ws) = oc_of (n + total ws)"
proof (induction ws arbitrary: a n)
  case (Cons w ws)
  from Cons.IH [OF oc_add_of [OF Cons.prems]] show ?case by (simp add: total_def add.assoc)
qed (simp add: total_def)

lemma unat_oc_sum: "unat (oc_sum ws) = oc_of (total ws)"
  using foldl_oc_add [of 0 0 ws] by (simp add: oc_sum_def oc_of_def)

lemma total_le: "total ws \<le> length ws * 65535"
proof (induction ws)
  case (Cons w ws)
  then show ?case using unsigned_less [of w, where 'a = nat] by (simp add: total_def)
qed (simp add: total_def)

lemma length_words16: "length (words16 d) = (length d + 1) div 2"
  by (induction d rule: words16.induct) auto

lemma checksum_words_odd: "odd (length d) \<Longrightarrow> checksum_words d acc = checksum_words (butlast d) acc"
  by (induction d acc rule: checksum_words.induct) (auto simp: neq_Nil_conv)

lemma unat_checksum_words:
  "even (length d) \<Longrightarrow> unat acc + total (words16 d) < 2 ^ 32 \<Longrightarrow>
     unat (checksum_words d acc) = unat acc + total (words16 d)"
proof (induction d acc rule: checksum_words.induct)
  case (1 a b bs acc)
  have u: "unat (ucast (le16 a b) :: u32) = unat (le16 a b)"
    using unsigned_less [of "le16 a b", where 'a = nat] by (simp add: unsigned_ucast_eq take_bit_nat_eq_self)
  then have "unat (acc + ucast (le16 a b)) = unat acc + unat (le16 a b)"
    using 1(3) by (simp add: unat_word_ariths total_def)
  then show ?case using 1 by (simp add: total_def)
qed (simp_all add: total_def)

text \<open>The two steps that fold the carries of a sum of up to 65537 words.\<close>

lemma folded_carries:
  fixes c :: u32
  defines "d \<equiv> (c AND 0xffff) + drop_bit 16 c"
  shows "unat (ucast (if d > 0xffff then d + 1 else d) :: u16) = oc_of (unat c)"
proof (rule oc_of_eqI)
  let ?S = "unat c"
  have S: "?S < 4294967296" using unsigned_less [of c, where 'a = nat] by simp
  have low: "unat (c AND 0xffff) = ?S mod 65536"
  proof -
    have "c AND 0xffff = take_bit 16 c" by (simp add: take_bit_eq_mask mask_eq_exp_minus_1)
    then have "unat (c AND 0xffff) = take_bit 16 (unat c)" by (simp only: unsigned_take_bit_eq)
    then show ?thesis by (simp add: take_bit_eq_mod)
  qed
  have high: "unat (drop_bit 16 c) = ?S div 65536" by (simp only: unat_drop_bit_eq) (simp add: drop_bit_eq_div)
  have le: "?S mod 65536 \<le> 65535" "?S div 65536 \<le> 65535" using S by (simp_all add: less_Suc_eq_le [symmetric] div_less_iff_less_mult)
  then have d: "unat d = ?S mod 65536 + ?S div 65536" by (simp add: d_def unat_word_ariths low high)
  have split: "?S = 65536 * (?S div 65536) + ?S mod 65536" by simp
  have u: "unat (ucast (if d > 0xffff then d + 1 else d) :: u16) =
      (if unat d > 65535 then unat d - 65535 else unat d)"
  proof (cases "unat d > 65535")
    case True
    then have "unat (d + 1) = unat d + 1" using d le by (simp add: unat_word_ariths)
    moreover have "(unat d + 1) mod 65536 = unat d - 65535"
    proof -
      have "(unat d + 1) mod 65536 = (unat d + 1 - 65536) mod 65536" by (rule le_mod_geq) (use True in simp)
      also have "\<dots> = unat d + 1 - 65536" by (rule mod_less) (use d le in linarith)
      finally show ?thesis by simp
    qed
    ultimately show ?thesis using True by (simp add: word_less_nat_alt unsigned_ucast_eq take_bit_eq_mod)
  next
    case False
    then show ?thesis by (simp add: word_less_nat_alt unsigned_ucast_eq take_bit_eq_mod)
  qed
  show "unat (ucast (if d > 0xffff then d + 1 else d) :: u16) = 0 \<longleftrightarrow> ?S = 0"
    unfolding u using d split by auto
  show "unat (ucast (if d > 0xffff then d + 1 else d) :: u16) \<le> 65535"
    unfolding u using d le by auto
  have "65536 * (?S div 65536) + ?S mod 65536 = ?S mod 65536 + ?S div 65536 + ?S div 65536 * 65535" by simp
  then have "?S = unat d + ?S div 65536 * 65535" unfolding d by simp
  then have "?S mod 65535 = unat d mod 65535" by (metis mod_mult_self1)
  then show "unat (ucast (if d > 0xffff then d + 1 else d) :: u16) mod 65535 = ?S mod 65535"
    unfolding u by (simp add: le_mod_geq)
qed

lemma ucast_NOT_u16: "ucast (NOT (c :: u32)) = (NOT (ucast c) :: u16)"
  by (rule bit_word_eqI) (auto simp: bit_simps)

lemma get_checksum_oc:
  assumes "length data < 2 ^ 17" "even (length data)"
  shows "get_checksum data = NOT (oc_sum (words16 data))"
proof -
  have "length (words16 data) * 65535 < 2 ^ 32" using assms(1) by (simp add: length_words16)
  then have "total (words16 data) < 2 ^ 32" using total_le [of "words16 data"] by linarith
  then have "unat (checksum_words data 0) = total (words16 data)" by (subst unat_checksum_words) (simp_all add: assms(2))
  with folded_carries [of "checksum_words data 0"]
  have "ucast (let d = (checksum_words data 0 AND 0xffff) + drop_bit 16 (checksum_words data 0)
      in if d > 0xffff then d + 1 else d) = oc_sum (words16 data)"
    by (simp add: word_unat_eq_iff unat_oc_sum Let_def)
  then show ?thesis by (simp add: get_checksum_def Let_def ucast_NOT_u16)
qed

lemma get_checksum_odd: "odd (length data) \<Longrightarrow> get_checksum data = get_checksum (butlast data)"
  by (simp add: get_checksum_def checksum_words_odd)

lemma total_append [simp]: "total (xs @ ys) = total xs + total ys"
  by (simp add: total_def)

lemma words16_append: "even (length xs) \<Longrightarrow> words16 (xs @ ys) = words16 xs @ words16 ys"
  by (induction xs rule: words16.induct) auto

lemma oc_sum_complement:
  assumes "total ws' = total ws + unat (NOT (oc_sum ws))"
  shows "oc_sum ws' = 0xffff"
proof -
  let ?S = "total ws"
  have "NOT (oc_sum ws) = - 1 - oc_sum ws" by (simp add: not_eq_complement)
  then have "unat (NOT (oc_sum ws)) = unat (- 1 :: u16) - unat (oc_sum ws)"
    by (simp only: unat_sub word_order.extremum)
  then have "unat (NOT (oc_sum ws)) = 65535 - oc_of ?S"
    by (simp add: unat_oc_sum unsigned_minus_1_eq_mask mask_eq_exp_minus_1)
  then have t: "total ws' = ?S + (65535 - oc_of ?S)" using assms by simp
  have "65535 = oc_of (?S + (65535 - oc_of ?S))"
  proof (rule oc_of_eqI)
    note o = oc_of_props [of ?S]
    show "(65535 :: nat) = 0 \<longleftrightarrow> ?S + (65535 - oc_of ?S) = 0" using o by auto
    have "(?S + (65535 - oc_of ?S)) mod 65535 = (oc_of ?S + (65535 - oc_of ?S)) mod 65535"
      using o(3) by (metis mod_add_left_eq)
    also have "\<dots> = 0" using o(2) by simp
    finally show "65535 mod 65535 = (?S + (65535 - oc_of ?S)) mod 65535" by simp
  qed simp
  then show ?thesis by (simp add: word_unat_eq_iff unat_oc_sum t)
qed

text \<open>The checksum stored in a field that was zero.\<close>

lemma stored_checksum:
  assumes "length data < 2 ^ 17" "even i" "i + 1 < length data" "data ! i = 0" "data ! (i + 1) = 0" "even (length data)"
  shows "oc_sum (words16 (take i data @ bytes16 (get_checksum data) @ drop (i + 2) data)) = 0xffff"
proof -
  have "data = take i data @ [0, 0] @ drop (i + 2) data"
    using assms(3-5) by (metis Cons_nth_drop_Suc Suc_eq_plus1 Suc_lessD add_2_eq_Suc' append_Cons append_Nil append_take_drop_id)
  then have "total (words16 data) = total (words16 (take i data @ [0, 0] @ drop (i + 2) data))" by simp
  moreover have "even (length (take i data))" using assms(2,3) by simp
  ultimately have "total (words16 (take i data @ bytes16 (get_checksum data) @ drop (i + 2) data)) =
      total (words16 data) + unat (NOT (oc_sum (words16 data)))"
    using get_checksum_oc [OF assms(1,6)] by (simp add: words16_append bytes16_def total_def le16_def [of 0 0])
  then show ?thesis by (rule oc_sum_complement)
qed

text \<open>
  C23: the checksum of up to 131070 bytes, an even number of them, is the one of RFC 1071: the complement of the
  ones' complement sum of their 16-bit words; and when the checksum is stored in a field of the data that was
  zero, at an even offset, the sum over the data is all ones, which is how a receiver verifies it. Of an odd
  number of bytes the last one, which the RFC pads with zero, is left out of the sum.
\<close>

theorem checksum_rfc1071:
  assumes "length data < 2 ^ 17"
  shows "get_checksum data = NOT (oc_sum (words16 (if even (length data) then data else butlast data))) \<and>
    (even (length data) \<longrightarrow> (\<forall>i. even i \<and> i + 1 < length data \<and> data ! i = 0 \<and> data ! (i + 1) = 0 \<longrightarrow>
      oc_sum (words16 (take i data @ bytes16 (get_checksum data) @ drop (i + 2) data)) = 0xffff))"
proof (cases "even (length data)")
  case True
  then show ?thesis using get_checksum_oc [OF assms] stored_checksum [OF assms] by auto
next
  case False
  then show ?thesis using get_checksum_odd [of data] get_checksum_oc [of "butlast data"] assms by simp
qed

text \<open>A header, and an odd number of bytes whose checksum is not the standard's.\<close>

theorem checksum_rfc1071_witness:
  "oc_sum (words16 (take 2 [0x45, 0xff, 0, 0, 0x40, 1] @ bytes16 (get_checksum [0x45, 0xff, 0, 0, 0x40, 1]) @
     drop 4 [0x45, 0xff, 0, 0, 0x40, 1])) = 0xffff \<and>
   get_checksum [1, 2, 3] = NOT (oc_sum (words16 [1, 2])) \<and> get_checksum [1, 2, 3] \<noteq> NOT (oc_sum (words16 [1, 2, 3]))"
proof (intro conjI)
  define d :: "u8 list" where "d = [0x45, 0xff, 0, 0, 0x40, 1]"
  have d: "length d = 6" "d ! 2 = 0" "d ! 3 = 0" by (simp_all add: d_def)
  have "even (length d) \<longrightarrow> (\<forall>i. even i \<and> i + 1 < length d \<and> d ! i = 0 \<and> d ! (i + 1) = 0 \<longrightarrow>
      oc_sum (words16 (take i d @ bytes16 (get_checksum d) @ drop (i + 2) d)) = 0xffff)"
    by (rule conjunct2 [OF checksum_rfc1071]) (simp add: d(1))
  then have all: "\<forall>i. even i \<and> i + 1 < length d \<and> d ! i = 0 \<and> d ! (i + 1) = 0 \<longrightarrow>
      oc_sum (words16 (take i d @ bytes16 (get_checksum d) @ drop (i + 2) d)) = 0xffff"
    by (rule mp) (simp only: d(1), simp)
  have "even (2 :: nat) \<and> 2 + 1 < length d \<and> d ! 2 = 0 \<and> d ! (2 + 1) = 0" using d by simp
  from mp [OF spec [OF all] this]
  have "oc_sum (words16 (take 2 d @ bytes16 (get_checksum d) @ drop (2 + 2) d)) = 0xffff" .
  moreover have "(2 :: nat) + 2 = 4" by simp
  ultimately show "oc_sum (words16 (take 2 [0x45, 0xff, 0, 0, 0x40, 1] @ bytes16 (get_checksum [0x45, 0xff, 0, 0, 0x40, 1]) @
     drop 4 [0x45, 0xff, 0, 0, 0x40, 1])) = 0xffff" by (simp only: d_def)
  show odd: "get_checksum [1, 2, 3] = NOT (oc_sum (words16 [1, 2]))"
    using checksum_rfc1071 [of "[1, 2, 3]"] by simp
  have "oc_sum (words16 [1, 2]) \<noteq> oc_sum (words16 [1, 2, 3])" by (simp add: oc_sum_def oc_add_def le16_def)
  then show "get_checksum [1, 2, 3] \<noteq> NOT (oc_sum (words16 [1, 2, 3]))" unfolding odd by simp
qed

end
