(* ===== verification/System.thy ===== *)
theory System
  imports Scheduler Terminal Packets
begin

text \<open>
  The state of the running system: the kernel of theory \<open>Task\<close> with the terminal, the table of
  interrupt handlers, the keyboard and the network. It holds what most of the kernel uses:
  messages on the terminal, blocking until a condition holds, and the dispatch of interrupts
  (\<open>src/kernel/int.cpp\<close>) with the handlers of the timers (\<open>timer.cpp\<close>) and the keyboard.
\<close>

section \<open>State\<close>

text \<open>The functions of type \<open>irq_handler\<close> the kernel installs.\<close>

datatype irq = Pit_Irq | Lapic_Irq | Keyboard_Irq | Syscall_Irq | E1000_Irq

record udp_packet =
  up_src_ip :: u32
  up_src_port :: u16
  up_length :: u64
  up_data :: "u8 list"

text \<open>
  A socket is a \<open>UdpSocket\<close> with datagrams of its own or an \<open>IcmpSocket\<close>, whose packets are
  pointers into received frames: the address of a frame and an offset.
\<close>

datatype packet_queue = Udp_Packets "udp_packet ringbuffer" | Icmp_Packets "(nat \<times> nat) ringbuffer"

record socket =
  sk_id :: int
  sk_port :: u16
  sk_packets :: packet_queue
  sk_lock :: spinlock

text \<open>The one driver object. A frame in its cache is the address of its bytes.\<close>

record nic =
  mac_addr :: "u8 list"
  nic_cache :: "nat ringbuffer"
  nic_mmio :: u64
  tx_descriptors :: u64
  tx_tail :: u64
  rx_descriptors :: u64
  rx_tail :: u64

record system = kernel +
  terminal :: terminal
  terminal_lock :: spinlock
  irq_table :: "u64 \<Rightarrow> irq option"
  pit_ticks :: u64
  tsc_initial :: u64
  keys_down :: keyboard
  net_sockets :: "nat \<rightharpoonup> socket"
  next_socket :: nat
  udp_sockets :: "nat dll"
  icmp_sockets :: "nat dll"
  frames :: "nat \<rightharpoonup> u8 list"
  next_frame :: nat
  nic :: "nic option"
  cache_lock :: spinlock

text \<open>What a lock, a socket's or another one, is in the state.\<close>

definition packets_lock :: "nat \<Rightarrow> 'a system_scheme \<Rightarrow> spinlock" where
  "packets_lock a s = (case net_sockets s a of Some k \<Rightarrow> sk_lock k | None \<Rightarrow> \<lparr>locked = False, restore_interrupts = False\<rparr>)"

definition packets_lock_update :: "nat \<Rightarrow> (spinlock \<Rightarrow> spinlock) \<Rightarrow> 'a system_scheme \<Rightarrow> 'a system_scheme" where
  "packets_lock_update a f s = s\<lparr>net_sockets := (net_sockets s)(a := map_option (sk_lock_update f) (net_sockets s a))\<rparr>"

section \<open>Messages\<close>

definition printf :: "u8 list \<Rightarrow> fmt_arg list \<Rightarrow> 'a system_scheme \<Rightarrow> fault + 'a system_scheme" where
  "printf format args s =
     and_then (printf_text format args) (\<lambda>text.
       and_then (terminating (acquire terminal_lock terminal_lock_update s)) (\<lambda>s.
         and_then (puts text (- 1) WHITE (Rgb 0 0 0) (terminal s)) (\<lambda>t.
           Inr (release terminal_lock terminal_lock_update (s\<lparr>terminal := t\<rparr>)))))"

section \<open>Blocking\<close>

text \<open>
  \<open>interrupt\<close> stands for what happens between the timer interrupt that \<open>yield\<close> raises and the
  moment the calling task runs again.
\<close>

partial_function (option) block_on ::
  "(registers \<Rightarrow> 'a kernel_scheme \<Rightarrow> fault + (registers \<times> 'a kernel_scheme)) \<Rightarrow> ('a kernel_scheme \<Rightarrow> bool) \<Rightarrow>
   registers \<Rightarrow> 'a kernel_scheme \<Rightarrow> (fault + (registers \<times> 'a kernel_scheme)) option" where
  "block_on interrupt condition regs s =
     (if condition s then Some (Inr (regs, s))
      else case await_io interrupt regs s of Inl e \<Rightarrow> Some (Inl e)
        | Inr (regs, s) \<Rightarrow> block_on interrupt condition regs s)"

declare block_on.simps [code]

section \<open>Timers\<close>

text \<open>The boot loader's time is in seconds.\<close>

definition timer_init :: "u64 \<Rightarrow> 'a kernel_scheme \<Rightarrow> 'a kernel_scheme" where
  "timer_init boot_time s = s\<lparr>real_time := boot_time * 1000\<rparr>"

definition set_handler :: "u64 \<Rightarrow> irq \<Rightarrow> 'a system_scheme \<Rightarrow> 'a system_scheme" where
  "set_handler vect handler s = s\<lparr>irq_table := (irq_table s)(vect := Some handler)\<rparr>"

definition pit_handler :: "'a system_scheme \<Rightarrow> 'a system_scheme" where
  "pit_handler s =
     (let s = (if tsc_initial s = 0 then let (now, s) = rdtsc s in s\<lparr>tsc_initial := now\<rparr> else s);
          s = s\<lparr>pit_ticks := pit_ticks s + 1\<rparr>
      in if pit_ticks s = 100 then
           let (count, s) = lapic_read TimerCount s;
               time_elapsed = 0xffffffff - count;
               (now, s) = rdtsc s;
               cycles_elapsed = now - tsc_initial s;
               s = redirect_pin 0x14 TIMER_VECT 1 s;
               s = s\<lparr>apic_calibrated_ticks := time_elapsed div 100\<rparr>;
               s = lapic_write TimerInitCount (apic_calibrated_ticks s) s;
               s = s\<lparr>cycles_per_ms := ucast (cycles_elapsed div 100)\<rparr>;
               s = lapic_write TimerDivisor 0 s;
               s = lapic_write TimerLvt (ucast TIMER_VECT OR push_bit 17 1) s
           in set_handler (ucast TIMER_VECT) Lapic_Irq s
         else s)"

definition lapic_handler :: "registers \<Rightarrow> 'a kernel_scheme \<Rightarrow> fault + (registers \<times> 'a kernel_scheme)" where
  "lapic_handler regs s = schedule regs (s\<lparr>real_time := real_time s + 1\<rparr>)"

section \<open>The keyboard interrupt\<close>

definition keyboard_irq :: "'a system_scheme \<Rightarrow> fault + 'a system_scheme" where
  "keyboard_irq s =
     (let (scancode, s) = in_port8 0x60 s;
          (k, event) = kb_handler scancode (keys_down s);
          s = s\<lparr>keys_down := k\<rparr>
      in case event of None \<Rightarrow> Inr s | Some e \<Rightarrow> wake_io e s)"

section \<open>Dispatch\<close>

definition interrupt_init :: "'a system_scheme \<Rightarrow> 'a system_scheme" where
  "interrupt_init s =
     set_handler (ucast E1000_VECT) E1000_Irq (set_handler (ucast SYSCALL_VECT) Syscall_Irq
       (set_handler (ucast KEYBOARD_VECT) Keyboard_Irq (set_handler (ucast TIMER_VECT) Pit_Irq s)))"

text \<open>
  The handlers of the system calls and of the network card are arguments. The result is the
  registers the processor returns with.
\<close>

definition run_handler ::
  "(registers \<Rightarrow> 'a system_scheme \<Rightarrow> fault + (registers \<times> 'a system_scheme)) \<Rightarrow>
   ('a system_scheme \<Rightarrow> fault + 'a system_scheme) \<Rightarrow>
   irq \<Rightarrow> registers \<Rightarrow> 'a system_scheme \<Rightarrow> fault + (registers \<times> 'a system_scheme)" where
  "run_handler syscall e1000 i regs s =
     (case i of
        Pit_Irq \<Rightarrow> Inr (regs, pit_handler s)
      | Lapic_Irq \<Rightarrow> lapic_handler regs s
      | Keyboard_Irq \<Rightarrow> and_then (keyboard_irq s) (\<lambda>s. Inr (regs, s))
      | Syscall_Irq \<Rightarrow> syscall regs s
      | E1000_Irq \<Rightarrow> and_then (e1000 s) (\<lambda>s. Inr (regs, s)))"

definition int_dispatch ::
  "(registers \<Rightarrow> 'a system_scheme \<Rightarrow> fault + (registers \<times> 'a system_scheme)) \<Rightarrow>
   ('a system_scheme \<Rightarrow> fault + 'a system_scheme) \<Rightarrow>
   registers \<Rightarrow> 'a system_scheme \<Rightarrow> fault + (registers \<times> 'a system_scheme)" where
  "int_dispatch syscall e1000 regs s =
     and_then
       (if vect_num regs \<ge> 256 then Inl Out_Of_Bounds
        else case irq_table s (vect_num regs) of
          Some handler \<Rightarrow> run_handler syscall e1000 handler regs s
        | None \<Rightarrow> and_then (printf (lit ''Received interrupt %d!'' @ [0x0a]) [Number (vect_num regs)] s) (\<lambda>s. Inr (regs, s)))
       (\<lambda>(regs, s). Inr (regs, lapic_write Eoi 0 s))"

end
