(* ===== verification/Abi.thy ===== *)
theory Abi
  imports Prelude
begin

text \<open>
  The constants the system calls share with user programs. They are macros of the C library's
  headers (\<open>errno.h\<close>, \<open>fcntl.h\<close>, \<open>sys/socket.h\<close> and others), which the kernel only includes,
  so their values are an argument of the operations that use them.
\<close>

record abi =
  EBADF :: int
  EINVAL :: int
  ENOSYS :: int
  ENOTDIR :: int
  EAGAIN :: int
  EWOULDBLOCK :: int
  SEEK_SET :: int
  SEEK_CUR :: int
  SEEK_END :: int
  O_RDONLY :: int
  O_WRONLY :: int
  O_RDWR :: int
  O_DIRECTORY :: int
  O_NONBLOCK :: int
  AT_FDCWD :: int
  S_IFDIR :: u32
  S_IFREG :: u32
  DT_DIR :: u8
  DT_REG :: u8
  DIRENT_SIZE :: u64
  MAP_ANONYMOUS :: int
  MAP_SHARED :: int
  PROT_WRITE :: int
  PROT_EXEC :: int
  CLOCK_REALTIME :: int
  CLOCK_REALTIME_COARSE :: int
  CLOCK_BOOTTIME :: int
  CLOCK_MONOTONIC :: int
  CLOCK_MONOTONIC_RAW :: int
  CLOCK_MONOTONIC_COARSE :: int
  CLOCK_PROCESS_CPUTIME_ID :: int
  CLOCK_THREAD_CPUTIME_ID :: int
  PF_INET :: u16
  AF_UNIX :: int
  AF_INET :: int
  SOCK_STREAM :: int
  SOCK_DGRAM :: int
  SOCK_RAW :: int
  IPPROTO_UDP :: u8
  IPPROTO_ICMP :: u8
  MSG_DONTWAIT :: int
  SOCKADDR_IN_SIZE :: u64

text \<open>Conversions the calls make: a size to \<open>int\<close>, and back.\<close>

definition to_int32 :: "u64 \<Rightarrow> int" where
  "to_int32 w = sint (ucast w :: u32)"

definition wrap_int32 :: "int \<Rightarrow> int" where
  "wrap_int32 i = sint (word_of_int i :: u32)"

end
