(* ===== verification/File_Calls.thy ===== *)
theory File_Calls
  imports System Abi
begin

text \<open>
  The system calls on files (\<open>src/kernel/syscalls/fs.cpp\<close>), over the file system, the terminal
  and the current task. A pointer argument is what it points to; a pointer a call stores
  through is part of its result. \<open>interrupt\<close> stands for what happens while the caller waits
  for a key.
\<close>

section \<open>Strings\<close>

text \<open>The bytes the allocator provides for a request of \<open>n\<close>: the block of a slab, or whole pages.\<close>

definition usable :: "nat \<Rightarrow> nat" where
  "usable n =
     (if n \<le> 8 then 8 else if n \<le> 16 then 16 else if n \<le> 32 then 32 else if n \<le> 64 then 64
      else if n \<le> 128 then 128 else if n \<le> 256 then 256 else if n \<le> 512 then 512
      else (n + 4095) div 4096 * 4096)"

text \<open>A string with its allocation; \<open>append_string\<close> is \<open>strcat\<close> to it.\<close>

definition dup_string :: "u8 list \<Rightarrow> u8 list \<times> nat" where
  "dup_string cs = (cs, usable (length cs + 1))"

definition append_string :: "u8 list \<Rightarrow> u8 list \<times> nat \<Rightarrow> fault + (u8 list \<times> nat)" where
  "append_string src dest =
     (if length (fst dest) + length src + 1 \<le> snd dest then Inr (fst dest @ src, snd dest) else Inl Out_Of_Bounds)"

section \<open>Files and the terminal\<close>

text \<open>The next keyboard event of the task that asks, which waits until there is one.\<close>

definition next_event ::
  "(registers \<Rightarrow> 'a system_scheme \<Rightarrow> fault + (registers \<times> 'a system_scheme)) \<Rightarrow>
   registers \<Rightarrow> 'a system_scheme \<Rightarrow> fault + (keyboard_event \<times> registers \<times> 'a system_scheme)" where
  "next_event interrupt regs s =
     and_then (running_task s) (\<lambda>(t, _).
     and_then (and_then (terminating (block_on interrupt
         (\<lambda>s. case tasks s t of None \<Rightarrow> False | Some k \<Rightarrow> \<not> rb_is_empty (events k)) regs s)) id) (\<lambda>(regs, s).
     and_then (live (tasks s) t) (\<lambda>k.
       let (e, q) = rb_read 5 (events k)
       in and_then (non_null e) (\<lambda>e. Inr (e, regs, s\<lparr>tasks := (tasks s)(t \<mapsto> k\<lparr>events := q\<rparr>)\<rparr>)))))"

text \<open>
  The loop of \<open>Tty::read\<close>: \<open>read\<close> characters of \<open>len\<close> have been read. The result is the
  events it took; every character is echoed.
\<close>

partial_function (option) await_keys ::
  "(registers \<Rightarrow> 'a system_scheme \<Rightarrow> fault + (registers \<times> 'a system_scheme)) \<Rightarrow> u64 \<Rightarrow> nat \<Rightarrow>
   registers \<Rightarrow> 'a system_scheme \<Rightarrow> (fault + (keyboard_event list \<times> registers \<times> 'a system_scheme)) option" where
  "await_keys interrupt len read regs s =
     (if of_nat read = len then Some (Inr ([], regs, s))
      else case next_event interrupt regs s of Inl e \<Rightarrow> Some (Inl e)
        | Inr (e, regs, s) \<Rightarrow>
          (case (if ev_pressed e then printf [0x25, 0x63] [Number (ucast (ev_ascii e))] s else Inr s) of
             Inl f \<Rightarrow> Some (Inl f)
           | Inr s \<Rightarrow>
             if ev_pressed e \<and> ev_ascii e = 0x0a then Some (Inr ([e], regs, s))
             else do {
               r \<leftarrow> await_keys interrupt len (if ev_pressed e then read + 1 else read) regs s;
               Some (and_then r (\<lambda>(es, regs, s). Inr (e # es, regs, s))) }))"

declare await_keys.simps [code]

text \<open>
  \<open>Vfs::read\<close> on the system: a read that reaches the terminal first waits for the keys, which
  the file system then turns into the bytes.
\<close>

definition file_read ::
  "(registers \<Rightarrow> 'a system_scheme \<Rightarrow> fault + (registers \<times> 'a system_scheme)) \<Rightarrow> nat \<Rightarrow> u64 \<Rightarrow>
   registers \<Rightarrow> 'a system_scheme \<Rightarrow> fault + ((u64 \<times> u8 list) \<times> registers \<times> 'a system_scheme)" where
  "file_read interrupt d len regs s =
     and_then (deref (fds (files s)) d) (\<lambda>f. and_then (deref (nodes (files s)) (fd_node f)) (\<lambda>n.
       let waits = (rw_position f < file_size n \<and> fd_mode f \<noteq> WriteOnly \<and> n_type n \<noteq> Directory \<and> n_fs n = Tty)
       in and_then (if waits then and_then (terminating (await_keys interrupt len 0 regs s)) id else Inr ([], regs, s))
            (\<lambda>(es, regs, s). and_then (vfs_read (Some d) len ((files s)\<lparr>key_events := es\<rparr>)) (\<lambda>(bytes_read, data, v).
               Inr ((bytes_read, data), regs, s\<lparr>files := v\<lparr>screen := []\<rparr>\<rparr>)))))"

text \<open>\<open>Vfs::write\<close> on the system: what goes to the terminal is drawn.\<close>

definition file_write :: "nat \<Rightarrow> u8 list \<Rightarrow> u64 \<Rightarrow> 'a system_scheme \<Rightarrow> fault + (u64 \<times> 'a system_scheme)" where
  "file_write d buffer len s =
     and_then (vfs_write (Some d) buffer len (files s)) (\<lambda>(n, v).
     and_then (puts (screen v) (int (length (screen v))) WHITE (Rgb 0 0 0) (terminal s)) (\<lambda>t.
       Inr (n, s\<lparr>files := v\<lparr>screen := []\<rparr>, terminal := t\<rparr>)))"

section \<open>Calls\<close>

definition with_handle :: "int \<Rightarrow> 'a system_scheme \<Rightarrow> (nat option \<Rightarrow> fault + 'b) \<Rightarrow> fault + 'b" where
  "with_handle fd s f = and_then (running_task s) (\<lambda>(_, k). and_then (get_file_handle k fd s) f)"

definition sys_write :: "abi \<Rightarrow> int \<Rightarrow> u8 list \<Rightarrow> u64 \<Rightarrow> 'a system_scheme \<Rightarrow> fault + ((int \<times> int option) \<times> 'a system_scheme)" where
  "sys_write c fd buf count s =
     with_handle fd s (\<lambda>vfs_fd. case vfs_fd of None \<Rightarrow> Inr ((- EBADF c, None), s)
       | Some d \<Rightarrow> and_then (file_write d buf count s) (\<lambda>(n, s).
           let bytes = to_int32 n
           in if bytes = - 1 then Inr ((- EBADF c, None), s) else Inr ((0, Some bytes), s)))"

definition sys_read ::
  "abi \<Rightarrow> (registers \<Rightarrow> 'a system_scheme \<Rightarrow> fault + (registers \<times> 'a system_scheme)) \<Rightarrow> int \<Rightarrow> u64 \<Rightarrow>
   registers \<Rightarrow> 'a system_scheme \<Rightarrow> fault + ((int \<times> u8 list \<times> int option) \<times> registers \<times> 'a system_scheme)" where
  "sys_read c interrupt fd count regs s =
     with_handle fd s (\<lambda>vfs_fd. case vfs_fd of None \<Rightarrow> Inr ((- EBADF c, [], None), regs, s)
       | Some d \<Rightarrow> and_then (file_read interrupt d count regs s) (\<lambda>((n, data), regs, s).
           let bytes = to_int32 n
           in if bytes = - 1 then Inr ((- EBADF c, data, None), regs, s) else Inr ((0, data, Some bytes), regs, s)))"

definition sys_seek :: "abi \<Rightarrow> int \<Rightarrow> u64 \<Rightarrow> int \<Rightarrow> 'a system_scheme \<Rightarrow> fault + ((int \<times> u64 option) \<times> 'a system_scheme)" where
  "sys_seek c fd offset whence s =
     with_handle fd s (\<lambda>vfs_fd. case vfs_fd of
         None \<Rightarrow> and_then (printf (lit ''{red}Can'' @ [0x27] @ lit ''t find fd %d'' @ [0x0a]) [Number (word_of_int fd)] s)
           (\<lambda>s. Inr ((- EBADF c, None), s))
       | Some d \<Rightarrow>
         if whence = SEEK_SET c \<or> whence = SEEK_CUR c \<or> whence = SEEK_END c then
           let mode = (if whence = SEEK_SET c then Seek_Set else if whence = SEEK_CUR c then Seek_Current else Seek_End)
           in and_then (vfs_seek (Some d) offset mode (files s)) (\<lambda>v. and_then (deref (fds v) d) (\<lambda>f.
                Inr ((0, Some (rw_position f)), s\<lparr>files := v\<rparr>)))
         else and_then (printf (lit ''{red}Not supported whence %d'' @ [0x0a]) [Number (word_of_int whence)] s)
           (\<lambda>s. Inr ((- EINVAL c, None), s)))"

definition open_mode_of :: "abi \<Rightarrow> int \<Rightarrow> open_mode" where
  "open_mode_of c flags = (if flags = O_RDONLY c then ReadOnly else if flags = O_WRONLY c then WriteOnly else ReadWrite)"

text \<open>The number of a new descriptor, in the table of the current task.\<close>

definition install :: "nat \<Rightarrow> 'a system_scheme \<Rightarrow> fault + ((int \<times> int option) \<times> 'a system_scheme)" where
  "install d s =
     and_then (non_null (current_task s)) (\<lambda>t. and_then (add_file_handle t (Some d) s) (\<lambda>(i, s). Inr ((0, Some i), s)))"

definition sys_open :: "abi \<Rightarrow> u8 list \<Rightarrow> int \<Rightarrow> 'a system_scheme \<Rightarrow> fault + ((int \<times> int option) \<times> 'a system_scheme)" where
  "sys_open c path flags s =
     and_then (vfs_open path (open_mode_of c flags) (files s)) (\<lambda>(vfs_fd, v).
       let s = s\<lparr>files := v\<rparr>
       in case vfs_fd of None \<Rightarrow> Inr ((- EBADF c, None), s) | Some d \<Rightarrow> install d s)"

text \<open>The absolute path is built and then not used.\<close>

definition sys_openat :: "abi \<Rightarrow> int \<Rightarrow> u8 list \<Rightarrow> int \<Rightarrow> u32 \<Rightarrow> 'a system_scheme \<Rightarrow> fault + ((int \<times> int option) \<times> 'a system_scheme)"
where
  "sys_openat c dirfd path flags mode s =
     (if mode \<noteq> 0 then and_then (printf (lit ''{red}(openat) Mode not supported!'' @ [0x0a]) [] s) (\<lambda>s. Inr ((- ENOSYS c, None), s))
      else if dirfd \<noteq> AT_FDCWD c then
        and_then (printf (lit ''{red}(dirfd) Dirfd not supported!'' @ [0x0a]) [] s) (\<lambda>s. Inr ((- ENOSYS c, None), s))
      else and_then (running_task s) (\<lambda>(t, k).
        and_then (append_string path (dup_string (working_dir k))) (\<lambda>absolute_path.
        and_then (vfs_open path (open_mode_of c flags) (files s)) (\<lambda>(vfs_fd, v).
          let s = s\<lparr>files := v\<rparr>
          in case vfs_fd of None \<Rightarrow> Inr ((- EBADF c, None), s)
            | Some d \<Rightarrow> and_then (deref (fds v) d) (\<lambda>f. and_then (deref (nodes v) (fd_node f)) (\<lambda>n.
                if flags AND O_DIRECTORY c \<noteq> 0 \<and> n_type n \<noteq> Directory then Inr ((- ENOTDIR c, None), s)
                else install d s))))))"

definition sys_get_cwd :: "'a system_scheme \<Rightarrow> fault + (int \<times> u8 list)" where
  "sys_get_cwd s = and_then (running_task s) (\<lambda>(_, k). Inr (0, working_dir k))"

definition sys_close :: "abi \<Rightarrow> int \<Rightarrow> 'a system_scheme \<Rightarrow> fault + (int \<times> 'a system_scheme)" where
  "sys_close c fd s =
     and_then (running_task s) (\<lambda>(t, k). and_then (get_file_handle k fd s) (\<lambda>vfs_fd.
       case vfs_fd of None \<Rightarrow> Inr (- EBADF c, s)
       | Some d \<Rightarrow> and_then (pointing (dll_remove d (handles k))) (\<lambda>l.
           Inr (0, s\<lparr>tasks := (tasks s)(t \<mapsto> k\<lparr>handles := l\<rparr>), files := vfs_close (Some d) (files s)\<rparr>))))"

text \<open>
  The part of \<open>struct stat\<close> the call sets. Only the first bytes of the structure are cleared, as many as
  a pointer has: \<open>clear\<close> says what this does to the fields.
\<close>

record stat =
  st_mode :: u32
  st_size :: u64
  st_ino :: u64

definition sys_stat ::
  "abi \<Rightarrow> (stat \<Rightarrow> stat) \<Rightarrow> int \<Rightarrow> u8 list \<Rightarrow> stat \<Rightarrow> 'a system_scheme \<Rightarrow> fault + (int \<times> stat)" where
  "sys_stat c clear fd path statbuf s =
     and_then (running_task s) (\<lambda>(t, k).
     and_then
       (if fd \<noteq> AT_FDCWD c then
          and_then (get_file_handle k fd s) (\<lambda>handle. case handle of None \<Rightarrow> Inr None
            | Some d \<Rightarrow> and_then (deref (fds (files s)) d) (\<lambda>f. Inr (Some (Some (fd_node f)))))
        else and_then (append_string path (dup_string (working_dir k))) (\<lambda>(absolute_path, _).
          and_then (vfs_get_node absolute_path (files s)) (\<lambda>node. Inr (Some node))))
       (\<lambda>r. case r of None \<Rightarrow> Inr (- EBADF c, statbuf)
          | Some node \<Rightarrow> and_then (non_null node) (\<lambda>a. and_then (deref (nodes (files s)) a) (\<lambda>n.
              let st = clear statbuf
              in Inr (0, st\<lparr>st_mode := st_mode st OR (case n_type n of Directory \<Rightarrow> S_IFDIR c | File \<Rightarrow> S_IFREG c),
                   st_size := file_size n, st_ino := n_inode n\<rparr>)))))"

record dirent =
  d_name :: "u8 list"
  d_ino :: u64
  d_off :: u64
  d_reclen :: u64
  d_type :: u8

definition sys_read_entries :: "abi \<Rightarrow> int \<Rightarrow> 'a system_scheme \<Rightarrow> fault + ((int \<times> (dirent option \<times> u64) option) \<times> 'a system_scheme)"
where
  "sys_read_entries c fd s =
     with_handle fd s (\<lambda>handle. case handle of None \<Rightarrow> Inr ((- EBADF c, None), s)
       | Some d \<Rightarrow> and_then (deref (fds (files s)) d) (\<lambda>f. and_then (deref (nodes (files s)) (fd_node f)) (\<lambda>n.
           if n_type n \<noteq> Directory then Inr ((- ENOTDIR c, None), s)
           else and_then (non_null (n_children n)) (\<lambda>m.
             case hm_get_nth (unat (rw_position f)) m of
               None \<Rightarrow> Inr ((0, Some (None, 0)), s)
             | Some a \<Rightarrow> and_then (deref (nodes (files s)) a) (\<lambda>child.
                 Inr ((0, Some (Some \<lparr>d_name = n_name child, d_ino = n_inode child, d_off = 0, d_reclen = DIRENT_SIZE c,
                     d_type = (case n_type child of Directory \<Rightarrow> DT_DIR c | File \<Rightarrow> DT_REG c)\<rparr>, DIRENT_SIZE c)),
                   s\<lparr>files := (files s)\<lparr>fds := (fds (files s))(d \<mapsto> f\<lparr>rw_position := rw_position f + 1\<rparr>)\<rparr>\<rparr>))))))"

definition sys_chdir :: "u8 list \<Rightarrow> 'a system_scheme \<Rightarrow> fault + (int \<times> 'a system_scheme)" where
  "sys_chdir path s =
     and_then (running_task s) (\<lambda>(t, k).
     and_then
       (if path \<noteq> [] \<and> hd path = 0x2f then Inr (dup_string path)
        else and_then (append_string [0x2f] (working_dir k, working_dir_size k)) (append_string path))
       (\<lambda>(dir, sz). Inr (0, s\<lparr>tasks := (tasks s)(t \<mapsto> k\<lparr>working_dir := dir, working_dir_size := sz\<rparr>)\<rparr>)))"

definition sys_mkdir :: "u8 list \<Rightarrow> 'a system_scheme \<Rightarrow> fault + (int \<times> 'a system_scheme)" where
  "sys_mkdir path s = and_then (vfs_create path Directory (files s)) (\<lambda>(_, v). Inr (0, s\<lparr>files := v\<rparr>))"

end
