(* ===== verification/Calls.thy ===== *)
theory Calls
  imports File_Calls
begin

text \<open>
  The other system calls (\<open>mmap.cpp\<close>, \<open>futex.cpp\<close>, \<open>clock.cpp\<close>, \<open>gui.cpp\<close>, \<open>log.cpp\<close>,
  \<open>exit.cpp\<close>, \<open>tcb_set.cpp\<close> in \<open>src/kernel/syscalls\<close>), and the handler of the interrupt that
  dispatches them (\<open>handler.cpp\<close>).
\<close>

section \<open>Memory\<close>

text \<open>
  The flags are an \<open>int\<close>: of the page table flags only the lower 32 bits are left, and converting
  back to 64 bits extends the sign.
\<close>

definition int_flags :: "u64 \<Rightarrow> u64" where
  "int_flags flags = scast (ucast flags :: u32)"

definition mmap_flags :: "abi \<Rightarrow> int \<Rightarrow> u64" where
  "mmap_flags c prot =
     (let flags = int_flags (PTE_PRESENT OR PTE_USER);
          flags = (if prot AND PROT_WRITE c \<noteq> 0 then int_flags (flags OR PTE_WRITABLE) else flags)
      in if prot AND PROT_EXEC c = 0 then int_flags (flags OR PTE_NX) else flags)"

definition sys_mmap ::
  "abi \<Rightarrow> u64 \<Rightarrow> u64 \<Rightarrow> int \<Rightarrow> int \<Rightarrow> int \<Rightarrow> u64 \<Rightarrow> 'a system_scheme \<Rightarrow> fault + (u64 \<times> 'a system_scheme)" where
  "sys_mmap c hint sz prot flags fd offset s =
     (if fd \<noteq> - 1 \<or> offset \<noteq> 0 \<or> flags AND MAP_ANONYMOUS c = 0 \<or> flags AND MAP_SHARED c \<noteq> 0 then
        and_then (printf (lit ''{red}(mmap) Not implemented!'' @ [0x0a]) [] s) (\<lambda>s. Inr (0, s))
      else and_then (terminating (pmm_alloc (sz div PAGE_SIZE) s)) (\<lambda>(addr, s).
        and_then (running_task s) (\<lambda>(t, k).
          let base = heap_cur k;
              s = s\<lparr>tasks := (tasks s)(t \<mapsto> k\<lparr>heap_cur := base + sz\<rparr>)\<rparr>
          in and_then (terminating (map_range (address_space k) (if hint = 0 then base else hint) addr (sz div PAGE_SIZE)
                 (mmap_flags c prot) s)) (\<lambda>s. Inr (base, s)))))"

section \<open>Futexes\<close>

text \<open>\<open>current\<close> is the value the pointer points to.\<close>

definition sys_futex_wait ::
  "abi \<Rightarrow> (registers \<Rightarrow> 'a system_scheme \<Rightarrow> fault + (registers \<times> 'a system_scheme)) \<Rightarrow> u64 \<Rightarrow> int \<Rightarrow> int \<Rightarrow>
   registers \<Rightarrow> 'a system_scheme \<Rightarrow> fault + (int \<times> registers \<times> 'a system_scheme)" where
  "sys_futex_wait c interrupt pointer current expected regs s =
     (if current \<noteq> expected then Inr (- EAGAIN c, regs, s)
      else and_then (non_null (current_task s)) (\<lambda>t.
        and_then (add_futex_handle t s) (\<lambda>s.
        and_then (live (tasks s) t) (\<lambda>k.
        let (a, s) = new_node_address s
        in and_then (pointing (dll_push a pointer (futexes k))) (\<lambda>l.
        and_then (and_then (terminating (block_on interrupt (\<lambda>_. False) regs (s\<lparr>tasks := (tasks s)(t \<mapsto> k\<lparr>futexes := l\<rparr>)\<rparr>))) id)
          (\<lambda>(regs, s).
        and_then (live (tasks s) t) (\<lambda>k.
        and_then (pointing (dll_remove pointer (futexes k))) (\<lambda>l.
          let s = s\<lparr>tasks := (tasks s)(t \<mapsto> k\<lparr>futexes := l\<rparr>)\<rparr>
          in and_then (if dll_is_empty l then remove_futex_handle t s else Inr s) (\<lambda>s. Inr (0, regs, s))))))))))"

definition sys_futex_wake :: "u64 \<Rightarrow> 'a system_scheme \<Rightarrow> fault + (int \<times> 'a system_scheme)" where
  "sys_futex_wake pointer s = and_then (wake_futex_handles pointer s) (\<lambda>s. Inr (0, s))"

section \<open>Time\<close>

definition sys_sleep ::
  "(registers \<Rightarrow> 'a system_scheme \<Rightarrow> fault + (registers \<times> 'a system_scheme)) \<Rightarrow> u64 \<Rightarrow>
   registers \<Rightarrow> 'a system_scheme \<Rightarrow> fault + (registers \<times> 'a system_scheme)" where
  "sys_sleep interrupt ms regs s = sched_sleep interrupt ms regs s"

text \<open>The seconds and nanoseconds, when the call stores them.\<close>

definition sys_clock_get :: "abi \<Rightarrow> int \<Rightarrow> 'a system_scheme \<Rightarrow> fault + ((int \<times> (u64 \<times> u64) option) \<times> 'a system_scheme)" where
  "sys_clock_get c clock s =
     (if clock = CLOCK_REALTIME c \<or> clock = CLOCK_REALTIME_COARSE c then
        (let ms = get_real_time s in Inr ((0, Some (ms div 1000, ms * 1000000)), s))
      else if clock = CLOCK_BOOTTIME c \<or> clock = CLOCK_MONOTONIC c \<or> clock = CLOCK_MONOTONIC_RAW c \<or>
          clock = CLOCK_MONOTONIC_COARSE c then
        and_then (printf (lit ''{red}(clock) Not implemented.'') [] s) (\<lambda>s. Inr ((0, None), s))
      else if clock = CLOCK_PROCESS_CPUTIME_ID c \<or> clock = CLOCK_THREAD_CPUTIME_ID c then Inr ((0, Some (0, 0)), s)
      else Inr ((- ENOSYS c, None), s))"

section \<open>Graphics and messages\<close>

text \<open>
  The picture is the list of its pixels, row by row; the frame buffer has its own width, and a store behind its
  last line leaves it.
\<close>

definition draw_pixel :: "u32 list \<Rightarrow> u64 \<Rightarrow> nat \<times> nat \<Rightarrow> terminal \<Rightarrow> fault + terminal" where
  "draw_pixel buffer width yx t =
     (let (y, x) = yx; i = of_nat y * get_width t + of_nat x; j = y * unat width + x
      in if length buffer \<le> j then Inl Out_Of_Bounds
         else if get_framebuffer t = 0 then Inl Null_Pointer
         else if unat (get_width t) * unat (get_height t) \<le> unat i then Inl Out_Of_Bounds
         else Inr (t\<lparr>pixels := (pixels t)(i := buffer ! j)\<rparr>))"

primrec draw_pixels :: "u32 list \<Rightarrow> u64 \<Rightarrow> (nat \<times> nat) list \<Rightarrow> terminal \<Rightarrow> fault + terminal" where
  "draw_pixels buffer width [] t = Inr t"
| "draw_pixels buffer width (yx # yxs) t = and_then (draw_pixel buffer width yx t) (draw_pixels buffer width yxs)"

text \<open>The width is read from the boot loader's frame buffer, which must not be null, before anything is drawn.\<close>

definition sys_draw_from_buffer :: "u32 list \<Rightarrow> u64 \<Rightarrow> u64 \<Rightarrow> 'a system_scheme \<Rightarrow> fault + 'a system_scheme" where
  "sys_draw_from_buffer buffer width height s =
     and_then (non_null (fb_address (terminal s))) (\<lambda>_.
       and_then (draw_pixels buffer width (List.product [0..<unat height] [0..<unat width]) (terminal s)) (\<lambda>t.
         Inr (s\<lparr>terminal := t\<rparr>)))"

definition sys_get_kb_event :: "'a system_scheme \<Rightarrow> fault + (keyboard_event option \<times> 'a system_scheme)" where
  "sys_get_kb_event s =
     and_then (running_task s) (\<lambda>(t, k).
       let (event, q) = rb_read 5 (events k) in Inr (event, s\<lparr>tasks := (tasks s)(t \<mapsto> k\<lparr>events := q\<rparr>)\<rparr>))"

definition sys_log :: "u8 list \<Rightarrow> 'a system_scheme \<Rightarrow> fault + (u64 \<times> 'a system_scheme)" where
  "sys_log msg s = and_then (printf (lit ''{green}%s'' @ [0x0a]) [Str msg] s) (\<lambda>s. Inr (0, s))"

section \<open>The task itself\<close>

definition sys_exit ::
  "(registers \<Rightarrow> 'a system_scheme \<Rightarrow> fault + (registers \<times> 'a system_scheme)) \<Rightarrow>
   registers \<Rightarrow> 'a system_scheme \<Rightarrow> fault + (registers \<times> 'a system_scheme)" where
  "sys_exit interrupt regs s = kill_and_yield interrupt regs s"

definition sys_tcb_set :: "u64 \<Rightarrow> 'a bus_scheme \<Rightarrow> int \<times> 'a bus_scheme" where
  "sys_tcb_set pointer s = (0, write_msr 0xc0000100 pointer s)"

section \<open>Dispatch\<close>

text \<open>The codes in the order of the list both sides include.\<close>

datatype syscall_code =
    Log | Mmap | Open | Read | Seek | Close | TcbSet | Exit | Write | FutexWait | FutexWake | GetCwd | OpenAt | Stat
  | ReadEntries | Chdir | DrawFromBuffer | Mkdir | ClockGet | Sleep | GetKbEvent | CreateSocket | SendMsg | RecvMsg | SetSocketOpt

definition syscall_codes :: "syscall_code list" where
  "syscall_codes = [Log, Mmap, Open, Read, Seek, Close, TcbSet, Exit, Write, FutexWait, FutexWake, GetCwd, OpenAt, Stat,
     ReadEntries, Chdir, DrawFromBuffer, Mkdir, ClockGet, Sleep, GetKbEvent, CreateSocket, SendMsg, RecvMsg, SetSocketOpt]"

text \<open>
  \<open>call\<close> runs the function of a code on the six argument registers, which includes following
  the pointers among them into the memory of the program.
\<close>

definition syscall_handler ::
  "(syscall_code \<Rightarrow> u64 list \<Rightarrow> registers \<Rightarrow> 'a system_scheme \<Rightarrow> fault + (u64 \<times> registers \<times> 'a system_scheme)) \<Rightarrow>
   registers \<Rightarrow> 'a system_scheme \<Rightarrow> fault + (registers \<times> 'a system_scheme)" where
  "syscall_handler call regs s =
     (if rdi regs \<ge> of_nat (length syscall_codes) then
        and_then (printf (lit ''{red}Invalid syscall!'' @ [0x0a]) [] s) (\<lambda>s. Inr (regs, s))
      else and_then (call (syscall_codes ! unat (rdi regs)) [rsi regs, rdx regs, rcx regs, r8 regs, r9 regs, r10 regs] regs s)
        (\<lambda>(result, regs, s). Inr (regs\<lparr>rax := result\<rparr>, s)))"

end
