(* ===== verification/Pci.thy ===== *)
theory Pci
  imports Io
begin

text \<open>
  The PCI bus (\<open>src/kernel/drivers/pci.cpp\<close>, \<open>pci.hpp\<close>): the configuration space behind two
  ports, and the walk over all buses, devices and functions that hands every device to the
  drivers. The configuration of a device is the list of its sixteen 32-bit registers.
\<close>

section \<open>Configuration space\<close>

definition PCI_CONFIG_ADDRESS :: u16 where
  "PCI_CONFIG_ADDRESS = 0xcf8"

definition PCI_CONFIG_DATA :: u16 where
  "PCI_CONFIG_DATA = 0xcfc"

definition pci_addr :: "u8 \<Rightarrow> u8 \<Rightarrow> u8 \<Rightarrow> u8 \<Rightarrow> u32" where
  "pci_addr bus dev func offset =
     push_bit 31 1 OR push_bit 16 (ucast bus) OR push_bit 11 (ucast dev) OR push_bit 8 (ucast func) OR
       ucast (offset AND 0xfc)"

text \<open>The register that holds the offset, shifted so that the offset is its lowest byte.\<close>

definition pci_read :: "u8 \<Rightarrow> u8 \<Rightarrow> u8 \<Rightarrow> u8 \<Rightarrow> 'a bus_scheme \<Rightarrow> u32 \<times> 'a bus_scheme" where
  "pci_read bus dev func offset s =
     (let s = out_port32 PCI_CONFIG_ADDRESS (pci_addr bus dev func offset) s;
          offset = (offset AND 3) * 8;
          (v, s) = in_port32 PCI_CONFIG_DATA s
      in (drop_bit (unat offset) v, s))"

definition pci_read8 :: "u8 \<Rightarrow> u8 \<Rightarrow> u8 \<Rightarrow> u8 \<Rightarrow> 'a bus_scheme \<Rightarrow> u8 \<times> 'a bus_scheme" where
  "pci_read8 bus dev func offset s = map_prod ucast id (pci_read bus dev func offset s)"

definition pci_read16 :: "u8 \<Rightarrow> u8 \<Rightarrow> u8 \<Rightarrow> u8 \<Rightarrow> 'a bus_scheme \<Rightarrow> u16 \<times> 'a bus_scheme" where
  "pci_read16 bus dev func offset s = map_prod ucast id (pci_read bus dev func offset s)"

text \<open>
  A write of one or two bytes changes these bytes of what \<open>read\<close> returns, which for a word that
  is not the lowest of its register is already shifted. A write of one byte takes the whole
  offset as the shift.
\<close>

definition pci_write16 :: "u8 \<Rightarrow> u8 \<Rightarrow> u8 \<Rightarrow> u8 \<Rightarrow> u32 \<Rightarrow> 'a bus_scheme \<Rightarrow> 'a bus_scheme" where
  "pci_write16 bus dev func offset v s =
     (let addr = pci_addr bus dev func offset;
          (current, s) = pci_read bus dev func offset s;
          s = out_port32 PCI_CONFIG_ADDRESS addr s;
          offset = (offset AND 3) * 8;
          bits = NOT (push_bit (unat offset) 0xffff);
          v = (current AND bits) OR push_bit (unat offset) (v AND 0xffff)
      in out_port32 PCI_CONFIG_DATA v s)"

definition pci_write8 :: "u8 \<Rightarrow> u8 \<Rightarrow> u8 \<Rightarrow> u8 \<Rightarrow> u32 \<Rightarrow> 'a bus_scheme \<Rightarrow> 'a bus_scheme" where
  "pci_write8 bus dev func offset v s =
     (let addr = pci_addr bus dev func offset;
          (current, s) = pci_read bus dev func offset s;
          s = out_port32 PCI_CONFIG_ADDRESS addr s;
          bits = NOT (push_bit (unat offset) 0xff);
          v = (current AND bits) OR push_bit (unat offset) (v AND 0xff)
      in out_port32 PCI_CONFIG_DATA v s)"

section \<open>Devices\<close>

type_synonym pci_device = "u32 list"

definition vendor_id :: "pci_device \<Rightarrow> u16" where
  "vendor_id d = ucast (d ! 0)"

definition device_id :: "pci_device \<Rightarrow> u16" where
  "device_id d = ucast (drop_bit 16 (d ! 0))"

definition header_type :: "pci_device \<Rightarrow> u8" where
  "header_type d = ucast (drop_bit 16 (d ! 3))"

definition bar0 :: "pci_device \<Rightarrow> u32" where
  "bar0 d = d ! 4"

definition bar1 :: "pci_device \<Rightarrow> u32" where
  "bar1 d = d ! 5"

text \<open>The registers from \<open>reg\<close> on.\<close>

primrec pci_registers :: "u8 \<Rightarrow> u8 \<Rightarrow> u8 \<Rightarrow> nat list \<Rightarrow> 'a bus_scheme \<Rightarrow> u32 list \<times> 'a bus_scheme" where
  "pci_registers bus dev func [] s = ([], s)"
| "pci_registers bus dev func (reg # regs) s =
     (let (v, s) = pci_read bus dev func (of_nat (reg * 4)) s;
          (vs, s) = pci_registers bus dev func regs s
      in (v # vs, s))"

section \<open>The walk\<close>

text \<open>
  What is done for a function of a device, with the drivers as an argument: it is skipped when
  nobody answers or when it is a bridge.
\<close>

definition pci_function ::
  "(pci_device \<Rightarrow> u8 \<Rightarrow> u8 \<Rightarrow> u8 \<Rightarrow> 'a bus_scheme \<Rightarrow> 'e + 'a bus_scheme) \<Rightarrow>
   u8 \<Rightarrow> u8 \<Rightarrow> u8 \<Rightarrow> 'a bus_scheme \<Rightarrow> 'e + 'a bus_scheme" where
  "pci_function device_init bus dev func s =
     (let (vendor, s) = pci_read16 bus dev func 0 s
      in if vendor = 0xffff then Inr s
         else let (header, s) = pci_registers bus dev func [0..<4] s
              in if header_type header AND 0x7f \<noteq> 0 then Inr s
                 else let (config, s) = pci_registers bus dev func [0..<16] s
                      in device_init config bus dev func s)"

primrec pci_each ::
  "('b \<Rightarrow> 's \<Rightarrow> 'e + 's) \<Rightarrow> 'b list \<Rightarrow> 's \<Rightarrow> 'e + 's" where
  "pci_each f [] s = Inr s"
| "pci_each f (x # xs) s = (case f x s of Inl e \<Rightarrow> Inl e | Inr s \<Rightarrow> pci_each f xs s)"

definition pci_device_functions ::
  "(pci_device \<Rightarrow> u8 \<Rightarrow> u8 \<Rightarrow> u8 \<Rightarrow> 'a bus_scheme \<Rightarrow> 'e + 'a bus_scheme) \<Rightarrow>
   u8 \<Rightarrow> u8 \<Rightarrow> 'a bus_scheme \<Rightarrow> 'e + 'a bus_scheme" where
  "pci_device_functions device_init bus dev s =
     (let (header, s) = pci_read8 bus dev 0 0xe s;
          n_funcs = (if header AND 0x80 \<noteq> 0 then 8 else 1 :: nat)
      in pci_each (\<lambda>func. pci_function device_init bus dev (of_nat func)) [0..<n_funcs] s)"

definition pci_init ::
  "(pci_device \<Rightarrow> u8 \<Rightarrow> u8 \<Rightarrow> u8 \<Rightarrow> 'a bus_scheme \<Rightarrow> 'e + 'a bus_scheme) \<Rightarrow> 'a bus_scheme \<Rightarrow> 'e + 'a bus_scheme" where
  "pci_init device_init s =
     pci_each (\<lambda>bus. pci_each (\<lambda>dev. pci_device_functions device_init (of_nat bus) (of_nat dev)) [0..<32]) [0..<256] s"

end
