(* ===== verification/E1000.thy ===== *)
theory E1000
  imports System Pci
begin

text \<open>
  The driver of the network card (\<open>src/kernel/drivers/e1000.cpp\<close>, \<open>e1000.hpp\<close>). The registers
  of the card are a device; the descriptor rings and the packet buffers are memory, which
  holds what the card wrote to it when the interrupt came.
\<close>

section \<open>Registers\<close>

definition nic_read :: "nic \<Rightarrow> u32 \<Rightarrow> 'a bus_scheme \<Rightarrow> u32 \<times> 'a bus_scheme" where
  "nic_read n offset s = mmio_read (nic_mmio n + 4 * (ucast offset div 4)) s"

definition nic_write :: "nic \<Rightarrow> u64 \<Rightarrow> u32 \<Rightarrow> 'a bus_scheme \<Rightarrow> 'a bus_scheme" where
  "nic_write n reg v s = mmio_write (nic_mmio n + 4 * (reg div 4)) v s"

definition CTRL_REGISTER :: u64 where "CTRL_REGISTER = 0x0"
definition STATUS_REGISTER :: u64 where "STATUS_REGISTER = 0x8"
definition EERD_REGISTER :: u64 where "EERD_REGISTER = 0x14"
definition ICR_REGISTER :: u64 where "ICR_REGISTER = 0xc0"
definition IMS_REGISTER :: u64 where "IMS_REGISTER = 0xd0"
definition IMC_REGISTER :: u64 where "IMC_REGISTER = 0xd8"
definition RCTL_REGISTER :: u64 where "RCTL_REGISTER = 0x100"
definition TCTL_REGISTER :: u64 where "TCTL_REGISTER = 0x400"
definition RDBAL_REGISTER :: u64 where "RDBAL_REGISTER = 0x2800"
definition RDBAH_REGISTER :: u64 where "RDBAH_REGISTER = 0x2804"
definition RDLEN_REGISTER :: u64 where "RDLEN_REGISTER = 0x2808"
definition RDH_REGISTER :: u64 where "RDH_REGISTER = 0x2810"
definition RDT_REGISTER :: u64 where "RDT_REGISTER = 0x2818"
definition TDBAL_REGISTER :: u64 where "TDBAL_REGISTER = 0x3800"
definition TDBAH_REGISTER :: u64 where "TDBAH_REGISTER = 0x3804"
definition TDLEN_REGISTER :: u64 where "TDLEN_REGISTER = 0x3808"
definition TDH_REGISTER :: u64 where "TDH_REGISTER = 0x3810"
definition TDT_REGISTER :: u64 where "TDT_REGISTER = 0x3818"

definition NUM_RX_DESCS :: u64 where "NUM_RX_DESCS = 256"
definition NUM_TX_DESCS :: u64 where "NUM_TX_DESCS = 256"
definition MAX_ETHERNET_FRAME_SIZE :: u16 where "MAX_ETHERNET_FRAME_SIZE = 1518"

text \<open>The card of the driver, null before it was found.\<close>

definition the_nic :: "'a system_scheme \<Rightarrow> fault + nic" where
  "the_nic s = non_null (nic s)"

section \<open>Receiving\<close>

text \<open>The fields of a receive descriptor of 16 bytes.\<close>

definition rx_addr :: "memory \<Rightarrow> u64 \<Rightarrow> u64" where
  "rx_addr m p = read64 m p"

definition rx_length :: "memory \<Rightarrow> u64 \<Rightarrow> u16" where
  "rx_length m p = le16 (m (p + 8)) (m (p + 9))"

definition rx_status :: "memory \<Rightarrow> u64 \<Rightarrow> u8" where
  "rx_status m p = m (p + 12)"

text \<open>A received frame is copied to a new object and goes into the cache.\<close>

definition store_frame :: "u8 list \<Rightarrow> nic \<Rightarrow> 'a system_scheme \<Rightarrow> 'a system_scheme" where
  "store_frame bytes n s =
     s\<lparr>frames := (frames s)(next_frame s \<mapsto> bytes), next_frame := next_frame s + 1,
       nic := Some (n\<lparr>nic_cache := rb_write 64 (next_frame s) (nic_cache n)\<rparr>)\<rparr>"

partial_function (option) rx_loop :: "'a system_scheme \<Rightarrow> (fault + 'a system_scheme) option" where
  "rx_loop s =
     (case nic s of None \<Rightarrow> Some (Inl Null_Pointer)
      | Some n \<Rightarrow>
        (case nic_read n (ucast RDT_REGISTER) s of (t, s) \<Rightarrow>
         case nic_read n (ucast RDH_REGISTER) s of (h, s) \<Rightarrow>
         if t = h then Some (Inr (s\<lparr>nic := Some (n\<lparr>rx_tail := ucast t\<rparr>)\<rparr>))
         else
           (let tail = (ucast t + 1) mod NUM_RX_DESCS; n = n\<lparr>rx_tail := tail\<rparr>;
                s = s\<lparr>nic := Some n\<rparr>; desc = rx_descriptors n + 16 * tail; len = rx_length (mem s) desc
            in if rx_status (mem s) desc AND 1 = 0 then Some (Inr s)
               else
                 (case (if len \<le> MAX_ETHERNET_FRAME_SIZE
                    then wake_net (store_frame (bytes_at (mem s) (PHYS_TO_VIRT s (rx_addr (mem s) desc)) (unat len)) n s)
                    else Inr s) of
                    Inl e \<Rightarrow> Some (Inl e)
                  | Inr s \<Rightarrow> rx_loop (nic_write n RDT_REGISTER (ucast tail) s)))))"

declare rx_loop.simps [code]

definition e1000_handler :: "'a system_scheme \<Rightarrow> fault + 'a system_scheme" where
  "e1000_handler s =
     and_then (the_nic s) (\<lambda>n.
       let (status, s) = nic_read n (ucast ICR_REGISTER) s
       in if status AND push_bit 7 1 \<noteq> 0 then and_then (terminating (rx_loop s)) id else Inr s)"

section \<open>Sending\<close>

text \<open>The length and the command of a transmit descriptor are two bytes and one byte.\<close>

definition e1000_send :: "u8 list \<Rightarrow> 'a system_scheme \<Rightarrow> fault + 'a system_scheme" where
  "e1000_send data s =
     and_then (the_nic s) (\<lambda>n.
       let restore = interrupts_enabled s;
           s = disable_interrupts s;
           desc = tx_descriptors n + 16 * tx_tail n;
           m = put_bytes (PHYS_TO_VIRT s (read64 (mem s) desc)) data (mem s);
           m = put_bytes (desc + 8) (bytes16 (of_nat (length data))) m;
           m = store8 (desc + 11) (push_bit 0 1 OR push_bit 1 1 OR push_bit 3 1) m;
           n = n\<lparr>tx_tail := (tx_tail n + 1) mod NUM_TX_DESCS\<rparr>;
           s = nic_write n TDT_REGISTER (ucast (tx_tail n)) (s\<lparr>mem := m, nic := Some n\<rparr>)
       in Inr (if restore then enable_interrupts s else s))"

section \<open>Initialisation\<close>

text \<open>Reading a register until a condition holds for its value.\<close>

partial_function (option) nic_wait :: "nic \<Rightarrow> u32 \<Rightarrow> (u32 \<Rightarrow> bool) \<Rightarrow> 'a bus_scheme \<Rightarrow> (u32 \<times> 'a bus_scheme) option" where
  "nic_wait n offset condition s =
     (case nic_read n offset s of (v, s) \<Rightarrow> if condition v then Some (v, s) else nic_wait n offset condition s)"

declare nic_wait.simps [code]

definition e1000_reset ::
  "(registers \<Rightarrow> 'a system_scheme \<Rightarrow> fault + (registers \<times> 'a system_scheme)) \<Rightarrow> nic \<Rightarrow>
   registers \<Rightarrow> 'a system_scheme \<Rightarrow> fault + (registers \<times> 'a system_scheme)" where
  "e1000_reset interrupt n regs s =
     (let s = nic_write n IMC_REGISTER 0xffffffff s;
          (ctrl, s) = nic_read n (ucast CTRL_REGISTER) s;
          s = nic_write n CTRL_REGISTER (ctrl OR push_bit 26 1) s
      in and_then (sched_sleep interrupt 1 regs s) (\<lambda>(regs, s).
           and_then (terminating (nic_wait n (ucast CTRL_REGISTER) (\<lambda>v. v AND push_bit 26 1 = 0) s)) (\<lambda>(_, s).
             Inr (regs, nic_write n IMC_REGISTER 0xffffffff s))))"

text \<open>A page of descriptors, and a page for the data of each of them.\<close>

primrec fill_ring :: "u64 \<Rightarrow> nat list \<Rightarrow> 'a pmm_scheme \<Rightarrow> 'a pmm_scheme option" where
  "fill_ring descs [] s = Some s"
| "fill_ring descs (i # is) s =
     do { (a, s) \<leftarrow> pmm_calloc 1 s; fill_ring descs is (s\<lparr>mem := write64 (descs + 16 * of_nat i) a (mem s)\<rparr>) }"

definition init_receive :: "nic \<Rightarrow> 'a system_scheme \<Rightarrow> (nic \<times> 'a system_scheme) option" where
  "init_receive n s =
     do {
       (a, s) \<leftarrow> pmm_calloc 1 s;
       let n = n\<lparr>rx_descriptors := PHYS_TO_VIRT s a\<rparr>;
       s \<leftarrow> fill_ring (rx_descriptors n) [0..<unat NUM_RX_DESCS] s;
       let phys = VIRT_TO_PHYS s (rx_descriptors n);
       let s = nic_write n RDBAL_REGISTER (ucast (phys AND 0xffffffff)) s;
       let s = nic_write n RDBAH_REGISTER (ucast (drop_bit 32 phys)) s;
       let s = nic_write n RDLEN_REGISTER (ucast PAGE_SIZE) s;
       let s = nic_write n RDH_REGISTER 0 s;
       let s = nic_write n RDT_REGISTER (ucast (NUM_RX_DESCS - 1)) s;
       Some (n, nic_write n RCTL_REGISTER
         (push_bit 1 1 OR push_bit 15 1 OR push_bit 26 1 OR push_bit 16 3 OR push_bit 25 1) s) }"

definition init_transmit :: "nic \<Rightarrow> 'a system_scheme \<Rightarrow> (nic \<times> 'a system_scheme) option" where
  "init_transmit n s =
     do {
       (a, s) \<leftarrow> pmm_calloc 1 s;
       let n = n\<lparr>tx_descriptors := PHYS_TO_VIRT s a\<rparr>;
       s \<leftarrow> fill_ring (tx_descriptors n) [0..<unat NUM_TX_DESCS] s;
       let phys = VIRT_TO_PHYS s (tx_descriptors n);
       let s = nic_write n TDBAL_REGISTER (ucast (phys AND 0xffffffff)) s;
       let s = nic_write n TDBAH_REGISTER (ucast (drop_bit 32 phys)) s;
       let s = nic_write n TDLEN_REGISTER (ucast PAGE_SIZE) s;
       let s = nic_write n TDH_REGISTER 0 s;
       let s = nic_write n TDT_REGISTER 0 s;
       Some (n, nic_write n TCTL_REGISTER (push_bit 1 1) s) }"

definition read_eeprom :: "nic \<Rightarrow> u32 \<Rightarrow> 'a system_scheme \<Rightarrow> (u16 \<times> 'a system_scheme) option" where
  "read_eeprom n addr s =
     do {
       let s = nic_write n EERD_REGISTER (1 OR push_bit 8 addr) s;
       (ret, s) \<leftarrow> nic_wait n (ucast EERD_REGISTER) (\<lambda>v. v AND push_bit 4 1 \<noteq> 0) s;
       Some (ucast (drop_bit 16 ret AND 0xffff), s) }"

primrec read_mac :: "nic \<Rightarrow> nat list \<Rightarrow> 'a system_scheme \<Rightarrow> (u8 list \<times> 'a system_scheme) option" where
  "read_mac n [] s = Some ([], s)"
| "read_mac n (i # is) s =
     do {
       (word, s) \<leftarrow> read_eeprom n (of_nat i) s;
       (bytes, s) \<leftarrow> read_mac n is s;
       Some (ucast (word AND 0xff) # ucast (drop_bit 8 word) # bytes, s) }"

text \<open>Where the registers of the card are, by the size of its first base address.\<close>

definition nic_base :: "pci_device \<Rightarrow> 'a machine_scheme \<Rightarrow> u64" where
  "nic_base d s =
     (if drop_bit 1 (bar0 d) AND 3 = 0 then PHYS_TO_VIRT s (ucast (bar0 d AND 0xfffffff0))
      else PHYS_TO_VIRT s (push_bit 32 (ucast (bar1 d)) OR ucast (bar0 d AND 0xfffffff0)))"

text \<open>
  \<open>packet_handler\<close> is the address of the function of this name, \<open>caller\<close> what \<open>kernel_main\<close>'s
  registers are when it sleeps; \<open>junk\<close> is what the memory of the new objects held.
\<close>

definition e1000_init ::
  "auxv_types \<Rightarrow> task \<Rightarrow> auxval \<Rightarrow> u64 \<Rightarrow> nat list \<Rightarrow>
   (registers \<Rightarrow> 'a system_scheme \<Rightarrow> fault + (registers \<times> 'a system_scheme)) \<Rightarrow> registers \<Rightarrow>
   pci_device \<Rightarrow> u8 \<Rightarrow> u8 \<Rightarrow> u8 \<Rightarrow> 'a system_scheme \<Rightarrow> fault + 'a system_scheme" where
  "e1000_init c junk auxv packet_handler junk_cache interrupt caller d bus dev func s =
     (if vendor_id d \<noteq> 0x8086 \<or> device_id d \<noteq> 0x100e then Inr s
      else
        let (command, s) = pci_read16 bus dev func 4 s;
            s = pci_write16 bus dev func 4 (ucast command OR push_bit 2 1) s;
            (command, s) = pci_read16 bus dev func 4 s;
            s = pci_write16 bus dev func 4 (ucast command OR push_bit 1 1) s;
            n = \<lparr>mac_addr = [], nic_cache = rb_new junk_cache, nic_mmio = nic_base d s, tx_descriptors = 0, tx_tail = 0,
                 rx_descriptors = 0, rx_tail = 0\<rparr>;
            s = s\<lparr>nic := Some n\<rparr>
        in and_then (e1000_reset interrupt n caller s) (\<lambda>(_, s).
           let (ctrl, s) = nic_read n (ucast CTRL_REGISTER) s;
               s = nic_write n CTRL_REGISTER (ctrl OR push_bit 6 1) s
           in and_then (terminating (nic_wait n (ucast STATUS_REGISTER) (\<lambda>v. v AND 2 = 2) s)) (\<lambda>(_, s).
           and_then (terminating (init_receive n s)) (\<lambda>(n, s).
           and_then (terminating (init_transmit n (s\<lparr>nic := Some n\<rparr>))) (\<lambda>(n, s).
           let s = s\<lparr>nic := Some n\<rparr>;
               (pci_irq, s) = pci_read8 bus dev func 0x3c s;
               s = redirect_pin (pci_irq * 2 + 16) E1000_VECT 0 s;
               s = nic_write n IMS_REGISTER 0x1f6df s
           in and_then (printf (lit ''{green}[*]{white} E1000 initialized.'' @ [0x0a]) [] s) (\<lambda>s.
           and_then (terminating (read_mac n [0..<3] s)) (\<lambda>(mac, s).
           let s = s\<lparr>nic := map_option (mac_addr_update (\<lambda>_. mac)) (nic s)\<rparr>
           in and_then (and_then (terminating (task_create c junk (lit ''packet_handler'') packet_handler False None auxv s)) id) (\<lambda>(t, s).
             add_task t s))))))))"

end
