(* ===== verification/Net.thy ===== *)
theory Net
  imports E1000 Abi
begin

text \<open>
  The network (\<open>src/kernel/net/socket.cpp\<close>, \<open>udp.cpp\<close>, \<open>icmp.cpp\<close>) and the system calls for
  sockets (\<open>src/kernel/syscalls/socket.cpp\<close>). A received frame is an object; its structures
  lie at fixed offsets: the IPv4 header behind the 14 bytes of the Ethernet header, and the
  UDP or ICMP header behind its 20 bytes. Reading behind the end of a frame is a fault.
\<close>

section \<open>Sending\<close>

definition ipv4_address :: "u8 \<Rightarrow> u8 \<Rightarrow> u8 \<Rightarrow> u8 \<Rightarrow> u32" where
  "ipv4_address a b c d = load32 [a, b, c, d] 0"

text \<open>The header with version 4, a length of 5 words, no options and a time to live of 64.\<close>

definition ipv4_header :: "u16 \<Rightarrow> u8 \<Rightarrow> u32 \<Rightarrow> u32 \<Rightarrow> u16 \<Rightarrow> u8 list" where
  "ipv4_header total_length protocol src dst checksum =
     [0x45, 0] @ bytes16 (bswap16 total_length) @ [0, 0, 0, 0, 64, protocol] @ bytes16 checksum @ bytes32 src @ bytes32 dst"

definition ipv4_frame :: "u8 list \<Rightarrow> u8 list \<Rightarrow> u8 \<Rightarrow> u32 \<Rightarrow> u32 \<Rightarrow> u8 list" where
  "ipv4_frame mac data protocol src dst =
     (let total_length = of_nat (length data + 20);
          checksum = get_checksum (ipv4_header total_length protocol src dst 0)
      in replicate 6 0xff @ mac @ bytes16 (bswap16 0x800) @ ipv4_header total_length protocol src dst checksum @ data)"

definition send_ipv4 :: "u8 list \<Rightarrow> u8 \<Rightarrow> u32 \<Rightarrow> u32 \<Rightarrow> 'a system_scheme \<Rightarrow> fault + (int \<times> 'a system_scheme)" where
  "send_ipv4 data protocol src dst s =
     (case nic s of None \<Rightarrow> Inr (- 1, s)
      | Some n \<Rightarrow> and_then (e1000_send (ipv4_frame (mac_addr n) data protocol src dst) s) (\<lambda>s. Inr (0, s)))"

section \<open>Sockets\<close>

record sockaddr_in =
  sin_family :: u16
  sin_port :: u16
  sin_addr :: u32

text \<open>The parts of \<open>struct msghdr\<close> besides the buffers; the name is an optional pointer.\<close>

record msghdr =
  msg_name :: "sockaddr_in option"
  msg_namelen :: u64

definition new_socket :: "packet_queue \<Rightarrow> 'a system_scheme \<Rightarrow> nat \<times> 'a system_scheme" where
  "new_socket q s =
     (next_socket s, s\<lparr>net_sockets := (net_sockets s)(next_socket s \<mapsto> \<lparr>sk_id = - 1, sk_port = 0, sk_packets = q,
         sk_lock = \<lparr>locked = False, restore_interrupts = False\<rparr>\<rparr>), next_socket := next_socket s + 1\<rparr>)"

definition add_udp_socket :: "nat \<Rightarrow> 'a system_scheme \<Rightarrow> fault + 'a system_scheme" where
  "add_udp_socket a s =
     (let (p, s) = new_node_address s
      in and_then (pointing (dll_push p a (udp_sockets s))) (\<lambda>l. Inr (s\<lparr>udp_sockets := l\<rparr>)))"

definition add_icmp_socket :: "nat \<Rightarrow> 'a system_scheme \<Rightarrow> fault + 'a system_scheme" where
  "add_icmp_socket a s =
     (let (p, s) = new_node_address s
      in and_then (pointing (dll_push p a (icmp_sockets s))) (\<lambda>l. Inr (s\<lparr>icmp_sockets := l\<rparr>)))"

text \<open>The first socket of a list that satisfies a condition.\<close>

partial_function (option) find_socket ::
  "(nat \<rightharpoonup> socket) \<Rightarrow> (socket \<Rightarrow> bool) \<Rightarrow> u64 \<Rightarrow> nat dll \<Rightarrow> (fault + nat option) option" where
  "find_socket socks condition current l =
     (if current = 0 then Some (Inr None)
      else case dll_nodes l current of None \<Rightarrow> Some (Inl Null_Pointer)
        | Some n \<Rightarrow> (case socks (nd_value n) of None \<Rightarrow> Some (Inl Use_After_Free)
            | Some k \<Rightarrow> if condition k then Some (Inr (Some (nd_value n)))
                else find_socket socks condition (nd_next n) l))"

declare find_socket.simps [code]

definition get_udp_socket :: "u16 \<Rightarrow> 'a system_scheme \<Rightarrow> fault + nat option" where
  "get_udp_socket port s =
     and_then (terminating (find_socket (net_sockets s) (\<lambda>k. sk_port k = port) (dll_head (udp_sockets s)) (udp_sockets s))) id"

definition get_socket_handle :: "task \<Rightarrow> int \<Rightarrow> 'a system_scheme \<Rightarrow> fault + nat option" where
  "get_socket_handle k i s =
     and_then (terminating (find_socket (net_sockets s) (\<lambda>sk. sk_id sk = i) (dll_head (socket_handles k)) (socket_handles k))) id"

definition add_socket_handle :: "nat \<Rightarrow> nat option \<Rightarrow> 'a system_scheme \<Rightarrow> fault + (int \<times> 'a system_scheme)" where
  "add_socket_handle t handle s =
     (case handle of None \<Rightarrow> Inr (- 1, s)
      | Some a \<Rightarrow> and_then (live (tasks s) t) (\<lambda>k. and_then (live (net_sockets s) a) (\<lambda>sk.
          let sk = (if sk_id sk = - 1 then sk\<lparr>sk_id := next_id k\<rparr> else sk);
              (p, s) = new_node_address s
          in and_then (pointing (dll_push p a (socket_handles k))) (\<lambda>l.
               Inr (sk_id sk, s\<lparr>net_sockets := (net_sockets s)(a \<mapsto> sk),
                 tasks := (tasks s)(t \<mapsto> k\<lparr>next_id := next_id k + 1, socket_handles := l\<rparr>)\<rparr>)))))"

section \<open>Receiving\<close>

definition put_packet :: "packet_queue \<Rightarrow> udp_packet + nat \<times> nat \<Rightarrow> packet_queue" where
  "put_packet q p =
     (case (q, p) of (Udp_Packets b, Inl u) \<Rightarrow> Udp_Packets (rb_write 64 u b)
      | (Icmp_Packets b, Inr i) \<Rightarrow> Icmp_Packets (rb_write 64 i b) | _ \<Rightarrow> q)"

definition enqueue :: "nat \<Rightarrow> udp_packet + nat \<times> nat \<Rightarrow> 'a system_scheme \<Rightarrow> fault + 'a system_scheme" where
  "enqueue a p s =
     and_then (terminating (acquire (packets_lock a) (packets_lock_update a) s)) (\<lambda>s.
       and_then (live (net_sockets s) a) (\<lambda>k.
         Inr (release (packets_lock a) (packets_lock_update a)
           (s\<lparr>net_sockets := (net_sockets s)(a \<mapsto> k\<lparr>sk_packets := put_packet (sk_packets k) p\<rparr>)\<rparr>))))"

text \<open>
  The frame is the one whose IPv4 header starts at offset 14. Subtracting the size of the header
  from the length wraps when the length is too small. The datagram's own length includes its
  header of 8 bytes, and so many bytes are copied from behind the header.
\<close>

definition receive_udp :: "u8 list \<Rightarrow> 'a system_scheme \<Rightarrow> fault + 'a system_scheme" where
  "receive_udp f s =
     (let len = ucast (bswap16 (load16 f 16)) - 20 :: u64
      in if len < 8 then Inr s
         else if length f < 42 then Inl Out_Of_Bounds
         else
           let udp_length = ucast (bswap16 (load16 f 38)) :: u64
           in if udp_length > len then Inr s
              else and_then (get_udp_socket (bswap16 (load16 f 36)) s) (\<lambda>socket.
                case socket of None \<Rightarrow> Inr s
                | Some a \<Rightarrow>
                  if length f < 42 + unat udp_length then Inl Out_Of_Bounds
                  else and_then (enqueue a (Inl \<lparr>up_src_ip = load32 f 26, up_src_port = load16 f 34,
                    up_length = udp_length, up_data = take (unat udp_length) (drop 42 f)\<rparr>) s) wake_net))"

partial_function (option) enqueue_all :: "nat \<times> nat \<Rightarrow> u64 \<Rightarrow> 'a system_scheme \<Rightarrow> (fault + 'a system_scheme) option" where
  "enqueue_all p current s =
     (if current = 0 then Some (Inr s)
      else case dll_nodes (icmp_sockets s) current of None \<Rightarrow> Some (Inl Null_Pointer)
        | Some n \<Rightarrow> (case enqueue (nd_value n) (Inr p) s of Inl e \<Rightarrow> Some (Inl e)
            | Inr s \<Rightarrow> enqueue_all p (nd_next n) s))"

declare enqueue_all.simps [code]

text \<open>Every socket gets a pointer to the ICMP header in the frame \<open>a\<close>.\<close>

definition receive_icmp :: "nat \<Rightarrow> u8 list \<Rightarrow> 'a system_scheme \<Rightarrow> fault + 'a system_scheme" where
  "receive_icmp a f s =
     (let len = ucast (bswap16 (load16 f 16)) - 20 :: u64
      in if len < 4 then Inr s
         else if length f < 36 then Inl Out_Of_Bounds
         else if f ! 34 = 0 \<and> f ! 35 = 0 then
           and_then (and_then (terminating (enqueue_all (a, 34) (dll_head (icmp_sockets s)) s)) id) wake_net
         else Inr s)"

text \<open>\<open>len\<close> is the length of the frame without its Ethernet header, which wraps for shorter frames.\<close>

definition receive_ipv4 :: "nat \<Rightarrow> u64 \<Rightarrow> 'a system_scheme \<Rightarrow> fault + 'a system_scheme" where
  "receive_ipv4 a len s =
     (if len < 20 then Inr s
      else and_then (live (frames s) a) (\<lambda>f.
        if length f < 34 then Inl Out_Of_Bounds
        else if drop_bit 4 (f ! 14) \<noteq> 4 then Inr s
        else
          let checksum = load16 f 24; f = f[24 := 0, 25 := 0]; s = s\<lparr>frames := (frames s)(a \<mapsto> f)\<rparr>
          in if checksum \<noteq> get_checksum (take 20 (drop 14 f)) then Inr s
             else if f ! 23 = 1 then receive_icmp a f s
             else if f ! 23 = 6 then Inr s
             else if f ! 23 = 0x11 then receive_udp f s
             else Inr s))"

text \<open>One round of the loop of the task that handles packets.\<close>

definition packet_handler_round ::
  "(registers \<Rightarrow> 'a system_scheme \<Rightarrow> fault + (registers \<times> 'a system_scheme)) \<Rightarrow>
   registers \<Rightarrow> 'a system_scheme \<Rightarrow> fault + (registers \<times> 'a system_scheme)" where
  "packet_handler_round interrupt regs s =
     and_then (the_nic s) (\<lambda>_.
     and_then (and_then (terminating (block_on interrupt
         (\<lambda>s. case nic s of None \<Rightarrow> False | Some n \<Rightarrow> \<not> rb_is_empty (nic_cache n)) regs s)) id) (\<lambda>(regs, s).
     and_then (terminating (acquire cache_lock cache_lock_update s)) (\<lambda>s.
     and_then (the_nic s) (\<lambda>n.
       let (packet, cache) = rb_read 64 (nic_cache n); s = s\<lparr>nic := Some (n\<lparr>nic_cache := cache\<rparr>)\<rparr>
       in and_then (non_null packet) (\<lambda>a.
          and_then (live (frames s) a) (\<lambda>f.
            if length f < 14 then Inl Out_Of_Bounds
            else and_then
              (if bswap16 (load16 f 12) = 0x800 then receive_ipv4 a (of_nat (length f) - 14) s else Inr s)
              (\<lambda>s. Inr (regs, release cache_lock cache_lock_update (s\<lparr>frames := (frames s)(a := None)\<rparr>)))))))))"

section \<open>Messages\<close>

text \<open>The destination is ignored: every datagram goes to one address, from one port.\<close>

definition udp_header :: "u16 \<Rightarrow> u16 \<Rightarrow> u8 list \<Rightarrow> u8 list" where
  "udp_header src_port dst_port data =
     bytes16 (bswap16 src_port) @ bytes16 dst_port @ bytes16 (bswap16 (of_nat (8 + length data))) @ [0, 0] @ data"

definition udp_send_msg :: "abi \<Rightarrow> nat \<Rightarrow> msghdr \<Rightarrow> u8 list \<Rightarrow> 'a system_scheme \<Rightarrow> fault + (int \<times> 'a system_scheme)" where
  "udp_send_msg c a hdr data s =
     (case msg_name hdr of None \<Rightarrow> Inr (- ENOSYS c, s)
      | Some addr \<Rightarrow>
        if msg_namelen hdr = 0 \<or> sin_family addr \<noteq> PF_INET c then Inr (- ENOSYS c, s)
        else and_then (live (net_sockets s) a) (\<lambda>k.
          let k = k\<lparr>sk_port := 1337\<rparr>; s = s\<lparr>net_sockets := (net_sockets s)(a \<mapsto> k)\<rparr>
          in and_then (send_ipv4 (udp_header (sk_port k) (sin_port addr) data) (IPPROTO_UDP c)
               (ipv4_address 0 0 0 0) (ipv4_address 192 168 1 254) s) (\<lambda>(res, s).
               if res < 0 then Inr (res, s) else Inr (to_int32 (of_nat (length data)), s))))"

definition icmp_message :: "u8 list \<Rightarrow> u16 \<Rightarrow> u8 list" where
  "icmp_message data checksum = [8, 0] @ bytes16 checksum @ data"

definition icmp_send_msg :: "abi \<Rightarrow> nat \<Rightarrow> msghdr \<Rightarrow> u8 list \<Rightarrow> 'a system_scheme \<Rightarrow> fault + (int \<times> 'a system_scheme)" where
  "icmp_send_msg c a hdr data s =
     (case msg_name hdr of None \<Rightarrow> Inr (- ENOSYS c, s)
      | Some addr \<Rightarrow>
        if msg_namelen hdr = 0 \<or> sin_family addr \<noteq> PF_INET c then Inr (- ENOSYS c, s)
        else and_then (live (net_sockets s) a) (\<lambda>k.
          let s = s\<lparr>net_sockets := (net_sockets s)(a \<mapsto> k\<lparr>sk_port := 1337\<rparr>)\<rparr>;
              checksum = get_checksum (icmp_message data 0)
          in and_then (send_ipv4 (icmp_message data checksum) (IPPROTO_ICMP c) (ipv4_address 0 0 0 0) (sin_addr addr) s)
               (\<lambda>(res, s). if res < 0 then Inr (res, s) else Inr (to_int32 (of_nat (length data)), s))))"

text \<open>
  The next packet of a socket, or the error for an empty one that must not block. After
  blocking, the lock is not taken again before it is released.
\<close>

definition sk_empty :: "packet_queue \<Rightarrow> bool" where
  "sk_empty q = (case q of Udp_Packets b \<Rightarrow> rb_is_empty b | Icmp_Packets b \<Rightarrow> rb_is_empty b)"

definition sk_read :: "packet_queue \<Rightarrow> (udp_packet + nat \<times> nat) option \<times> packet_queue" where
  "sk_read q =
     (case q of Udp_Packets b \<Rightarrow> map_prod (map_option Inl) Udp_Packets (rb_read 64 b)
      | Icmp_Packets b \<Rightarrow> map_prod (map_option Inr) Icmp_Packets (rb_read 64 b))"

datatype 'p received = Would_Block int | Packet 'p

definition next_packet ::
  "abi \<Rightarrow> (registers \<Rightarrow> 'a system_scheme \<Rightarrow> fault + (registers \<times> 'a system_scheme)) \<Rightarrow> nat \<Rightarrow> int \<Rightarrow>
   registers \<Rightarrow> 'a system_scheme \<Rightarrow>
   fault + ((udp_packet + nat \<times> nat) received \<times> registers \<times> 'a system_scheme)" where
  "next_packet c interrupt a flags regs s =
     (let unlock = release (packets_lock a) (packets_lock_update a);
          take_packet = (\<lambda>(regs, s). and_then (live (net_sockets s) a) (\<lambda>k.
            let (p, q) = sk_read (sk_packets k)
            in and_then (non_null p) (\<lambda>p.
                 Inr (Packet p, regs, unlock (s\<lparr>net_sockets := (net_sockets s)(a \<mapsto> k\<lparr>sk_packets := q\<rparr>)\<rparr>)))))
      in and_then (terminating (acquire (packets_lock a) (packets_lock_update a) s)) (\<lambda>s.
           and_then (live (net_sockets s) a) (\<lambda>k.
             if \<not> sk_empty (sk_packets k) then take_packet (regs, s)
             else
               let s = unlock s
               in if flags AND MSG_DONTWAIT c \<noteq> 0 then Inr (Would_Block (- EAGAIN c), regs, s)
                  else if flags AND O_NONBLOCK c \<noteq> 0 then Inr (Would_Block (- EWOULDBLOCK c), regs, s)
                  else and_then (and_then (terminating (block_on interrupt
                    (\<lambda>s. case net_sockets s a of None \<Rightarrow> False | Some k \<Rightarrow> \<not> sk_empty (sk_packets k)) regs s)) id)
                    take_packet)))"

text \<open>
  What \<open>recv_msg\<close> returns: its result, the message header after the call, and the bytes it wrote
  to a buffer of \<open>len\<close> bytes.
\<close>

definition udp_recv_msg ::
  "abi \<Rightarrow> (registers \<Rightarrow> 'a system_scheme \<Rightarrow> fault + (registers \<times> 'a system_scheme)) \<Rightarrow> nat \<Rightarrow> msghdr \<Rightarrow> int \<Rightarrow> u64 \<Rightarrow>
   registers \<Rightarrow> 'a system_scheme \<Rightarrow>
   fault + ((int \<times> msghdr \<times> u8 list) \<times> registers \<times> 'a system_scheme)" where
  "udp_recv_msg c interrupt a hdr flags len regs s =
     and_then (next_packet c interrupt a flags regs s) (\<lambda>(r, regs, s).
       case r of Would_Block e \<Rightarrow> Inr ((e, hdr, []), regs, s)
       | Packet (Inr _) \<Rightarrow> Inl Out_Of_Bounds
       | Packet (Inl p) \<Rightarrow>
         let hdr = (if msg_name hdr \<noteq> None
               then hdr\<lparr>msg_name := Some \<lparr>sin_family = PF_INET c, sin_port = up_src_port p, sin_addr = up_src_ip p\<rparr>,
                 msg_namelen := SOCKADDR_IN_SIZE c\<rparr> else hdr);
             n = min len (up_length p)
         in Inr ((to_int32 n, hdr, take (unat n) (up_data p)), regs, s))"

text \<open>An ICMP packet is read through the pointer into its frame, as many bytes as the buffer has.\<close>

definition icmp_recv_msg ::
  "abi \<Rightarrow> (registers \<Rightarrow> 'a system_scheme \<Rightarrow> fault + (registers \<times> 'a system_scheme)) \<Rightarrow> nat \<Rightarrow> msghdr \<Rightarrow> int \<Rightarrow> u64 \<Rightarrow>
   registers \<Rightarrow> 'a system_scheme \<Rightarrow>
   fault + ((int \<times> msghdr \<times> u8 list) \<times> registers \<times> 'a system_scheme)" where
  "icmp_recv_msg c interrupt a hdr flags len regs s =
     and_then (next_packet c interrupt a flags regs s) (\<lambda>(r, regs, s).
       case r of Would_Block e \<Rightarrow> Inr ((e, hdr, []), regs, s)
       | Packet (Inl _) \<Rightarrow> Inl Out_Of_Bounds
       | Packet (Inr (fr, offset)) \<Rightarrow> and_then (live (frames s) fr) (\<lambda>f.
           if length f < offset + unat len then Inl Out_Of_Bounds
           else Inr ((to_int32 len, hdr, take (unat len) (drop offset f)), regs, s)))"

section \<open>System calls\<close>

text \<open>The task that called.\<close>

definition not_implemented :: "u8 list" where
  "not_implemented = lit ''{red}(socket) Not implemented.''"

definition open_socket :: "packet_queue \<Rightarrow> (nat \<Rightarrow> 'a system_scheme \<Rightarrow> fault + 'a system_scheme) \<Rightarrow> 'a system_scheme \<Rightarrow> fault + (int \<times> 'a system_scheme)" where
  "open_socket q add s =
     (let (a, s) = new_socket q s
      in and_then (add a s) (\<lambda>s. and_then (non_null (current_task s)) (\<lambda>t. add_socket_handle t (Some a) s)))"

text \<open>The packet arrays of a new socket hold what the memory held.\<close>

definition sys_socket ::
  "abi \<Rightarrow> udp_packet list \<Rightarrow> (nat \<times> nat) list \<Rightarrow> int \<Rightarrow> int \<Rightarrow> int \<Rightarrow> 'a system_scheme \<Rightarrow> fault + (int \<times> 'a system_scheme)" where
  "sys_socket c junk_udp junk_icmp family type protocol s =
     (let unsupported = and_then (printf not_implemented [] s) (\<lambda>s. Inr (- ENOSYS c, s))
      in if family = AF_UNIX c then unsupported
         else if family = AF_INET c then
           (if type = SOCK_STREAM c then unsupported
            else if type = SOCK_DGRAM c then
              (if protocol = 0 \<or> protocol = 0x11 then open_socket (Udp_Packets (rb_new junk_udp)) add_udp_socket s
               else unsupported)
            else if type = SOCK_RAW c then
              (if protocol = 1 then open_socket (Icmp_Packets (rb_new junk_icmp)) add_icmp_socket s
               else Inr (- ENOSYS c, s))
            else unsupported)
         else unsupported)"

definition sk_send_msg :: "abi \<Rightarrow> nat \<Rightarrow> msghdr \<Rightarrow> u8 list \<Rightarrow> 'a system_scheme \<Rightarrow> fault + (int \<times> 'a system_scheme)" where
  "sk_send_msg c a hdr data s =
     and_then (live (net_sockets s) a) (\<lambda>k.
       case sk_packets k of Udp_Packets _ \<Rightarrow> udp_send_msg c a hdr data s | Icmp_Packets _ \<Rightarrow> icmp_send_msg c a hdr data s)"

primrec send_each :: "abi \<Rightarrow> nat \<Rightarrow> msghdr \<Rightarrow> u8 list list \<Rightarrow> int \<Rightarrow> 'a system_scheme \<Rightarrow> fault + (int \<times> 'a system_scheme)" where
  "send_each c a hdr [] sent s = Inr (sent, s)"
| "send_each c a hdr (data # iov) sent s =
     and_then (sk_send_msg c a hdr data s) (\<lambda>(res, s).
       if res < 0 then Inr (res, s) else send_each c a hdr iov (wrap_int32 (sent + res)) s)"

definition sys_send_msg :: "abi \<Rightarrow> int \<Rightarrow> msghdr \<Rightarrow> u8 list list \<Rightarrow> 'a system_scheme \<Rightarrow> fault + (int \<times> 'a system_scheme)" where
  "sys_send_msg c sockfd hdr iov s =
     and_then (running_task s) (\<lambda>(t, k). and_then (get_socket_handle k sockfd s) (\<lambda>socket.
       case socket of None \<Rightarrow> Inr (- 1, s) | Some a \<Rightarrow> send_each c a hdr iov 0 s))"

definition sk_recv_msg ::
  "abi \<Rightarrow> (registers \<Rightarrow> 'a system_scheme \<Rightarrow> fault + (registers \<times> 'a system_scheme)) \<Rightarrow> nat \<Rightarrow> msghdr \<Rightarrow> int \<Rightarrow> u64 \<Rightarrow>
   registers \<Rightarrow> 'a system_scheme \<Rightarrow>
   fault + ((int \<times> msghdr \<times> u8 list) \<times> registers \<times> 'a system_scheme)" where
  "sk_recv_msg c interrupt a hdr flags len regs s =
     and_then (live (net_sockets s) a) (\<lambda>k.
       case sk_packets k of Udp_Packets _ \<Rightarrow> udp_recv_msg c interrupt a hdr flags len regs s
       | Icmp_Packets _ \<Rightarrow> icmp_recv_msg c interrupt a hdr flags len regs s)"

text \<open>Each buffer is filled from a packet of its own.\<close>

primrec recv_each ::
  "abi \<Rightarrow> (registers \<Rightarrow> 'a system_scheme \<Rightarrow> fault + (registers \<times> 'a system_scheme)) \<Rightarrow> nat \<Rightarrow> int \<Rightarrow> u64 list \<Rightarrow>
   msghdr \<Rightarrow> u64 \<Rightarrow> u8 list list \<Rightarrow> registers \<Rightarrow> 'a system_scheme \<Rightarrow>
   fault + ((int \<times> msghdr \<times> u8 list list) \<times> registers \<times> 'a system_scheme)" where
  "recv_each c interrupt a flags [] hdr count bufs regs s = Inr ((to_int32 count, hdr, bufs), regs, s)"
| "recv_each c interrupt a flags (len # iov) hdr count bufs regs s =
     and_then (sk_recv_msg c interrupt a hdr flags len regs s) (\<lambda>((res, hdr, data), regs, s).
       if res < 0 then Inr ((res, hdr, bufs), regs, s)
       else recv_each c interrupt a flags iov hdr (count + word_of_int res) (bufs @ [data]) regs s)"

definition sys_recv_msg ::
  "abi \<Rightarrow> (registers \<Rightarrow> 'a system_scheme \<Rightarrow> fault + (registers \<times> 'a system_scheme)) \<Rightarrow> int \<Rightarrow> msghdr \<Rightarrow> u64 list \<Rightarrow> int \<Rightarrow>
   registers \<Rightarrow> 'a system_scheme \<Rightarrow>
   fault + ((int \<times> msghdr \<times> u8 list list) \<times> registers \<times> 'a system_scheme)" where
  "sys_recv_msg c interrupt sockfd hdr iov flags regs s =
     and_then (running_task s) (\<lambda>(t, k). and_then (get_socket_handle k sockfd s) (\<lambda>socket.
       case socket of None \<Rightarrow> Inr ((- 1, hdr, []), regs, s)
       | Some a \<Rightarrow> recv_each c interrupt a flags iov hdr 0 [] regs s))"

definition sys_set_sock_opt :: "int \<Rightarrow> int \<Rightarrow> int \<Rightarrow> u8 list \<Rightarrow> u64 \<Rightarrow> int" where
  "sys_set_sock_opt fd layer number buffer sz = 0"

end
