(* ===== verification/Net_Spec.thy ===== *)
theory Net_Spec
  imports Net Scheduler_Spec
begin

text \<open>
  Datagrams across the network: what \<open>receive_ipv4\<close> makes of a frame that \<open>UdpSocket::send_msg\<close>
  built.
\<close>

section \<open>Frames\<close>

text \<open>The frame of a datagram to \<open>port\<close>.\<close>

definition udp_frame :: "u8 list \<Rightarrow> u16 \<Rightarrow> u8 list \<Rightarrow> u8 list" where
  "udp_frame mac port payload =
     ipv4_frame mac (udp_header 1337 (bswap16 port) payload) 0x11 (ipv4_address 0 0 0 0) (ipv4_address 192 168 1 254)"

lemma udp_send_msg_frame:
  assumes "nic s = Some n" "net_sockets s a = Some k" "msg_name hdr = Some addr" "msg_namelen hdr \<noteq> 0"
    "sin_family addr = PF_INET c" "IPPROTO_UDP c = 0x11" "sin_port addr = bswap16 port"
  shows "udp_send_msg c a hdr payload s =
    and_then (e1000_send (udp_frame (mac_addr n) port payload)
        (s\<lparr>net_sockets := (net_sockets s)(a \<mapsto> k\<lparr>sk_port := 1337\<rparr>)\<rparr>))
      (\<lambda>s. Inr (to_int32 (of_nat (length payload)), s))"
  using assms
  by (simp add: udp_send_msg_def live_def Let_def send_ipv4_def udp_frame_def and_then_def split: sum.splits)

lemma length_header [simp]: "length (ipv4_header n p a b c) = 20"
  by (simp add: ipv4_header_def bytes16_def bytes32_def)

definition header_of :: "nat \<Rightarrow> u16 \<Rightarrow> u8 list" where
  "header_of n checksum = ipv4_header (of_nat (28 + n)) 0x11 (ipv4_address 0 0 0 0) (ipv4_address 192 168 1 254) checksum"

definition ethernet_header :: "u8 list \<Rightarrow> u8 list" where
  "ethernet_header mac = replicate 6 0xff @ mac @ [8, 0]"

text \<open>The frame in its parts, with what the wire adds behind it.\<close>

definition wire_frame :: "u8 list \<Rightarrow> u16 \<Rightarrow> u8 list \<Rightarrow> u8 list \<Rightarrow> u16 \<Rightarrow> u8 list" where
  "wire_frame mac port payload pad checksum =
     ethernet_header mac @ header_of (length payload) checksum @ udp_header 1337 (bswap16 port) payload @ pad"

lemma udp_frame_shape:
  "udp_frame mac port payload @ pad =
    wire_frame mac port payload pad (get_checksum (header_of (length payload) 0))"
proof -
  have "bytes16 (bswap16 0x800) = [8, 0]" by (simp add: bytes16_def bswap16_def)
  moreover have "length (udp_header 1337 (bswap16 port) payload) + 20 = 28 + length payload"
    by (simp add: udp_header_def bytes16_def)
  ultimately show ?thesis
    by (simp add: udp_frame_def ipv4_frame_def Let_def header_of_def wire_frame_def ethernet_header_def del: of_nat_add)
qed

lemma load16_append: "length xs \<le> i \<Longrightarrow> load16 (xs @ ys) i = load16 ys (i - length xs)"
  by (simp add: load16_def nth_append Suc_diff_le)

lemma load32_append: "length xs \<le> i \<Longrightarrow> load32 (xs @ ys) i = load32 ys (i - length xs)"
  by (simp add: load32_def nth_append Suc_diff_le)

lemma load16_front: "load16 (bytes16 w @ ys) 0 = w"
  by (simp add: load16_def bytes16_def)

lemma load32_front: "load32 (bytes32 w @ ys) 0 = w"
  using load32_bytes32 [of w] by (simp add: load32_def bytes32_def)

lemma length_bytes [simp]: "length (bytes16 w) = 2" "length (bytes32 v) = 4"
  by (simp_all add: bytes16_def bytes32_def)

lemma header_of_fields:
  "load16 (header_of n c @ ys) 2 = bswap16 (of_nat (28 + n))" "(header_of n c @ ys) ! 0 = 0x45"
  "(header_of n c @ ys) ! 9 = 0x11" "load16 (header_of n c @ ys) 10 = c" "load32 (header_of n c @ ys) 12 = ipv4_address 0 0 0 0"
  "(header_of n c @ ys)[10 := 0, 11 := 0] = header_of n 0 @ ys" "length (header_of n c) = 20"
proof -
  have h: "header_of n c @ ys = [0x45, 0] @ bytes16 (bswap16 (of_nat (28 + n))) @ [0, 0, 0, 0, 64, 0x11] @ bytes16 c @
      bytes32 (ipv4_address 0 0 0 0) @ bytes32 (ipv4_address 192 168 1 254) @ ys" for c
    by (simp add: header_of_def ipv4_header_def del: of_nat_add)
  show "load16 (header_of n c @ ys) 2 = bswap16 (of_nat (28 + n))"
    unfolding h by (simp add: load16_append load16_front del: of_nat_add append_Cons)
  show "(header_of n c @ ys) ! 0 = 0x45" "(header_of n c @ ys) ! 9 = 0x11" by (simp_all add: h bytes16_def)
  show "load16 (header_of n c @ ys) 10 = c" unfolding h by (simp add: load16_append load16_front load16_def bytes16_def)
  show "load32 (header_of n c @ ys) 12 = ipv4_address 0 0 0 0"
    using load32_bytes32 [of "ipv4_address 0 0 0 0"] unfolding h by (simp add: load32_def bytes16_def bytes32_def)
  show "(header_of n c @ ys)[10 := 0, 11 := 0] = header_of n 0 @ ys" unfolding h by (simp add: bytes16_def)
  show "length (header_of n c) = 20" by (simp add: header_of_def)
qed

lemma wire_frame_fields:
  fixes mac payload pad :: "u8 list" and port c :: u16
  defines "f \<equiv> wire_frame mac port payload pad c"
  assumes mac: "length mac = 6"
  shows "length f = 42 + length payload + length pad" "f ! 14 = 0x45" "f ! 23 = 0x11"
    "load16 f 16 = bswap16 (of_nat (28 + length payload))" "load16 f 24 = c" "load32 f 26 = ipv4_address 0 0 0 0"
    "load16 f 34 = bswap16 1337" "load16 f 36 = bswap16 port" "load16 f 38 = bswap16 (of_nat (8 + length payload))"
    "drop 42 f = payload @ pad" "f[24 := 0, 25 := 0] = wire_frame mac port payload pad 0"
    "take 20 (drop 14 f) = header_of (length payload) c"
proof -
  define E U where "E = ethernet_header mac" and "U = udp_header 1337 (bswap16 port) payload @ pad"
  have E: "length E = 14" using mac by (simp add: E_def ethernet_header_def)
  define H where "H c = header_of (length payload) c" for c
  have f: "f = E @ H c @ U" by (simp add: f_def wire_frame_def E_def U_def H_def)
  have H: "length (H c) = 20" for c by (simp add: H_def header_of_fields)
  note h = header_of_fields [where n = "length payload", folded H_def]
  have U: "U = bytes16 (bswap16 1337) @ bytes16 (bswap16 port) @ bytes16 (bswap16 (of_nat (8 + length payload))) @ [0, 0] @ payload @ pad"
    by (simp add: U_def udp_header_def del: of_nat_add)
  show "length f = 42 + length payload + length pad" by (simp add: f E H U)
  show "f ! 14 = 0x45" "f ! 23 = 0x11" by (simp_all add: f nth_append_right E h)
  show "load16 f 16 = bswap16 (of_nat (28 + length payload))" by (simp add: f load16_append E h del: of_nat_add)
  show "load16 f 24 = c" "load32 f 26 = ipv4_address 0 0 0 0" by (simp_all add: f load16_append load32_append E h)
  show "load16 f 34 = bswap16 1337" by (simp add: f load16_append E H U load16_front del: of_nat_add)
  show "load16 f 36 = bswap16 port" by (simp add: f load16_append E H U load16_front del: of_nat_add)
  show "load16 f 38 = bswap16 (of_nat (8 + length payload))" by (simp add: f load16_append E H U load16_front del: of_nat_add)
  show "drop 42 f = payload @ pad" by (simp add: f E H U)
  have "f[24 := 0, 25 := 0] = E @ (H c @ U)[10 := 0, 11 := 0]" by (simp add: f list_update_append E)
  also have "\<dots> = E @ H 0 @ U" by (simp only: h)
  finally show "f[24 := 0, 25 := 0] = wire_frame mac port payload pad 0" by (simp add: wire_frame_def E_def U_def H_def)
  show "take 20 (drop 14 f) = header_of (length payload) c" by (simp add: f E H) (simp add: H_def)
qed

section \<open>Delivery\<close>

lemma enqueue_free:
  assumes k: "net_sockets s a = Some k" and free: "\<not> locked (sk_lock k)"
  shows "enqueue a p s =
    Inr (s\<lparr>net_sockets := (net_sockets s)(a \<mapsto> k\<lparr>sk_packets := put_packet (sk_packets k) p,
      sk_lock := \<lparr>locked = False, restore_interrupts = interrupts_enabled s\<rparr>\<rparr>)\<rparr>)"
proof -
  let ?s = "disable_interrupts (packets_lock_update a (\<lambda>l. l\<lparr>restore_interrupts := interrupts_enabled s\<rparr>) s)"
  have n: "net_sockets ?s a = Some (k\<lparr>sk_lock := (sk_lock k)\<lparr>restore_interrupts := interrupts_enabled s\<rparr>\<rparr>)"
    by (simp add: packets_lock_update_def disable_interrupts_def k)
  then have "\<not> locked (packets_lock a ?s)" using free by (simp add: packets_lock_def)
  then have "acquire (packets_lock a) (packets_lock_update a) s = Some (packets_lock_update a (\<lambda>l. l\<lparr>locked := True\<rparr>) ?s)"
    unfolding acquire_def Let_def by (subst spin.simps) (simp add: Let_def)
  also have "packets_lock_update a (\<lambda>l. l\<lparr>locked := True\<rparr>) ?s = s\<lparr>rflags := unset_bit 9 (rflags s), net_sockets :=
      (net_sockets s)(a \<mapsto> k\<lparr>sk_lock := \<lparr>locked = True, restore_interrupts = interrupts_enabled s\<rparr>\<rparr>)\<rparr>"
    using k by (cases k; cases "sk_lock k") (simp add: packets_lock_update_def disable_interrupts_def)
  finally have "enqueue a p s = Inr (release (packets_lock a) (packets_lock_update a)
      (s\<lparr>rflags := unset_bit 9 (rflags s), net_sockets := (net_sockets s)(a \<mapsto>
        k\<lparr>sk_lock := \<lparr>locked = True, restore_interrupts = interrupts_enabled s\<rparr>, sk_packets := put_packet (sk_packets k) p\<rparr>)\<rparr>))"
    by (simp add: enqueue_def terminating_def live_def)
  also have "\<dots> = Inr ((if interrupts_enabled s then enable_interrupts else id)
      (s\<lparr>rflags := unset_bit 9 (rflags s), net_sockets := (net_sockets s)(a \<mapsto>
        k\<lparr>sk_lock := \<lparr>locked = False, restore_interrupts = interrupts_enabled s\<rparr>, sk_packets := put_packet (sk_packets k) p\<rparr>)\<rparr>))"
    by (cases k) (simp add: release_def Let_def packets_lock_update_def packets_lock_def)
  also have "\<dots> = Inr (s\<lparr>net_sockets := (net_sockets s)(a \<mapsto>
        k\<lparr>sk_lock := \<lparr>locked = False, restore_interrupts = interrupts_enabled s\<rparr>, sk_packets := put_packet (sk_packets k) p\<rparr>)\<rparr>)"
    by (auto simp: enable_interrupts_def interrupts_enabled_def flags_restored flags_unchanged)
  finally show ?thesis by (cases k) simp
qed

lemma ucast_u16_of_nat: "n < 2 ^ 16 \<Longrightarrow> ucast (of_nat n :: u16) = (of_nat n :: u64)"
  by (simp add: word_unat_eq_iff unsigned_ucast_eq unat_of_nat take_bit_nat_eq_self)

text \<open>
  C26: a frame that \<open>UdpSocket::send_msg\<close> built for a port passes the checks of \<open>receive_ipv4\<close> on
  arrival, the checksum included. When at least 8 bytes follow it on the wire, the socket of
  that port gets one packet more, from the sender's port 1337, and the waiting tasks are woken; but
  the packet holds the payload and the next 8 bytes, because the length of the header is
  counted. When fewer bytes follow, the copy leaves the frame.
\<close>

theorem udp_delivery:
  assumes "length mac = 6" "length payload < 65508" "length pad < 65536"
    and "frames s a = Some (udp_frame mac port payload @ pad)"
    and "get_udp_socket port s = Inr (Some x)" "net_sockets s x = Some k" "sk_packets k = Udp_Packets b" "\<not> locked (sk_lock k)"
  shows "receive_ipv4 a (of_nat (length (udp_frame mac port payload @ pad)) - 14) s =
    (if length pad < 8 then Inl Out_Of_Bounds
     else wake_net (s\<lparr>frames := (frames s)(a \<mapsto> (udp_frame mac port payload @ pad)[24 := 0, 25 := 0]),
       net_sockets := (net_sockets s)(x \<mapsto> k\<lparr>
         sk_packets := Udp_Packets (rb_write 64 \<lparr>up_src_ip = ipv4_address 0 0 0 0, up_src_port = bswap16 1337,
             up_length = of_nat (length payload + 8), up_data = payload @ take 8 pad\<rparr> b),
         sk_lock := \<lparr>locked = False, restore_interrupts = interrupts_enabled s\<rparr>\<rparr>)\<rparr>))"
proof -
  let ?n = "length payload" and ?c = "get_checksum (header_of (length payload) 0)"
  define f f0 where "f = wire_frame mac port payload pad ?c" and "f0 = wire_frame mac port payload pad 0"
  note F = wire_frame_fields [OF assms(1), where payload = payload and pad = pad and port = port]
  note f = F [where c = ?c, folded f_def, folded f0_def] and f0 = F [where c = 0, folded f0_def]
  let ?s = "s\<lparr>frames := (frames s)(a \<mapsto> f0)\<rparr>"
  have fs: "udp_frame mac port payload @ pad = f" by (simp add: f_def udp_frame_shape)
  have len: "ucast (bswap16 (load16 f0 16)) - 20 = (of_nat (8 + ?n) :: u64)"
    "ucast (bswap16 (load16 f0 38)) = (of_nat (8 + ?n) :: u64)"
    using assms(2) unfolding f0 bswap16_bswap16 by (subst ucast_u16_of_nat; simp)+
  have small: "8 + ?n < 2 ^ 64" using assms(2) by simp
  have ge: "\<not> (of_nat (8 + ?n) :: u64) < 8" using small by (simp add: word_less_nat_alt del: of_nat_add)
  have un: "unat (of_nat (8 + ?n) :: u64) = 8 + ?n" using small by (rule unat_of_nat_u64)
  have "receive_ipv4 a (of_nat (length f) - 14) s = receive_udp f0 ?s"
  proof -
    have "(of_nat (length f) - 14 :: u64) = of_nat (28 + ?n + length pad)" by (simp add: f(1))
    moreover have "unat (of_nat (28 + ?n + length pad) :: u64) = 28 + ?n + length pad"
      using assms(2,3) by (intro unat_of_nat_u64) simp
    ultimately have "\<not> (of_nat (length f) - 14 :: u64) < 20" by (simp add: word_less_nat_alt del: of_nat_add)
    moreover have "frames s a = Some f" using assms(4) by (simp add: fs)
    ultimately show ?thesis
      by (simp add: receive_ipv4_def live_def Let_def f f0 drop_bit_eq_div)
  qed
  moreover have "receive_udp f0 ?s = (if length pad < 8 then Inl Out_Of_Bounds
      else and_then (enqueue x (Inl \<lparr>up_src_ip = ipv4_address 0 0 0 0, up_src_port = bswap16 1337,
             up_length = of_nat (8 + ?n), up_data = payload @ take 8 pad\<rparr>) ?s) wake_net)"
  proof -
    have "get_udp_socket (bswap16 (load16 f0 36)) ?s = Inr (Some x)"
      using assms(5) by (simp add: f0 get_udp_socket_def)
    then show ?thesis
      unfolding receive_udp_def Let_def len un by (auto simp: ge f0 simp del: of_nat_add)
  qed
  ultimately show ?thesis
    using assms(6-8) by (auto simp: fs f enqueue_free interrupts_enabled_def put_packet_def add.commute simp del: of_nat_add)
qed

text \<open>A system with one socket, for port 53, a datagram of three bytes in a frame of 60, and no task.\<close>

definition sample_system :: system where
  "sample_system = kernel.extend ((sample_kernel Ready Running)\<lparr>queue := tl_empty\<rparr>)
     (system.fields \<lparr>font = \<lparr>font_bytes = (\<lambda>_. 0), bytesperglyph = 16, font_height = 16, font_width = 8\<rparr>, cursor_y = 0,
         cursor_x = 0, fb_address = None, fb_width = 80, fb_height = 32, pixels = (\<lambda>_. 0)\<rparr>
       \<lparr>locked = False, restore_interrupts = False\<rparr> (\<lambda>_. None) 0 0 \<lparr>kb_buffer = 0, kb_position = 0, modifiers_mask = 0\<rparr>
       [4 \<mapsto> \<lparr>sk_id = 3, sk_port = 53, sk_packets = Udp_Packets (rb_new (replicate 64 \<lparr>up_src_ip = 0, up_src_port = 0,
            up_length = 0, up_data = []\<rparr>)), sk_lock = \<lparr>locked = False, restore_interrupts = False\<rparr>\<rparr>]
       5 \<lparr>dll_nodes = [8 \<mapsto> dll_node 4], dll_head = 8, dll_size = 1\<rparr> dll_empty
       [0 \<mapsto> udp_frame (replicate 6 0x52) 53 [1, 2, 3] @ replicate 15 0] 1 None
       \<lparr>locked = False, restore_interrupts = False\<rparr>)"

lemma sample_system_simps [simp]:
  "frames sample_system = [0 \<mapsto> udp_frame (replicate 6 0x52) 53 [1, 2, 3] @ replicate 15 0]"
  "queue sample_system = tl_empty" "dll_nodes (udp_sockets sample_system) = [8 \<mapsto> dll_node 4]" "dll_head (udp_sockets sample_system) = 8"
  "net_sockets sample_system 4 = Some \<lparr>sk_id = 3, sk_port = 53, sk_packets = Udp_Packets (rb_new (replicate 64
     \<lparr>up_src_ip = 0, up_src_port = 0, up_length = 0, up_data = []\<rparr>)), sk_lock = \<lparr>locked = False, restore_interrupts = False\<rparr>\<rparr>"
  by (simp_all add: sample_system_def sample_kernel_def vmm.defs bus.defs apic.defs kernel.defs system.defs)

lemma rb_write_read_new: "length junk = 64 \<Longrightarrow> fst (rb_read 64 (rb_write 64 p (rb_new junk))) = Some p"
  by (simp add: rb_write_def rb_new_def rb_read_def Let_def)

theorem udp_delivery_witness:
  "\<exists>s' k b. receive_ipv4 0 46 sample_system = Inr s' \<and> net_sockets s' 4 = Some k \<and> sk_packets k = Udp_Packets b \<and>
    map_option up_data (fst (rb_read 64 b)) = Some ([1, 2, 3] @ replicate 8 0)"
proof -
  have len: "length (udp_frame (replicate 6 0x52) 53 [1, 2, 3]) = 45"
    using wire_frame_fields(1) [of "replicate 6 0x52" 53 "[1, 2, 3]" "[]"] udp_frame_shape [of "replicate 6 0x52" 53 "[1, 2, 3]" "[]"]
    by simp
  have "get_udp_socket 53 sample_system = Inr (Some 4)"
    by (simp add: get_udp_socket_def find_socket.simps dll_node_def terminating_def)
  then have r: "receive_ipv4 0 46 sample_system = wake_net (sample_system\<lparr>frames := (frames sample_system)(0 \<mapsto>
        (udp_frame (replicate 6 0x52) 53 [1, 2, 3] @ replicate 15 0)[24 := 0, 25 := 0]),
      net_sockets := (net_sockets sample_system)(4 \<mapsto> the (net_sockets sample_system 4)\<lparr>
        sk_packets := Udp_Packets (rb_write 64 \<lparr>up_src_ip = ipv4_address 0 0 0 0, up_src_port = bswap16 1337, up_length = 11,
            up_data = [1, 2, 3] @ take 8 (replicate 15 0)\<rparr> (rb_new (replicate 64
              \<lparr>up_src_ip = 0, up_src_port = 0, up_length = 0, up_data = []\<rparr>))),
        sk_lock := \<lparr>locked = False, restore_interrupts = interrupts_enabled sample_system\<rparr>\<rparr>)\<rparr>)"
    using udp_delivery [of "replicate 6 0x52" "[1, 2, 3]" "replicate 15 0" sample_system 0 53 4] len by simp
  show ?thesis
    unfolding r by (simp add: wake_net_def wake_each.simps tl_empty_def terminating_def rb_write_read_new)
qed

end
