(* ===== verification/Events_Spec.thy ===== *)
theory Events_Spec
  imports Calls Scheduler_Spec Net_Spec
begin

text \<open>
  From the keyboard to a program: the interrupt handler decodes the scan codes, hands the events to the tasks in
  the queue and wakes them, and a system call reads them.
\<close>

section \<open>Walking over the queue\<close>

lemma wake_each_seg:
  "seg (tl_nodes (queue s)) p xs 0 \<Longrightarrow> \<forall>t \<in> snd ` set xs. tasks s t \<noteq> None \<Longrightarrow> distinct (map snd xs) \<Longrightarrow>
    wake_each f p s = Some (Inr (s\<lparr>tasks := (\<lambda>t. if t \<in> snd ` set xs then map_option f (tasks s t) else tasks s t)\<rparr>))"
proof (induction xs arbitrary: p s)
  case Nil
  then show ?case by (subst wake_each.simps) simp
next
  case (Cons x xs)
  then obtain n k where n: "p \<noteq> 0" "tl_nodes (queue s) p = Some n" "tl_task n = snd x"
    "seg (tl_nodes (queue s)) (tl_next n) xs 0" and k: "tasks s (snd x) = Some k"
    by auto
  let ?s = "s\<lparr>tasks := (tasks s)(snd x \<mapsto> f k)\<rparr>"
  have "wake_each f (tl_next n) ?s = Some (Inr (?s\<lparr>tasks :=
      (\<lambda>t. if t \<in> snd ` set xs then map_option f (tasks ?s t) else tasks ?s t)\<rparr>))"
    by (rule Cons.IH) (use n(4) Cons.prems in auto)
  moreover have "(\<lambda>t. if t \<in> snd ` set xs then map_option f (tasks ?s t) else tasks ?s t) =
      (\<lambda>t. if t \<in> snd ` set (x # xs) then map_option f (tasks s t) else tasks s t)"
    using k Cons.prems(3) by (auto simp: fun_eq_iff)
  ultimately show ?case using n k by (subst wake_each.simps) simp
qed

lemma wake_each_rep:
  assumes "tl_rep (queue s) c" "distinct (cyc_order c)" "\<forall>t \<in> set (cyc_order c). tasks s t \<noteq> None"
  shows "wake_each f (tl_front (queue s)) s =
    Some (Inr (s\<lparr>tasks := (\<lambda>t. if t \<in> set (cyc_order c) then map_option f (tasks s t) else tasks s t)\<rparr>))"
proof -
  obtain xs ys where links: "tl_links (queue s) (xs @ ys)" "map snd xs = fst c" "map snd ys = snd c"
    using assms(1) by (auto simp: tl_rep_def)
  have "snd ` set (xs @ ys) = set (cyc_order c)"
    unfolding cyc_order_def links(2,3) [symmetric] by auto
  moreover have "distinct (map snd (xs @ ys))" using assms(2) by (auto simp: cyc_order_def links(2,3))
  ultimately show ?thesis
    using wake_each_seg [of s "tl_front (queue s)" "xs @ ys" f] links(1) assms(3) by (simp add: tl_links_def)
qed

section \<open>Delivering events\<close>

definition deliver :: "keyboard_event list \<Rightarrow> task \<Rightarrow> task" where
  "deliver es = fold (\<lambda>e k. woken (k\<lparr>events := rb_write 5 e (events k)\<rparr>)) es"

lemma deliver_Nil [simp]: "deliver [] k = k"
  by (simp add: deliver_def)

lemma deliver_append: "deliver (es @ fs) = (\<lambda>k. deliver fs (deliver es k))"
  by (simp add: fun_eq_iff deliver_def)

lemma deliver_fields:
  "deliver es k = k\<lparr>status := (if es \<noteq> [] \<and> status k = WaitingIo then Running else status k),
     events := fold (rb_write 5) es (events k)\<rparr>"
proof (induction es arbitrary: k)
  case (Cons e es)
  let ?k = "woken (k\<lparr>events := rb_write 5 e (events k)\<rparr>)"
  have "deliver (e # es) k = deliver es ?k" by (simp add: deliver_def)
  then show ?case by (simp add: Cons.IH woken_def)
qed simp

definition delivered :: "nat set \<Rightarrow> keyboard_event list \<Rightarrow> (nat \<rightharpoonup> task) \<Rightarrow> nat \<rightharpoonup> task" where
  "delivered T es m = (\<lambda>t. if t \<in> T then map_option (deliver es) (m t) else m t)"

lemma delivered_Nil [simp]: "delivered T [] m = m"
  by (auto simp: delivered_def fun_eq_iff deliver_def option.map_id)

lemma delivered_append: "delivered T fs (delivered T es m) = delivered T (es @ fs) m"
  by (auto simp: delivered_def fun_eq_iff option.map_comp comp_def deliver_append)

lemma delivered_None: "delivered T es m t = None \<longleftrightarrow> m t = None"
  by (simp add: delivered_def)

text \<open>The interrupt of one key.\<close>

definition key_ready :: "registers \<Rightarrow> cyclic \<Rightarrow> 'a system_scheme \<Rightarrow> bool" where
  "key_ready regs c s \<longleftrightarrow> vect_num regs < 256 \<and> irq_table s (vect_num regs) = Some Keyboard_Irq \<and>
     tl_rep (queue s) c \<and> distinct (cyc_order c) \<and> (\<forall>t \<in> set (cyc_order c). tasks s t \<noteq> None)"

definition scancode_at :: "'a bus_scheme \<Rightarrow> u8" where
  "scancode_at s = fst (in_port8 0x60 s)"

lemma key_interrupt:
  assumes "key_ready regs c s"
  defines "kb \<equiv> kb_run [scancode_at s] (keys_down s)"
  shows "\<exists>l. int_dispatch syscall e1000 regs s = Inr (regs, s\<lparr>io_log := l, keys_down := fst kb,
    tasks := delivered (set (cyc_order c)) (snd kb) (tasks s)\<rparr>)"
proof -
  obtain k e where h: "kb_handler (scancode_at s) (keys_down s) = (k, e)" by fastforce
  let ?s = "s\<lparr>io_log := In8 0x60 # io_log s, keys_down := k\<rparr>"
  let ?es = "case e of None \<Rightarrow> [] | Some e \<Rightarrow> [e]"
  have kb: "fst kb = k" "snd kb = ?es" using h by (simp_all add: kb_def split: option.splits)
  have woke: "wake_io x ?s = Inr (?s\<lparr>tasks := delivered (set (cyc_order c)) [x] (tasks s)\<rparr>)" for x
    using wake_each_rep [of ?s c] assms(1)
    by (simp add: key_ready_def wake_io_def terminating_def delivered_def deliver_def cong: if_cong)
  have irq: "keyboard_irq s = Inr (?s\<lparr>tasks := delivered (set (cyc_order c)) ?es (tasks s)\<rparr>)"
  proof (cases e)
    case None
    then show ?thesis using h by (simp add: keyboard_irq_def in_port8_def io_get_def io_do_def scancode_at_def)
  next
    case (Some x)
    then show ?thesis using h woke [of x] by (simp add: keyboard_irq_def in_port8_def io_get_def io_do_def scancode_at_def)
  qed
  show ?thesis
    using assms(1) unfolding key_ready_def kb
    by (intro exI [of _ "Mmio_Write (apic_base_addr s + ucast (lapic_offset Eoi)) 0 # In8 0x60 # io_log s"])
      (simp add: int_dispatch_def run_handler_def irq lapic_write_def mmio_write_def io_do_def not_le)
qed

section \<open>Sequences of keys\<close>

text \<open>The scan codes the controller had for the interrupts are part of the result.\<close>

fun key_interrupts ::
  "(registers \<Rightarrow> 'a system_scheme \<Rightarrow> fault + (registers \<times> 'a system_scheme)) \<Rightarrow>
   ('a system_scheme \<Rightarrow> fault + 'a system_scheme) \<Rightarrow> nat \<Rightarrow> registers \<Rightarrow> 'a system_scheme \<Rightarrow>
   fault + (u8 list \<times> 'a system_scheme)" where
  "key_interrupts syscall e1000 0 regs s = Inr ([], s)"
| "key_interrupts syscall e1000 (Suc n) regs s =
     and_then (int_dispatch syscall e1000 regs s) (\<lambda>(_, s1).
     and_then (key_interrupts syscall e1000 n regs s1) (\<lambda>(cs, s2). Inr (scancode_at s # cs, s2)))"

fun read_keys :: "nat \<Rightarrow> 'a system_scheme \<Rightarrow> fault + (keyboard_event option list \<times> 'a system_scheme)" where
  "read_keys 0 s = Inr ([], s)"
| "read_keys (Suc n) s =
     and_then (sys_get_kb_event s) (\<lambda>(e, s). and_then (read_keys n s) (\<lambda>(es, s). Inr (e # es, s)))"

lemma kb_run_Cons:
  "kb_run (c # cs) k = (fst (kb_run cs (fst (kb_run [c] k))), snd (kb_run [c] k) @ snd (kb_run cs (fst (kb_run [c] k))))"
  by (simp split: prod.splits option.splits)

lemma key_interrupts_deliver:
  assumes "key_ready regs c s"
  shows "\<exists>cs l. key_interrupts syscall e1000 n regs s = Inr (cs, s\<lparr>io_log := l, keys_down := fst (kb_run cs (keys_down s)),
      tasks := delivered (set (cyc_order c)) (snd (kb_run cs (keys_down s))) (tasks s)\<rparr>) \<and>
    length cs = n \<and> (\<forall>x \<in> set cs. \<exists>l. x = ucast (device s (In8 0x60 # l)))"
  using assms
proof (induction n arbitrary: s)
  case 0
  show ?case by (intro exI [of _ "[]"] exI [of _ "io_log s"]) simp
next
  case (Suc n)
  let ?x = "scancode_at s"
  let ?kb = "kb_run [?x] (keys_down s)"
  obtain l where l: "int_dispatch syscall e1000 regs s = Inr (regs, s\<lparr>io_log := l, keys_down := fst ?kb,
      tasks := delivered (set (cyc_order c)) (snd ?kb) (tasks s)\<rparr>)"
    using key_interrupt [OF Suc.prems] by blast
  let ?s = "s\<lparr>io_log := l, keys_down := fst ?kb,
      tasks := delivered (set (cyc_order c)) (snd ?kb) (tasks s)\<rparr>"
  have "key_ready regs c ?s" using Suc.prems by (simp add: key_ready_def delivered_None)
  from Suc.IH [OF this] obtain cs l2 where rest:
    "key_interrupts syscall e1000 n regs ?s = Inr (cs, ?s\<lparr>io_log := l2, keys_down := fst (kb_run cs (fst ?kb)),
      tasks := delivered (set (cyc_order c)) (snd (kb_run cs (fst ?kb))) (tasks ?s)\<rparr>)" "length cs = n" "\<forall>x \<in> set cs. \<exists>l. x = ucast (device s (In8 0x60 # l))"
    by auto
  have twice: "delivered T (snd (kb_run cs (fst ?kb))) (tasks ?s) = delivered T (snd (kb_run (?x # cs) (keys_down s))) (tasks s)"
    if "T = set (cyc_order c)" for T
    unfolding kb_run_Cons [of ?x cs] using that by (simp add: delivered_append del: kb_run.simps)
  have x: "?x = ucast (device s (In8 0x60 # io_log s))" by (simp add: scancode_at_def in_port8_def io_get_def)
  have keys: "fst (kb_run (?x # cs) (keys_down s)) = fst (kb_run cs (fst ?kb))" unfolding kb_run_Cons [of ?x cs] by simp
  let ?s' = "s\<lparr>io_log := l2, keys_down := fst (kb_run (?x # cs) (keys_down s)),
      tasks := delivered (set (cyc_order c)) (snd (kb_run (?x # cs) (keys_down s))) (tasks s)\<rparr>"
  have "key_interrupts syscall e1000 (Suc n) regs s = Inr (?x # cs, ?s')"
    using rest(1) unfolding twice [OF refl] keys by (simp add: l del: kb_run.simps)
  moreover have "length (?x # cs) = Suc n" using rest(2) by simp
  moreover have "\<forall>y \<in> set (?x # cs). \<exists>l. y = ucast (device s (In8 0x60 # l))" using rest(3) x by auto
  ultimately show ?case by blast
qed

text \<open>Reading takes the events from the buffer of the task.\<close>

lemma read_keys_many:
  assumes "current_task s = Some t" "tasks s t = Some k"
  shows "\<exists>s'. read_keys n s = Inr (fst (read_many (rb_read 5) n (events k)), s')"
  using assms
proof (induction n arbitrary: s k)
  case (Suc n)
  obtain e q where q: "rb_read 5 (events k) = (e, q)" by fastforce
  let ?s = "s\<lparr>tasks := (tasks s)(t \<mapsto> k\<lparr>events := q\<rparr>)\<rparr>"
  have "sys_get_kb_event s = Inr (e, ?s)"
    using q by (simp add: sys_get_kb_event_def running_task_eq [OF Suc.prems])
  moreover obtain s' where "read_keys n ?s = Inr (fst (read_many (rb_read 5) n q), s')"
    using Suc.IH [of ?s "k\<lparr>events := q\<rparr>"] Suc.prems by auto
  ultimately show ?case by (simp add: q case_prod_beta)
qed simp

section \<open>Properties\<close>

text \<open>
  C8: Whatever is typed, each task in the queue of the scheduler can read the key events that the scan codes
  decode to, in the order they were typed and after those it had not read before; of more than four it has the
  last four. Its status changes only if it waited for input and an event came: it then runs.
\<close>

theorem key_events_reach_tasks:
  assumes "vect_num regs < 256" and "irq_table s (vect_num regs) = Some Keyboard_Irq"
    and "tl_rep (queue s) c" and "distinct (cyc_order c)" and "\<forall>u \<in> set (cyc_order c). tasks s u \<noteq> None"
    and "t \<in> set (cyc_order c)" and "tasks s t = Some k" and "rb_ok 5 (events k)"
  shows "\<exists>cs s' b. key_interrupts syscall e1000 n regs s = Inr (cs, s') \<and>
    length cs = n \<and> (\<forall>x \<in> set cs. \<exists>l. x = ucast (device s (In8 0x60 # l))) \<and>
    (let es = snd (kb_run cs (keys_down s)); pending = rb_items 5 (events k) @ es;
         kept = drop (length pending - 4) pending
     in keys_down s' = fst (kb_run cs (keys_down s)) \<and> queue s' = queue s \<and>
        tasks s' t = Some (k\<lparr>status := (if es \<noteq> [] \<and> status k = WaitingIo then Running else status k), events := b\<rparr>) \<and>
        (\<exists>s''. read_keys (length kept) (s'\<lparr>current_task := Some t\<rparr>) = Inr (map Some kept, s'')))"
proof -
  have "key_ready regs c s" using assms(1-5) by (simp add: key_ready_def)
  then obtain cs l where cs: "key_interrupts syscall e1000 n regs s = Inr (cs, s\<lparr>io_log := l,
      keys_down := fst (kb_run cs (keys_down s)),
      tasks := delivered (set (cyc_order c)) (snd (kb_run cs (keys_down s))) (tasks s)\<rparr>)"
    "length cs = n" "\<forall>x \<in> set cs. \<exists>l. x = ucast (device s (In8 0x60 # l))"
    using key_interrupts_deliver by blast
  let ?es = "snd (kb_run cs (keys_down s))"
  let ?s' = "s\<lparr>io_log := l, keys_down := fst (kb_run cs (keys_down s)),
      tasks := delivered (set (cyc_order c)) ?es (tasks s)\<rparr>"
  let ?kept = "drop (length (rb_items 5 (events k) @ ?es) - 4) (rb_items 5 (events k) @ ?es)"
  have k': "tasks ?s' t = Some (deliver ?es k)" using assms(6,7) by (simp add: delivered_def)
  have "rb_ok 5 (events (deliver ?es k)) \<and> rb_items 5 (events (deliver ?es k)) = ?kept"
    using rb.puts_items [OF assms(8), of ?es] by (simp add: deliver_fields)
  then have "fst (read_many (rb_read 5) (length ?kept) (events (deliver ?es k))) = map Some ?kept"
    using rb.gets_items [of 5 "events (deliver ?es k)" "length ?kept"] by simp
  moreover have "\<exists>s''. read_keys (length ?kept) (?s'\<lparr>current_task := Some t\<rparr>) =
      Inr (fst (read_many (rb_read 5) (length ?kept) (events (deliver ?es k))), s'')"
    by (rule read_keys_many) (use k' in simp_all)
  ultimately obtain s'' where reads: "read_keys (length ?kept) (?s'\<lparr>current_task := Some t\<rparr>) = Inr (map Some ?kept, s'')"
    by auto
  show ?thesis
    unfolding Let_def
  proof (intro exI conjI)
    show "keys_down ?s' = fst (kb_run cs (keys_down s))" "queue ?s' = queue s" by simp_all
  qed (rule cs k' [unfolded deliver_fields] reads)+
qed

text \<open>Two tasks, one of them waiting, and a key that is held down.\<close>

definition keys_system :: system where
  "keys_system = sample_system\<lparr>queue := two_tasks, device := (\<lambda>_. 0x1e),
     irq_table := [0x21 \<mapsto> Keyboard_Irq], tasks := [1 \<mapsto> sample_task 1 WaitingIo, 2 \<mapsto> sample_task 2 Running],
     keys_down := \<lparr>kb_buffer = 0, kb_position = 0, modifiers_mask = 0\<rparr>\<rparr>"

theorem key_events_reach_tasks_witness:
  "\<exists>cs s' s''. key_interrupts (\<lambda>r s. Inl Null_Pointer) (\<lambda>s. Inl Null_Pointer) 2 (zero_registers\<lparr>vect_num := 0x21\<rparr>) keys_system = Inr (cs, s') \<and>
    map_option status (tasks s' 1) = Some Running \<and>
    read_keys 2 (s'\<lparr>current_task := Some 1\<rparr>) =
      Inr (replicate 2 (Some \<lparr>ev_key = 0x1e, ev_ascii = 0x61, ev_pressed = True\<rparr>), s'')"
proof -
  let ?s = keys_system and ?r = "zero_registers\<lparr>vect_num := 0x21\<rparr>"
  let ?e = "\<lparr>ev_key = 0x1e, ev_ascii = 0x61, ev_pressed = True\<rparr>"
  have "kb_idle (keys_down ?s)" "kb_mods (keys_down ?s) = (False, False)"
    by (simp_all add: keys_system_def kb_idle_def kb_mods_def shift_pressed_def caps_lock_on_def)
  from kb_run_steps [OF this(1), of "[0x1e, 0x1e]"] this(2)
  have "snd (kb_run [0x1e, 0x1e] (keys_down ?s)) = snd (step_run [0x1e, 0x1e] (False, False))" by (metis snd_conv)
  also have "\<dots> = [?e, ?e]"
    by (simp add: kb_step_def Let_def code_to_key_def keys_def LeftShift_def CapsLock_def Invalid_def)
  finally have es: "snd (kb_run [0x1e, 0x1e] (keys_down ?s)) = [?e, ?e]" .
  have k: "events (sample_task 1 WaitingIo) = rb_new (replicate 5 \<lparr>ev_key = 0, ev_ascii = 0, ev_pressed = False\<rparr>)"
    by (simp add: sample_task_def)
  have empty: "rb_ok 5 (events (sample_task 1 WaitingIo))" "rb_items 5 (events (sample_task 1 WaitingIo)) = []"
    by (simp_all add: k rb_ok_def rb_new_def rb_items_def rb_count_def)
  have "vect_num ?r < 256" "irq_table ?s (vect_num ?r) = Some Keyboard_Irq" "tl_rep (queue ?s) ([1], [2])"
    "distinct (cyc_order ([1], [2]))" "\<forall>u \<in> set (cyc_order ([1], [2])). tasks ?s u \<noteq> None"
    "1 \<in> set (cyc_order ([1], [2]))" "tasks ?s 1 = Some (sample_task 1 WaitingIo)"
    using two_tasks_rep by (simp_all add: keys_system_def cyc_order_def)
  from key_events_reach_tasks [OF this empty(1), of "\<lambda>r s. Inl Null_Pointer" "\<lambda>s. Inl Null_Pointer" 2]
  obtain cs s' b where *: "key_interrupts (\<lambda>r s. Inl Null_Pointer) (\<lambda>s. Inl Null_Pointer) 2 ?r ?s = Inr (cs, s')"
    "length cs = 2" "\<forall>x \<in> set cs. \<exists>l. x = ucast (device ?s (In8 0x60 # l))"
    and body: "let es = snd (kb_run cs (keys_down ?s)); pending = rb_items 5 (events (sample_task 1 WaitingIo)) @ es;
         kept = drop (length pending - 4) pending
     in keys_down s' = fst (kb_run cs (keys_down ?s)) \<and> queue s' = queue ?s \<and>
        tasks s' 1 = Some ((sample_task 1 WaitingIo)\<lparr>status := (if es \<noteq> [] \<and> status (sample_task 1 WaitingIo) = WaitingIo
          then Running else status (sample_task 1 WaitingIo)), events := b\<rparr>) \<and>
        (\<exists>s''. read_keys (length kept) (s'\<lparr>current_task := Some 1\<rparr>) = Inr (map Some kept, s''))"
    by (elim exE conjE) blast
  have "x = 0x1e" if "x \<in> set cs" for x using *(3) that by (auto simp: keys_system_def)
  then have cs: "cs = [0x1e, 0x1e]" using *(2) by (auto simp: numeral_2_eq_2 length_Suc_conv)
  have two: "drop (length ([] @ [?e, ?e]) - 4) ([] @ [?e, ?e]) = [?e, ?e]" "length [?e, ?e] = 2" by simp_all
  have "map_option status (tasks s' 1) = Some Running" "\<exists>s''. read_keys 2 (s'\<lparr>current_task := Some 1\<rparr>) = Inr ([Some ?e, Some ?e], s'')"
    using body [unfolded cs es Let_def empty(2) two] by (simp_all del: read_keys.simps)
  with *(1) show ?thesis by (auto simp: numeral_2_eq_2)
qed

end
