(* ===== verification/Terminal_Spec.thy ===== *)
theory Terminal_Spec
  imports Terminal
begin

text \<open>
  Where the terminal draws: text stays inside the frame buffer as long as the cursor does not
  get ahead of the scrolling.
\<close>

section \<open>Drawing a character\<close>

text \<open>The screen in characters, and the sizes for which pixel numbers do not overflow.\<close>

definition columns :: "terminal \<Rightarrow> nat" where
  "columns t = unat (fb_width t) div unat (font_width (font t))"

definition rows :: "terminal \<Rightarrow> nat" where
  "rows t = unat (fb_height t) div unat (font_height (font t))"

definition screen_ok :: "terminal \<Rightarrow> bool" where
  "screen_ok t \<longleftrightarrow> 0 < columns t \<and> 0 < rows t \<and> 4 * (unat (fb_width t) * unat (fb_height t)) < 2 ^ 32"

text \<open>The same terminal with other pixels, at most those of \<open>P\<close> changed.\<close>

definition redrawn :: "u64 set \<Rightarrow> terminal \<Rightarrow> terminal \<Rightarrow> bool" where
  "redrawn P t t' \<longleftrightarrow> t' = t\<lparr>pixels := pixels t'\<rparr> \<and> (\<forall>p. p \<notin> P \<longrightarrow> pixels t' p = pixels t p)"

lemma redrawn_refl [simp]: "redrawn P t t"
  by (simp add: redrawn_def)

lemma redrawn_trans: "redrawn P s t \<Longrightarrow> redrawn P t u \<Longrightarrow> redrawn P s u"
  unfolding redrawn_def by (metis terminal.update_convs(7) terminal.surjective)

lemma redrawn_fields:
  assumes "redrawn P t t'"
  shows "font t' = font t" "fb_width t' = fb_width t" "fb_height t' = fb_height t"
    "columns t' = columns t" "rows t' = rows t" "screen_ok t' = screen_ok t"
proof -
  have t': "t' = t\<lparr>pixels := pixels t'\<rparr>" using assms by (simp add: redrawn_def)
  show "font t' = font t" "fb_width t' = fb_width t" "fb_height t' = fb_height t"
    by (subst t', simp)+
  then show "columns t' = columns t" "rows t' = rows t" "screen_ok t' = screen_ok t"
    by (simp_all add: columns_def rows_def screen_ok_def)
qed

lemma redrawn_fold:
  "(\<And>x t'. x \<in> set xs \<Longrightarrow> redrawn P t t' \<Longrightarrow> redrawn P t' (f x t')) \<Longrightarrow> redrawn P t (fold f xs t)"
proof (induction xs rule: rev_induct)
  case (snoc x xs)
  then have "redrawn P t (fold f xs t)" by simp
  with snoc.prems [of x "fold f xs t"] show ?case by (auto intro: redrawn_trans)
qed simp

lemma put_char_redrawn:
  assumes "\<And>i j. i < unat (font_height (font t)) \<Longrightarrow> j < unat (font_width (font t)) \<Longrightarrow>
      ucast (pixel_index t cy cx (of_nat i) (of_nat j)) \<in> P"
  shows "redrawn P t (put_char c cy cx fg bg t)"
  unfolding put_char_def
proof (intro redrawn_fold)
  fix i j t1 t2
  assume i: "i \<in> set [0..<unat (font_height (font t))]" and t1: "redrawn P t t1"
    and j: "j \<in> set [0..<unat (font_width (font t))]" and t2: "redrawn P t1 t2"
  have "redrawn P t t2" by (rule redrawn_trans [OF t1 t2])
  from redrawn_fields [OF this] have "pixel_index t2 cy cx (of_nat i) (of_nat j) = pixel_index t cy cx (of_nat i) (of_nat j)"
    by (simp add: pixel_index_def)
  then have "ucast (pixel_index t2 cy cx (of_nat i) (of_nat j)) \<in> P" using assms i j by simp
  then show "redrawn P t2 (t2\<lparr>pixels := (pixels t2)(ucast (pixel_index t2 cy cx (of_nat i) (of_nat j)) :=
         pixel_color t2 c (of_nat i) (of_nat j) fg bg)\<rparr>)" by (auto simp: redrawn_def)
qed

lemma unat_ucast_u32: "unat (w :: u64) < 2 ^ 32 \<Longrightarrow> unat (ucast w :: u32) = unat w"
  by (simp add: unsigned_ucast_eq take_bit_nat_eq_self)

lemma unat_ucast_u64 [simp]: "unat (ucast (w :: u32) :: u64) = unat w"
  using unsigned_less [of w, where 'a = nat] by (simp add: unsigned_ucast_eq take_bit_nat_eq_self)

lemma unat_of_nat_u32: "k < 2 ^ 32 \<Longrightarrow> unat (of_nat k :: u32) = k"
  by (simp add: unat_of_nat take_bit_nat_eq_self)

lemma unat_pixel:
  fixes a b :: u32 and w :: u64
  assumes "unat a + unat w * unat b < 2 ^ 32"
  shows "unat (ucast (ucast a + w * ucast b) :: u32) = unat a + unat w * unat b"
proof -
  have "unat w * unat b < 2 ^ 64" "unat a + unat w * unat b < 2 ^ 64" using assms by simp_all
  then have "unat (ucast a + w * ucast b :: u64) = unat a + unat w * unat b" by (simp add: unat_word_ariths)
  then show ?thesis using assms by (simp add: unat_ucast_u32)
qed

text \<open>A character inside the screen has its pixels inside the frame buffer.\<close>

lemma pixel_in_buffer:
  assumes "screen_ok t" "unat cy < rows t" "unat cx < columns t"
    and "i < unat (font_height (font t))" "j < unat (font_width (font t))"
  shows "unat (pixel_index t cy cx (of_nat i) (of_nat j)) < unat (fb_width t) * unat (fb_height t)"
proof -
  let ?W = "unat (fb_width t)" and ?H = "unat (fb_height t)"
  let ?fw = "unat (font_width (font t))" and ?fh = "unat (font_height (font t))"
  have "4 * (?W * ?H) < 2 ^ 32" using assms(1) unfolding screen_ok_def by blast
  then have small: "?W * ?H < 2 ^ 32" by linarith
  have "0 < ?W" "0 < ?H" using assms(1) by (auto simp: screen_ok_def columns_def rows_def intro: Nat.gr0I)
  then have WH: "?W \<le> ?W * ?H" "?H \<le> ?W * ?H" by simp_all
  have "Suc (unat cx) * ?fw \<le> columns t * ?fw" using assms(3) by (intro mult_le_mono1) simp
  also have "\<dots> \<le> ?W" by (simp add: columns_def)
  finally have x: "unat cx * ?fw + j < ?W" using assms(5) by simp
  have "Suc (unat cy) * ?fh \<le> rows t * ?fh" using assms(2) by (intro mult_le_mono1) simp
  also have "\<dots> \<le> ?H" by (simp add: rows_def)
  finally have y: "i + unat cy * ?fh < ?H" using assms(4) by simp
  have "unat cx \<le> unat cx * ?fw" "unat cy \<le> unat cy * ?fh" using assms(4,5) by simp_all
  then have c32: "unat cx < 2 ^ 32" "unat cy < 2 ^ 32" "i < 2 ^ 32" "j < 2 ^ 32" using x y WH small by linarith+
  have xb: "unat cx * ?fw + j < 2 ^ 32" "unat cx * ?fw < 2 ^ 32" using x WH small by linarith+
  have yb: "i + unat cy * ?fh < 2 ^ 32" "unat cy * ?fh < 2 ^ 32" using y WH small by linarith+
  have ux: "unat (ucast cx * font_width (font t) + of_nat j :: u32) = unat cx * ?fw + j"
    using xb c32 by (simp add: unat_word_ariths unat_ucast_u32 unat_of_nat_u32)
  have uy: "unat (of_nat i + ucast cy * font_height (font t) :: u32) = i + unat cy * ?fh"
    using yb c32 by (simp add: unat_word_ariths unat_ucast_u32 unat_of_nat_u32)
  have "?W * Suc (i + unat cy * ?fh) \<le> ?W * ?H" using y by (intro mult_le_mono2) simp
  then have all: "unat cx * ?fw + j + ?W * (i + unat cy * ?fh) < ?W * ?H" using x by simp
  have "unat (pixel_index t cy cx (of_nat i) (of_nat j)) = unat cx * ?fw + j + ?W * (i + unat cy * ?fh)"
    unfolding pixel_index_def ux [symmetric] uy [symmetric]
    by (rule unat_pixel) (use all small in \<open>simp only: ux uy\<close>)
  then show ?thesis using all by simp
qed

section \<open>Writing text\<close>

definition in_buffer :: "terminal \<Rightarrow> u64 set" where
  "in_buffer t = {p. unat p < unat (fb_width t) * unat (fb_height t)}"

text \<open>The cursor is on the screen, or at the start of the line below it.\<close>

definition position_ok :: "terminal \<Rightarrow> u64 \<Rightarrow> u64 \<Rightarrow> bool" where
  "position_ok t y x \<longleftrightarrow> unat y < rows t \<and> unat x \<le> columns t \<or> unat y = rows t \<and> x = 0"

lemma redrawn_buffer: "redrawn P t t' \<Longrightarrow> in_buffer t' = in_buffer t"
  by (simp add: in_buffer_def redrawn_fields)

lemma screen_dims: "screen_ok t \<Longrightarrow> 0 < unat (fb_width t) \<and> 0 < unat (fb_height t)"
  by (auto simp: screen_ok_def columns_def rows_def intro: Nat.gr0I)

lemma scroll_redrawn:
  assumes "screen_ok t"
  shows "redrawn (in_buffer t) t (scroll t)"
proof -
  let ?W = "unat (fb_width t)" and ?H = "unat (fb_height t)"
  have d: "0 < ?W" "0 < ?H" "4 * (?W * ?H) < 2 ^ 32" using assms screen_dims by (auto simp: screen_ok_def)
  have W: "4 * ?W \<le> 4 * (?W * ?H)" using d by simp
  then have W32: "4 * ?W < 2 ^ 32" using d(3) by (rule le_less_trans)
  then have W4: "unat (fb_width t * 4) = 4 * ?W" by (simp add: unat_word_ariths)
  then have line: "unat (ucast (fb_width t * 4) :: u32) = 4 * ?W"
    using unat_ucast_u32 [of "fb_width t * 4"] W32 by simp
  have H: "unat (fb_height t - 1) = ?H - 1" using d(2) by (simp add: unat_minus_one unat_gt_0)
  have le: "(?H - 1) * (4 * ?W) \<le> 4 * (?W * ?H)" by (simp add: algebra_simps)
  then have b32: "(?H - 1) * (4 * ?W) < 2 ^ 32" using d(3) by (rule le_less_trans)
  then have b64: "(?H - 1) * (4 * ?W) < 2 ^ 64" by (rule less_trans) simp
  have "unat ((fb_height t - 1) * ucast (ucast (fb_width t * 4) :: u32)) = (?H - 1) * (4 * ?W)"
    unfolding unat_word_ariths(2) unat_ucast_u64 line H using b64 by simp
  then have size: "unat (ucast ((fb_height t - 1) * ucast (ucast (fb_width t * 4) :: u32)) :: u32) = (?H - 1) * (4 * ?W)"
    using unat_ucast_u32 [of "(fb_height t - 1) * ucast (ucast (fb_width t * 4) :: u32)"] b32 by argo
  have "p \<in> in_buffer t" if "p < ucast (ucast ((fb_height t - 1) * ucast (ucast (fb_width t * 4) :: u32)) :: u32) div 4" for p
  proof -
    have "unat p < (?H - 1) * (4 * ?W) div 4" using that by (simp add: word_less_nat_alt unat_div size)
    also have "\<dots> = (?H - 1) * ?W" by simp
    also have "\<dots> \<le> ?W * ?H" by (simp add: algebra_simps)
    finally show ?thesis by (simp add: in_buffer_def)
  qed
  then show ?thesis by (auto simp: redrawn_def scroll_def Let_def)
qed

lemma put_at_in_bounds:
  assumes "screen_ok t" "position_ok t y x" "put_at c fg bg (y, x, t) = (y', x', t')"
  shows "redrawn (in_buffer t) t t' \<and> position_ok t' y' x'"
proof -
  define yx where "yx = (if x \<ge> fb_width t div ucast (font_width (font t)) then (y + 1, 0 :: u64) else (y, x))"
  have rows: "unat (fb_height t div ucast (font_height (font t))) = rows t"
    and cols: "unat (fb_width t div ucast (font_width (font t))) = columns t"
    by (simp_all add: rows_def columns_def unat_div)
  have r64: "rows t < 2 ^ 64" using unsigned_less [of "fb_height t div ucast (font_height (font t))", where 'a = nat] by (simp add: rows)
  have pos: "0 < rows t" "0 < columns t" using assms(1) by (simp_all add: screen_ok_def)
  have yx1: "unat (snd yx) < columns t" "unat (fst yx) \<le> rows t"
  proof -
    have "unat (snd yx) < columns t \<and> unat (fst yx) \<le> rows t"
    proof (cases "x \<ge> fb_width t div ucast (font_width (font t))")
      case True
      then have "x \<noteq> 0" "unat y < rows t"
        using assms(2) pos cols by (auto simp: position_ok_def word_le_nat_alt)
      moreover from this have "unat (y + 1) = unat y + 1" using r64 by (simp add: unat_word_ariths)
      ultimately show ?thesis using True pos by (simp add: yx_def)
    next
      case False
      then show ?thesis using assms(2) cols by (auto simp: yx_def position_ok_def word_le_nat_alt)
    qed
    then show "unat (snd yx) < columns t" "unat (fst yx) \<le> rows t" by simp_all
  qed
  define yt where "yt = (if fst yx \<ge> fb_height t div ucast (font_height (font t)) then (fst yx - 1, scroll t) else (fst yx, t))"
  have yt1: "unat (fst yt) < rows t" "redrawn (in_buffer t) t (snd yt)"
  proof -
    have "unat (fst yt) < rows t \<and> redrawn (in_buffer t) t (snd yt)"
    proof (cases "fst yx \<ge> fb_height t div ucast (font_height (font t))")
      case True
      then have y: "unat (fst yx) = rows t" using yx1(2) rows by (simp add: word_le_nat_alt)
      then have "unat (fst yx - 1) = rows t - 1" using pos(1) by (subst unat_minus_one) auto
      then show ?thesis using True pos scroll_redrawn [OF assms(1)] by (simp add: yt_def)
    next
      case False
      then show ?thesis using rows by (simp add: yt_def word_le_nat_alt)
    qed
    then show "unat (fst yt) < rows t" "redrawn (in_buffer t) t (snd yt)" by simp_all
  qed
  have r: "y' = fst yt" "x' = snd yx + 1" "t' = put_char c (fst yt) (snd yx) fg bg (snd yt)"
    using assms(3) by (auto simp: put_at_def Let_def yx_def yt_def split: if_splits)
  note same = redrawn_fields [OF yt1(2)]
  have "redrawn (in_buffer t) (snd yt) t'"
    unfolding r(3)
  proof (rule put_char_redrawn)
    fix i j assume "i < unat (font_height (font (snd yt)))" "j < unat (font_width (font (snd yt)))"
    then show "ucast (pixel_index (snd yt) (fst yt) (snd yx) (of_nat i) (of_nat j)) \<in> in_buffer t"
      using pixel_in_buffer [of "snd yt" "fst yt" "snd yx" i j] yt1(1) yx1(1) assms(1) by (simp add: same in_buffer_def)
  qed
  then have all: "redrawn (in_buffer t) t t'" by (rule redrawn_trans [OF yt1(2)])
  have c64: "columns t < 2 ^ 64"
    using unsigned_less [of "fb_width t div ucast (font_width (font t))", where 'a = nat] by (simp add: cols)
  then have "unat x' \<le> columns t" using yx1(1) r(2) by (simp add: unat_word_ariths)
  then show ?thesis using all yt1(1) r(1) redrawn_fields [OF all] by (simp add: position_ok_def)
qed

text \<open>
  C28: on a screen of at least one row and column, text without line breaks and colour codes
  that is written from a position of the screen changes pixels of the frame buffer only, and
  leaves the cursor at such a position, whatever the length of the text: the lines wrap, and the
  screen scrolls when they reach the bottom.
\<close>

theorem terminal_text_in_bounds:
  assumes "screen_ok t" "position_ok t y x" "set str \<inter> {0, 0x0a, 0x7b} = {}" "0 \<le> i"
  shows "\<exists>y' x' t'. puts_loop str i (- 1) color bg (y, x, t) = Inr (y', x', t') \<and>
    redrawn (in_buffer t) t t' \<and> position_ok t' y' x'"
  using assms
proof (induction str arbitrary: i t y x)
  case Nil
  then show ?case by (simp add: puts_loop.simps)
next
  case (Cons c cs)
  obtain y1 x1 t1 where p: "put_at c color bg (y, x, t) = (y1, x1, t1)" by (metis prod_cases3)
  from put_at_in_bounds [OF Cons.prems(1,2) this]
  have t1: "redrawn (in_buffer t) t t1" "position_ok t1 y1 x1" by simp_all
  have "puts_loop (c # cs) i (- 1) color bg (y, x, t) = puts_loop cs (i + 1) (- 1) color bg (y1, x1, t1)"
    using Cons.prems(3,4) by (subst puts_loop.simps) (simp add: p)
  moreover obtain y' x' t' where "puts_loop cs (i + 1) (- 1) color bg (y1, x1, t1) = Inr (y', x', t')"
    "redrawn (in_buffer t1) t1 t'" "position_ok t' y' x'"
    using Cons.IH [of t1 y1 x1 "i + 1"] Cons.prems t1 redrawn_fields(6) [OF t1(1)] by auto
  ultimately show ?case using redrawn_trans [OF t1(1)] redrawn_buffer [OF t1(1)] by auto
qed

definition tiny_terminal :: terminal where
  "tiny_terminal =
     \<lparr>font = \<lparr>font_bytes = (\<lambda>_. 0xff), bytesperglyph = 2, font_height = 2, font_width = 2\<rparr>,
      cursor_y = 0, cursor_x = 0, fb_address = None, fb_width = 4, fb_height = 2, pixels = (\<lambda>_. 0)\<rparr>"

theorem terminal_text_in_bounds_witness:
  "\<exists>y' x' t'. puts_loop [0x61, 0x62, 0x63] 0 (- 1) WHITE RED (0, 1, tiny_terminal) = Inr (y', x', t') \<and>
    redrawn (in_buffer tiny_terminal) tiny_terminal t' \<and> position_ok t' y' x'"
  by (rule terminal_text_in_bounds)
    (simp_all add: tiny_terminal_def screen_ok_def position_ok_def columns_def rows_def)

end
