(* ===== verification/E1000_Spec.thy ===== *)
theory E1000_Spec
  imports E1000 Events_Spec
begin

text \<open>
  Receiving: the interrupt handler of the network card takes the frames that the card has put into the ring,
  one descriptor after the other, copies them into the cache and gives the descriptors back.
\<close>

section \<open>What the card does\<close>

text \<open>
  The tail register is read back as it was written last. The descriptors behind the tail hold frames up to
  the first one that is not marked done; the head register is not reached before.
\<close>

definition tail_register :: "nic \<Rightarrow> u64" where
  "tail_register n = nic_mmio n + 4 * (RDT_REGISTER div 4)"

definition head_register :: "nic \<Rightarrow> u64" where
  "head_register n = nic_mmio n + 4 * (RDH_REGISTER div 4)"

fun last_written :: "u64 \<Rightarrow> io_event list \<Rightarrow> u32 option" where
  "last_written a [] = None"
| "last_written a (Mmio_Write b v # es) = (if b = a then Some v else last_written a es)"
| "last_written a (_ # es) = last_written a es"

definition ring_index :: "nat \<Rightarrow> nat \<Rightarrow> u64" where
  "ring_index t i = of_nat ((t + i) mod 256)"

definition descriptor :: "nic \<Rightarrow> u64 \<Rightarrow> u64" where
  "descriptor n j = rx_descriptors n + 16 * j"

definition frame_done :: "memory \<Rightarrow> nic \<Rightarrow> u64 \<Rightarrow> bool" where
  "frame_done m n j \<longleftrightarrow> rx_status m (descriptor n j) AND 1 \<noteq> 0"

definition frame_fits :: "memory \<Rightarrow> nic \<Rightarrow> u64 \<Rightarrow> bool" where
  "frame_fits m n j \<longleftrightarrow> rx_length m (descriptor n j) \<le> MAX_ETHERNET_FRAME_SIZE"

definition frame_bytes :: "'a machine_scheme \<Rightarrow> nic \<Rightarrow> u64 \<Rightarrow> u8 list" where
  "frame_bytes s n j = bytes_at (mem s) (PHYS_TO_VIRT s (rx_addr (mem s) (descriptor n j)))
     (unat (rx_length (mem s) (descriptor n j)))"

definition card_has :: "nat \<Rightarrow> nat \<Rightarrow> nic \<Rightarrow> 'a system_scheme \<Rightarrow> bool" where
  "card_has t m n s \<longleftrightarrow> last_written (tail_register n) (io_log s) = Some (of_nat (t mod 256)) \<and>
     (\<forall>es v. last_written (tail_register n) es = Some v \<longrightarrow> ucast (device s (Mmio_Read (tail_register n) # es)) = v) \<and>
     (\<forall>es. \<forall>i \<le> m. (ucast (device s (Mmio_Read (head_register n) # es)) :: u32) \<noteq> of_nat ((t + i) mod 256)) \<and>
     (\<forall>i < m. frame_done (mem s) n (ring_index t (Suc i))) \<and> \<not> frame_done (mem s) n (ring_index t (Suc m))"

text \<open>The frames that fit, in the order of the ring.\<close>

definition card_frames :: "nat \<Rightarrow> nat \<Rightarrow> nic \<Rightarrow> 'a system_scheme \<Rightarrow> u8 list list" where
  "card_frames t m n s = map (frame_bytes s n) (filter (frame_fits (mem s) n) (map (\<lambda>i. ring_index t (Suc i)) [0..<m]))"

section \<open>The handler\<close>

lemma nic_read_eq:
  "nic_read n (ucast RDT_REGISTER) s = (ucast (device s (Mmio_Read (tail_register n) # io_log s)),
     s\<lparr>io_log := Mmio_Read (tail_register n) # io_log s\<rparr>)"
  "nic_read n (ucast RDH_REGISTER) s = (ucast (device s (Mmio_Read (head_register n) # io_log s)),
     s\<lparr>io_log := Mmio_Read (head_register n) # io_log s\<rparr>)"
  by (simp_all add: nic_read_def mmio_read_def io_get_def io_do_def tail_register_def head_register_def RDT_REGISTER_def RDH_REGISTER_def)

lemma nic_write_tail:
  "nic_write n RDT_REGISTER v s = s\<lparr>io_log := Mmio_Write (tail_register n) v # io_log s\<rparr>"
  by (simp add: nic_write_def mmio_write_def io_do_def tail_register_def)

lemma tail_register_same [simp]: "tail_register (n\<lparr>rx_tail := i\<rparr>) = tail_register n" "tail_register (n\<lparr>nic_cache := b\<rparr>) = tail_register n"
  by (simp_all add: tail_register_def)

definition queue_ok :: "cyclic \<Rightarrow> 'a kernel_scheme \<Rightarrow> bool" where
  "queue_ok c s \<longleftrightarrow> tl_rep (queue s) c \<and> distinct (cyc_order c) \<and> (\<forall>t \<in> set (cyc_order c). tasks s t \<noteq> None)"

definition woken_tasks :: "cyclic \<Rightarrow> (nat \<rightharpoonup> task) \<Rightarrow> nat \<rightharpoonup> task" where
  "woken_tasks c m = (\<lambda>t. if t \<in> set (cyc_order c) then map_option woken (m t) else m t)"

lemma woken_idem [simp]: "woken (woken k) = woken k"
  by (simp add: woken_def)

lemma woken_tasks_idem [simp]: "woken_tasks c (woken_tasks c m) = woken_tasks c m"
  by (simp add: woken_tasks_def fun_eq_iff option.map_comp comp_def)

lemma wake_net_eq: "queue_ok c s \<Longrightarrow> wake_net s = Inr (s\<lparr>tasks := woken_tasks c (tasks s)\<rparr>)"
  using wake_each_rep [of s c woken] by (simp add: queue_ok_def wake_net_def terminating_def woken_tasks_def)

text \<open>The objects of the new frames.\<close>

primrec add_frames :: "nat \<Rightarrow> u8 list list \<Rightarrow> (nat \<rightharpoonup> u8 list) \<Rightarrow> nat \<rightharpoonup> u8 list" where
  "add_frames a [] m = m"
| "add_frames a (f # fs) m = add_frames (Suc a) fs (m(a \<mapsto> f))"

lemma add_frames_apply:
  "add_frames a fs m b = (if a \<le> b \<and> b < a + length fs then Some (fs ! (b - a)) else m b)"
  by (induction fs arbitrary: a m) (auto simp: nth_Cons' Suc_diff_le)

definition received :: "cyclic \<Rightarrow> u8 list list \<Rightarrow> u64 \<Rightarrow> nic \<Rightarrow> io_event list \<Rightarrow> 'a system_scheme \<Rightarrow> 'a system_scheme" where
  "received c fs tail n l s = s\<lparr>io_log := l, tasks := (if fs = [] then tasks s else woken_tasks c (tasks s)),
     frames := add_frames (next_frame s) fs (frames s), next_frame := next_frame s + length fs,
     nic := Some (n\<lparr>nic_cache := fold (rb_write 64) [next_frame s..<next_frame s + length fs] (nic_cache n), rx_tail := tail\<rparr>)\<rparr>"

lemma ring_index_Suc: "ring_index (Suc t) i = ring_index t (Suc i)"
  by (simp add: ring_index_def)

lemma unat_small: "i < 256 \<Longrightarrow> unat (of_nat i :: u64) = i" "i < 256 \<Longrightarrow> unat (of_nat i :: u32) = i"
  by (simp_all add: unat_of_nat take_bit_nat_eq_self)

lemma next_tail: "(ucast (of_nat (t mod 256) :: u32) + 1) mod NUM_RX_DESCS = ring_index t (Suc 0)"
proof -
  have "unat (ucast (of_nat (t mod 256) :: u32) + 1 :: u64) = Suc (t mod 256)"
  proof -
    have "(ucast (of_nat (t mod 256) :: u32) :: u64) = of_nat (t mod 256)"
      by (simp add: word_unat_eq_iff unsigned_ucast_eq unat_small take_bit_nat_eq_self)
    moreover have "Suc (t mod 256) < 2 ^ 64" by (simp add: less_trans [of _ 257])
    then have "unat (of_nat (Suc (t mod 256)) :: u64) = Suc (t mod 256)" by (rule unat_of_nat_u64)
    ultimately show ?thesis by (simp add: add.commute)
  qed
  then show ?thesis
    by (simp add: word_unat_eq_iff NUM_RX_DESCS_def unat_mod ring_index_def unat_small mod_Suc_eq)
qed

lemma tail_value: "(ucast (ring_index t i) :: u32) = of_nat ((t + i) mod 256)"
  by (simp add: ring_index_def word_unat_eq_iff unsigned_ucast_eq unat_small take_bit_nat_eq_self)

lemma card_frames_Suc:
  "card_frames t (Suc m) n s = (if frame_fits (mem s) n (ring_index t (Suc 0)) then [frame_bytes s n (ring_index t (Suc 0))] else []) @
     card_frames (Suc t) m n s"
proof -
  have "map (\<lambda>i. ring_index t (Suc i)) [0..<Suc m] = ring_index t (Suc 0) # map (\<lambda>i. ring_index (Suc t) (Suc i)) [0..<m]"
    by (simp add: upt_conv_Cons map_Suc_upt [symmetric] comp_def ring_index_Suc del: upt_Suc)
  then show ?thesis by (simp add: card_frames_def)
qed

lemma card_hasD:
  assumes "card_has t m n s"
  shows "ucast (device s (Mmio_Read (tail_register n) # io_log s)) = (of_nat (t mod 256) :: u32)"
    and "(ucast (device s (Mmio_Read (head_register n) # es)) :: u32) \<noteq> of_nat (t mod 256)"
    and "frame_done (mem s) n (ring_index t (Suc 0)) \<longleftrightarrow> 0 < m"
proof -
  have head: "\<forall>es. \<forall>i \<le> m. (ucast (device s (Mmio_Read (head_register n) # es)) :: u32) \<noteq> of_nat ((t + i) mod 256)"
    using assms by (simp add: card_has_def)
  show "(ucast (device s (Mmio_Read (head_register n) # es)) :: u32) \<noteq> of_nat (t mod 256)"
    using head [rule_format, of 0 es] by simp
  show "ucast (device s (Mmio_Read (tail_register n) # io_log s)) = (of_nat (t mod 256) :: u32)"
    using assms by (simp add: card_has_def)
  show "frame_done (mem s) n (ring_index t (Suc 0)) \<longleftrightarrow> 0 < m"
    using assms by (cases m) (auto simp: card_has_def)
qed

lemma card_has_Suc:
  assumes "card_has t (Suc m) n s" "mem s' = mem s" "device s' = device s"
    "last_written (tail_register n) (io_log s') = Some (of_nat (Suc t mod 256))"
    "nic_mmio n' = nic_mmio n" "rx_descriptors n' = rx_descriptors n"
  shows "card_has (Suc t) m n' s'"
proof -
  have same: "tail_register n' = tail_register n" "head_register n' = head_register n" "frame_done (mem s') n' = frame_done (mem s) n"
    using assms(5) by (simp_all add: tail_register_def head_register_def frame_done_def descriptor_def fun_eq_iff assms(2,6))
  have "(ucast (device s (Mmio_Read (head_register n) # es)) :: u32) \<noteq> of_nat ((Suc t + i) mod 256)" if "i \<le> m" for es i
    using assms(1) that unfolding card_has_def by (metis Suc_le_mono add_Suc_shift)
  moreover have "\<forall>i<m. frame_done (mem s) n (ring_index (Suc t) (Suc i))" "\<not> frame_done (mem s) n (ring_index (Suc t) (Suc m))"
    using assms(1) unfolding card_has_def ring_index_Suc by auto
  moreover have "\<forall>es v. last_written (tail_register n) es = Some v \<longrightarrow> ucast (device s (Mmio_Read (tail_register n) # es)) = v"
    using assms(1) by (simp add: card_has_def)
  ultimately show ?thesis unfolding card_has_def same assms(3,4) by simp
qed

text \<open>One descriptor: the state before the loop goes on.\<close>

definition took_frame :: "cyclic \<Rightarrow> u64 \<Rightarrow> nic \<Rightarrow> 'a system_scheme \<Rightarrow> 'a system_scheme" where
  "took_frame c j n s =
     received c (if frame_fits (mem s) n j then [frame_bytes s n j] else []) j n
       (Mmio_Write (tail_register n) (ucast j) # Mmio_Read (head_register n) # Mmio_Read (tail_register n) # io_log s) s"

lemma took_frame_same:
  "mem (took_frame c j n s) = mem s" "device (took_frame c j n s) = device s" "hhdm_offset (took_frame c j n s) = hhdm_offset s"
  "queue (took_frame c j n s) = queue s"
  "io_log (took_frame c j n s) =
     Mmio_Write (tail_register n) (ucast j) # Mmio_Read (head_register n) # Mmio_Read (tail_register n) # io_log s"
  by (simp_all add: took_frame_def received_def Let_def)

lemma add_frames_append: "add_frames (a + length fs) gs (add_frames a fs m) = add_frames a (fs @ gs) m"
  by (auto simp: fun_eq_iff add_frames_apply nth_append)

lemma received_received:
  "nic (received c fs j n l s) = Some n' \<Longrightarrow> received c gs k n' l' (received c fs j n l s) = received c (fs @ gs) k n l' s"
proof -
  assume "nic (received c fs j n l s) = Some n'"
  then have n': "n' = n\<lparr>nic_cache := fold (rb_write 64) [next_frame s..<next_frame s + length fs] (nic_cache n), rx_tail := j\<rparr>"
    by (simp add: received_def)
  have "[next_frame s..<next_frame s + length (fs @ gs)] = [next_frame s..<next_frame s + length fs] @
      [next_frame s + length fs..<next_frame s + length fs + length gs]"
    using upt_add_eq_append [of "next_frame s" "next_frame s + length fs" "length gs"] by (simp add: add.assoc)
  then show ?thesis unfolding n' by (simp add: received_def add_frames_append add.assoc)
qed

lemma rx_loop_step:
  assumes "card_has t (Suc m) n s" "nic s = Some n" "queue_ok c s"
  shows "rx_loop s = rx_loop (took_frame c (ring_index t (Suc 0)) n s)"
proof -
  let ?j = "ring_index t (Suc 0)"
  note t = card_hasD(1,2) [OF assms(1)]
  have d: "rx_status (mem s) (rx_descriptors n + 16 * ?j) AND 1 \<noteq> 0"
    using card_hasD(3) [OF assms(1)] by (simp add: frame_done_def descriptor_def)
  let ?n = "n\<lparr>rx_tail := ?j\<rparr>" and ?desc = "rx_descriptors n + 16 * ?j"
  let ?s = "s\<lparr>io_log := Mmio_Read (head_register n) # Mmio_Read (tail_register n) # io_log s, nic := Some ?n\<rparr>"
  have bytes: "bytes_at (mem s) (PHYS_TO_VIRT ?s (rx_addr (mem s) ?desc)) (unat (rx_length (mem s) ?desc)) = frame_bytes s n ?j"
    by (simp add: frame_bytes_def descriptor_def PHYS_TO_VIRT_def)
  have "queue_ok c (store_frame b ?n ?s)" for b
    using assms(3) by (simp add: queue_ok_def store_frame_def)
  note wake = wake_net_eq [OF this]
  have fit: "nic_write ?n RDT_REGISTER (ucast ?j) (store_frame (frame_bytes s n ?j) ?n ?s
      \<lparr>tasks := woken_tasks c (tasks (store_frame (frame_bytes s n ?j) ?n ?s))\<rparr>) = took_frame c ?j n s"
    if "frame_fits (mem s) n ?j"
    using that by (simp add: nic_write_tail took_frame_def received_def store_frame_def)
  have unfit: "nic_write ?n RDT_REGISTER (ucast ?j) ?s = took_frame c ?j n s" if "\<not> frame_fits (mem s) n ?j"
    using that by (simp add: nic_write_tail took_frame_def received_def)
  show ?thesis
    using assms(2) t(1) not_sym [OF t(2)] d fit unfit
    by (subst rx_loop.simps) (simp add: nic_read_eq Let_def next_tail bytes wake frame_fits_def descriptor_def)
qed

lemma rx_loop_receives:
  assumes "card_has t m n s" "nic s = Some n" "queue_ok c s"
  shows "\<exists>l. rx_loop s = Some (Inr (received c (card_frames t m n s) (ring_index t (Suc m)) n l s)) \<and>
    last_written (tail_register n) l = Some (of_nat ((t + m) mod 256))"
  using assms
proof (induction m arbitrary: t n s)
  case 0
  let ?l = "Mmio_Read (head_register n) # Mmio_Read (tail_register n) # io_log s"
  have d: "rx_status (mem s) (rx_descriptors n + 16 * ring_index t (Suc 0)) AND 1 = 0"
    using card_hasD(3) [OF "0.prems"(1)] by (simp add: frame_done_def descriptor_def)
  have "rx_loop s = Some (Inr (received c [] (ring_index t (Suc 0)) n ?l s))"
    using "0.prems"(2) card_hasD(1) [OF "0.prems"(1)] not_sym [OF card_hasD(2) [OF "0.prems"(1)]] d
    by (subst rx_loop.simps) (simp add: nic_read_eq Let_def next_tail received_def)
  moreover have "last_written (tail_register n) (io_log s) = Some (of_nat (t mod 256))"
    using "0.prems"(1) by (simp add: card_has_def)
  ultimately show ?case by (intro exI [of _ ?l]) (simp add: card_frames_def)
next
  case (Suc m)
  let ?j = "ring_index t (Suc 0)"
  let ?s = "took_frame c ?j n s" and ?n = "the (nic (took_frame c ?j n s))"
  have nic: "nic ?s = Some ?n" by (simp add: took_frame_def received_def Let_def)
  have same: "nic_mmio ?n = nic_mmio n" "rx_descriptors ?n = rx_descriptors n"
    by (simp_all add: took_frame_def received_def Let_def)
  have "card_has (Suc t) m ?n ?s"
    by (rule card_has_Suc [OF Suc.prems(1)]) (simp_all add: took_frame_same tail_value same)
  moreover have "queue_ok c ?s"
    using Suc.prems(3) by (auto simp: queue_ok_def took_frame_def received_def Let_def woken_tasks_def)
  ultimately obtain l where l:
    "rx_loop ?s = Some (Inr (received c (card_frames (Suc t) m ?n ?s) (ring_index (Suc t) (Suc m)) ?n l ?s))"
    "last_written (tail_register ?n) l = Some (of_nat ((Suc t + m) mod 256))"
    using Suc.IH [OF _ nic] by blast
  have "card_frames (Suc t) m ?n ?s = card_frames (Suc t) m n s"
    by (simp add: card_frames_def frame_bytes_def frame_fits_def [abs_def] descriptor_def PHYS_TO_VIRT_def took_frame_same same)
  moreover have "received c fs k ?n l ?s =
      received c ((if frame_fits (mem s) n ?j then [frame_bytes s n ?j] else []) @ fs) k n l s" for fs k
    using received_received [OF nic [unfolded took_frame_def]] by (simp only: took_frame_def)
  moreover have "tail_register ?n = tail_register n" by (simp add: tail_register_def same)
  ultimately show ?case
    using l rx_loop_step [OF Suc.prems] by (intro exI [of _ l]) (simp add: card_frames_Suc ring_index_Suc)
qed

section \<open>Properties\<close>

text \<open>
  C25: When the card raises an interrupt for received frames, and the descriptors behind the tail hold \<open>m\<close> of them before
  the first that is not done, the handler returns: it has put the frames into the cache, in the order of the ring and each
  once, as new objects with exactly the bytes the card wrote (leaving out those longer than a frame may be); of more
  than 63 frames not yet handled the cache keeps the last 63. The descriptors are given back up to the
  last one taken, the tasks that wait are woken if there was a frame, and memory and all other frames are as before.
\<close>

theorem card_frames_reach_cache:
  assumes "nic s = Some n" and "rb_ok 64 (nic_cache n)"
    and "(ucast (device s (Mmio_Read (nic_mmio n + 4 * (ICR_REGISTER div 4)) # io_log s)) :: u32) AND push_bit 7 1 \<noteq> 0"
    and "card_has t m n s" and "tl_rep (queue s) c" and "distinct (cyc_order c)"
    and "\<forall>u \<in> set (cyc_order c). tasks s u \<noteq> None"
  shows "\<exists>s' n'. e1000_handler s = Inr s' \<and> nic s' = Some n' \<and>
    (let fs = card_frames t m n s;
         pending = rb_items 64 (nic_cache n) @ [next_frame s..<next_frame s + length fs]
     in rb_items 64 (nic_cache n') = drop (length pending - 63) pending \<and>
        (\<forall>i < length fs. frames s' (next_frame s + i) = Some (fs ! i)) \<and>
        (\<forall>a. a < next_frame s \<longrightarrow> frames s' a = frames s a) \<and>
        last_written (tail_register n) (io_log s') = Some (of_nat ((t + m) mod 256)) \<and> mem s' = mem s \<and>
        (\<forall>u k. tasks s u = Some k \<and> u \<in> set (cyc_order c) \<and> fs \<noteq> [] \<longrightarrow> tasks s' u = Some (woken k)))"
proof -
  let ?icr = "Mmio_Read (nic_mmio n + 4 * (ICR_REGISTER div 4))"
  let ?s = "s\<lparr>io_log := ?icr # io_log s\<rparr>" and ?fs = "card_frames t m n s"
  have "card_has t m n ?s" using assms(4) by (simp add: card_has_def)
  moreover have "queue_ok c ?s" using assms(5-7) by (simp add: queue_ok_def)
  moreover have "card_frames t m n ?s = ?fs"
    by (simp add: card_frames_def frame_bytes_def [abs_def] PHYS_TO_VIRT_def)
  ultimately obtain l where l: "rx_loop ?s = Some (Inr (received c ?fs (ring_index t (Suc m)) n l ?s))"
    "last_written (tail_register n) l = Some (of_nat ((t + m) mod 256))"
    using rx_loop_receives [of t m n ?s c] assms(1) by auto
  let ?s' = "received c ?fs (ring_index t (Suc m)) n l ?s"
  have "e1000_handler s = Inr ?s'"
    using assms(1,3) l(1) by (simp add: e1000_handler_def the_nic_def non_null_def nic_read_def mmio_read_def io_get_def io_do_def
        Let_def terminating_def ICR_REGISTER_def)
  moreover obtain n' where n': "nic ?s' = Some n'"
    "nic_cache n' = fold (rb_write 64) [next_frame s..<next_frame s + length ?fs] (nic_cache n)"
    by (simp add: received_def)
  moreover have "rb_items 64 (nic_cache n') =
      drop (length (rb_items 64 (nic_cache n) @ [next_frame s..<next_frame s + length ?fs]) - 63)
        (rb_items 64 (nic_cache n) @ [next_frame s..<next_frame s + length ?fs])"
    unfolding n'(2) using rb.puts_items [OF assms(2)] by simp
  ultimately show ?thesis
    using l(2) unfolding Let_def
    by (intro exI [of _ ?s'] exI [of _ n']) (auto simp: received_def add_frames_apply woken_tasks_def)
qed

text \<open>A card with two frames of three and two bytes behind the last descriptor of the ring.\<close>

definition card_memory :: memory where
  "card_memory = (\<lambda>_. 0)(0x4001 := 0x50, 0x4008 := 3, 0x400c := 1, 0x4011 := 0x60, 0x4018 := 2, 0x401c := 1,
     0x105000 := 7, 0x105001 := 8, 0x105002 := 9, 0x106000 := 5, 0x106001 := 6)"

definition card_nic :: nic where
  "card_nic = \<lparr>mac_addr = replicate 6 0, nic_cache = rb_new (replicate 64 0), nic_mmio = 0xfe000000, tx_descriptors = 0,
     tx_tail = 0, rx_descriptors = 0x4000, rx_tail = 0\<rparr>"

fun card_device :: "io_event list \<Rightarrow> u64" where
  "card_device (Mmio_Read a # es) =
     (if a = 0xfe0000c0 then 0x80 else if a = 0xfe002810 then 2
      else if a = 0xfe002818 then (case last_written a es of None \<Rightarrow> 0 | Some v \<Rightarrow> ucast v) else 0)"
| "card_device _ = 0"

definition card_system :: system where
  "card_system = sample_system\<lparr>mem := card_memory, hhdm_offset := 0x100000, device := card_device, io_log := [Mmio_Write 0xfe002818 255],
     nic := Some card_nic\<rparr>"

lemma card_system_frames: "card_frames 255 2 card_nic card_system = [[7, 8, 9], [5, 6]]"
proof -
  have card: "mem card_system = card_memory" "hhdm_offset card_system = 0x100000" "rx_descriptors card_nic = 0x4000"
    by (simp_all add: card_system_def card_nic_def)
  have ring: "map (\<lambda>i. ring_index 255 (Suc i)) [0..<2] = [0, 1]" by (simp add: ring_index_def upt_rec)
  have eight: "read64 m p = read_le (Suc (Suc (Suc (Suc (Suc (Suc (Suc (Suc 0)))))))) m p" for m p
    unfolding read64_def by (rule arg_cong [where f = "\<lambda>k. read_le k m p"]) simp
  have read: "rx_addr card_memory 0x4000 = 0x5000" "rx_addr card_memory 0x4010 = 0x6000"
    unfolding rx_addr_def eight read_le.simps by (simp_all add: card_memory_def)
  have len: "rx_length card_memory 0x4000 = 3" "rx_length card_memory 0x4010 = 2"
    by (simp_all add: rx_length_def card_memory_def le16_def)
  have desc: "descriptor card_nic 0 = 0x4000" "descriptor card_nic 1 = 0x4010" by (simp_all add: descriptor_def card)
  have three: "[0..<unat (3 :: u16)] = [0, 1, 2]" "[0..<unat (2 :: u16)] = [0, 1]" by (simp_all add: upt_rec)
  have "frame_bytes card_system card_nic 0 = [7, 8, 9]" "frame_bytes card_system card_nic 1 = [5, 6]"
    unfolding frame_bytes_def desc card(1) read len bytes_at_def three PHYS_TO_VIRT_def card(2)
    by (simp_all add: card_memory_def)
  moreover have "frame_fits card_memory card_nic 0" "frame_fits card_memory card_nic 1"
    unfolding frame_fits_def desc len MAX_ETHERNET_FRAME_SIZE_def by simp_all
  ultimately show ?thesis unfolding card_frames_def ring card(1) by simp
qed

lemma card_system_has: "card_has 255 2 card_nic card_system"
proof -
  have card: "mem card_system = card_memory" "device card_system = card_device" "io_log card_system = [Mmio_Write 0xfe002818 255]"
    by (simp_all add: card_system_def)
  have regs: "tail_register card_nic = 0xfe002818" "head_register card_nic = 0xfe002810"
    by (simp_all add: tail_register_def head_register_def card_nic_def RDT_REGISTER_def RDH_REGISTER_def)
  have narrow: "(ucast (ucast v :: u64) :: u32) = v" for v :: u32
    by (rule bit_word_eqI) (simp add: bit_ucast_iff)
  have "frame_done card_memory card_nic 0" "frame_done card_memory card_nic 1" "\<not> frame_done card_memory card_nic 2"
    by (simp_all add: frame_done_def rx_status_def descriptor_def card_nic_def card_memory_def)
  then have "\<forall>i < 2. frame_done card_memory card_nic (ring_index 255 (Suc i))"
    "\<not> frame_done card_memory card_nic (ring_index 255 (Suc 2))"
    by (auto simp: ring_index_def less_2_cases_iff)
  moreover have "\<forall>i \<le> 2. (2 :: u32) \<noteq> of_nat ((255 + i) mod 256)"
  proof (intro allI impI)
    fix i :: nat assume "i \<le> 2"
    then consider "i = 0" | "i = 1" | "i = 2" by linarith
    then show "(2 :: u32) \<noteq> of_nat ((255 + i) mod 256)" by cases simp_all
  qed
  ultimately show ?thesis
    unfolding card_has_def card regs by (simp add: narrow split: option.splits)
qed

theorem card_frames_reach_cache_witness:
  "\<exists>s' n'. e1000_handler card_system = Inr s' \<and> nic s' = Some n' \<and> rb_items 64 (nic_cache n') = [1, 2] \<and>
    frames s' 1 = Some [7, 8, 9] \<and> frames s' 2 = Some [5, 6]"
proof -
  have n: "nic card_system = Some card_nic" "rb_ok 64 (nic_cache card_nic)" "rb_items 64 (nic_cache card_nic) = []"
    "next_frame card_system = 1"
    by (simp_all add: card_system_def card_nic_def rb_ok_def rb_new_def rb_items_def rb_count_def) (simp add: sample_system_def sample_kernel_def vmm.defs bus.defs apic.defs kernel.defs system.defs)
  have "(ucast (device card_system (Mmio_Read (nic_mmio card_nic + 4 * (ICR_REGISTER div 4)) # io_log card_system)) :: u32)
      AND push_bit 7 1 \<noteq> 0"
    by (simp add: card_system_def card_nic_def ICR_REGISTER_def)
  moreover have "tl_rep (queue card_system) ([], [])"
    by (rule tl_repI [of _ "[]" "[]"]) (auto simp: tl_links_def tl_empty_def card_system_def)
  ultimately obtain s' n' where s': "e1000_handler card_system = Inr s'" "nic s' = Some n'"
    and body: "let fs = card_frames 255 2 card_nic card_system;
         pending = rb_items 64 (nic_cache card_nic) @ [next_frame card_system..<next_frame card_system + length fs]
     in rb_items 64 (nic_cache n') = drop (length pending - 63) pending \<and>
        (\<forall>i < length fs. frames s' (next_frame card_system + i) = Some (fs ! i))"
    using card_frames_reach_cache [OF n(1,2) _ card_system_has, of "([], [])"]
    unfolding Let_def by (auto simp: cyc_order_def)
  have two: "[1..<1 + length [[7, 8, 9], [5, 6 :: u8]]] = [1, 2]" by (simp add: upt_rec)
  from body [unfolded Let_def card_system_frames n two]
  have "rb_items 64 (nic_cache n') = [1, 2]" and at: "\<forall>i < 2. frames s' (1 + i) = Some ([[7, 8, 9], [5, 6]] ! i)" by simp_all
  moreover have "frames s' 1 = Some [7, 8, 9]" "frames s' 2 = Some [5, 6]"
    using at [rule_format, of 0] at [rule_format, of 1] by (simp_all add: numeral_2_eq_2)
  ultimately show ?thesis using s' by blast
qed

end
