(* ===== verification/Calls_Spec.thy ===== *)
theory Calls_Spec
  imports Calls File_Store Net_Spec
begin

text \<open>
  What the system calls make of the components behind them: a file read back through its
  descriptor number, and a wait for a futex.
\<close>

section \<open>Descriptor numbers\<close>

text \<open>
  The current task \<open>t\<close> opened \<open>d\<close> last, under the number \<open>fd\<close>; it is the file \<open>n\<close>, and no output
  waits to be drawn.
\<close>

definition opened :: "'a system_scheme \<Rightarrow> nat \<Rightarrow> int \<Rightarrow> nat \<Rightarrow> file_descriptor \<Rightarrow> vnode \<Rightarrow> bool" where
  "opened s t fd d f n \<longleftrightarrow>
     (\<exists>k m. current_task s = Some t \<and> tasks s t = Some k \<and> dll_head (handles k) \<noteq> 0 \<and>
       dll_nodes (handles k) (dll_head (handles k)) = Some m \<and> nd_value m = d) \<and>
     fd_points (files s) d f n \<and> fd_id f = fd \<and> screen (files s) = [] \<and> d \<noteq> vfs_stdin (files s)"

lemma opened_handle: "opened s t fd d f n \<Longrightarrow> with_handle fd s g = g (Some d)"
  by (auto simp: opened_def with_handle_def running_task_def non_null_def live_def get_file_handle_def fd_points_def
      find_handle.simps)

lemma opened_files:
  assumes "opened s t fd d f n" "fd_points v d f' n'" "fd_id f' = fd" "vfs_stdin v = vfs_stdin (files s)"
  shows "opened (s\<lparr>files := v\<lparr>screen := []\<rparr>\<rparr>) t fd d f' n'" "opened (s\<lparr>files := v\<lparr>screen := []\<rparr>, terminal := y\<rparr>) t fd d f' n'"
  using assms by (auto simp: opened_def fd_points_def)

lemma to_int32_small:
  assumes "unat w < 2 ^ 31"
  shows "to_int32 w = uint w"
proof -
  have "ucast w = (word_of_int (uint w) :: u32)" by simp
  then have "to_int32 w = signed_take_bit 31 (uint w)"
    unfolding to_int32_def by (simp only: sint_sbintrunc') simp
  also have "\<dots> = uint w"
  proof (rule signed_take_bit_int_eq_self)
    have u: "uint w = int (unat w)" by simp
    show "- (2 ^ 31) \<le> uint w" unfolding u by (rule order_trans [of _ 0]) simp_all
    have "int (unat w) < int (2 ^ 31)" using assms by (simp only: of_nat_less_iff)
    then show "uint w < 2 ^ 31" by simp
  qed
  finally show ?thesis .
qed

lemma sys_open_opens:
  assumes "current_task s = Some t" "tasks s t = Some k" "pushed_list (handles k) xs"
    and "next_node s \<noteq> 0" "next_node s \<notin> fst ` set xs" "screen (files s) = []"
    and "root_mountpoint (files s) \<noteq> None" "vfs_get_node path (files s) = Inr (Some a)" "nodes (files s) a = Some n"
    and "next_object (files s) \<noteq> vfs_stdin (files s)"
  shows "\<exists>s'. sys_open c path flags s = Inr ((0, Some (next_id k)), s') \<and>
    opened s' t (next_id k) (next_object (files s))
      \<lparr>fd_id = next_id k, fd_node = a, fd_mode = open_mode_of c flags, rw_position = 0\<rparr> n"
proof -
  let ?d = "next_object (files s)"
  obtain l where l: "dll_push (next_node s) ?d (handles k) = Some l" "pushed_list l ((next_node s, ?d) # xs)"
    using pushed_list_push [OF assms(3-5)] by blast
  then have "dll_head l = next_node s" "\<exists>m. dll_nodes l (next_node s) = Some m \<and> nd_value m = ?d"
    by (auto simp: pushed_list_def)
  then show ?thesis
    using assms l(1)
    by (auto simp: sys_open_def vfs_open_def install_def non_null_def add_file_handle_def live_def deref_def
        new_node_address_def Let_def opened_def fd_points_def)
qed

section \<open>Files through system calls\<close>

text \<open>The three calls after opening, each from a state in which the descriptor is open.\<close>

lemma to_int32_length: "unat len < 2 ^ 31 \<Longrightarrow> to_int32 len = uint len \<and> uint len \<noteq> - 1"
  using unsigned_greater_eq [of len, where 'a = int] by (simp add: to_int32_small, linarith)

lemma sys_write_stores:
  assumes opn: "opened s t fd d f n" and f: "fd_mode f = ReadWrite" "rw_position f = 0" and n: "file_ok n"
    and len: "len \<noteq> 0" "unat len < 2 ^ 31" "unat len \<le> length buf"
  shows "\<exists>n' s'. sys_write c fd buf len s = Inr ((0, Some (uint len)), s') \<and> opened s' t fd d (f\<lparr>rw_position := len\<rparr>) n' \<and>
    file_ok n' \<and> 0 < file_size n' \<and> tmpfs_read n' 0 len = Inr (len, take (unat len) buf)"
proof -
  have p: "fd_points (files s) d f n" using opn by (simp add: opened_def)
  obtain n' where n': "vfs_write (Some d) buf len (files s) =
      Inr (len, advance d len ((files s)\<lparr>nodes := (nodes (files s))(fd_node f \<mapsto> n')\<rparr>))"
    "file_ok n'" "0 < file_size n'" "tmpfs_read n' 0 len = Inr (len, take (unat len) buf)"
    by (rule vfs_write_stored [OF p n _ _ _ len(1,3)]) (use len(2) f in auto)
  define v where "v = advance d len ((files s)\<lparr>nodes := (nodes (files s))(fd_node f \<mapsto> n')\<rparr>)"
  have v: "fd_points v d (f\<lparr>rw_position := len\<rparr>) n'" "screen v = []" "vfs_stdin v = vfs_stdin (files s)"
    using p opn f(2) by (simp_all add: v_def fd_points_def advance_def opened_def)
  obtain y where y: "puts [] 0 WHITE (Rgb 0 0 0) (terminal s) = Inr y" by (simp add: puts_def puts_loop.simps)
  have "sys_write c fd buf len s = Inr ((0, Some (uint len)), s\<lparr>files := v\<lparr>screen := []\<rparr>, terminal := y\<rparr>)"
    using n'(1) y to_int32_length [OF len(2)]
    by (simp add: sys_write_def opened_handle [OF opn] file_write_def v(2) flip: v_def)
  moreover have "opened (s\<lparr>files := v\<lparr>screen := []\<rparr>, terminal := y\<rparr>) t fd d (f\<lparr>rw_position := len\<rparr>) n'"
    by (rule opened_files(2) [OF opn v(1) _ v(3)]) (use opn in \<open>simp add: opened_def\<close>)
  ultimately show ?thesis using n'(2-4) by blast
qed

lemma sys_write_archive:
  assumes opn: "opened s t fd d f n" and f: "fd_mode f = ReadWrite" "rw_position f = 0" and n: "archive_file n" and "len \<noteq> 0"
  shows "sys_write c fd buf len s = Inl Endless"
proof -
  have "vfs_write (Some d) buf len (files s) = Inl Endless"
    by (rule vfs_write_archive [of _ _ f n]) (use assms in \<open>auto simp: opened_def archive_file_def\<close>)
  then show ?thesis by (simp add: sys_write_def opened_handle [OF opn] file_write_def)
qed

lemma sys_seek_start:
  assumes "opened s t fd d f n"
  shows "\<exists>s'. sys_seek c fd 0 (SEEK_SET c) s = Inr ((0, Some 0), s') \<and> opened s' t fd d (f\<lparr>rw_position := 0\<rparr>) n"
proof -
  define v where "v = (files s)\<lparr>fds := (fds (files s))(d \<mapsto> f\<lparr>rw_position := 0\<rparr>)\<rparr>"
  have v: "fd_points v d (f\<lparr>rw_position := 0\<rparr>) n" "screen v = []" "vfs_stdin v = vfs_stdin (files s)"
    using assms by (simp_all add: v_def opened_def fd_points_def)
  have "v = v\<lparr>screen := []\<rparr>" using v(2) by simp
  moreover have "fd_id (f\<lparr>rw_position := 0\<rparr>) = fd" using assms by (simp add: opened_def)
  ultimately have "opened (s\<lparr>files := v\<rparr>) t fd d (f\<lparr>rw_position := 0\<rparr>) n"
    using opened_files(1) [OF assms v(1) _ v(3)] by simp
  moreover have "sys_seek c fd 0 (SEEK_SET c) s = Inr ((0, Some 0), s\<lparr>files := v\<rparr>)"
    using assms by (simp add: sys_seek_def opened_handle [OF assms] vfs_seek_def deref_def opened_def fd_points_def v_def)
  ultimately show ?thesis by blast
qed

lemma sys_read_stored:
  assumes opn: "opened s t fd d f n" and f: "fd_mode f = ReadWrite" "rw_position f = 0"
    and n: "file_ok n" "0 < file_size n" "tmpfs_read n 0 len = Inr (len, bytes)" and len: "unat len < 2 ^ 31"
  shows "\<exists>s'. sys_read c interrupt fd len regs s = Inr ((0, bytes, Some (uint len)), regs, s')"
proof -
  have "vfs_read (Some d) len ((files s)\<lparr>key_events := []\<rparr>) = Inr (len, bytes, advance d len ((files s)\<lparr>key_events := []\<rparr>))"
    using vfs_read_step [of "(files s)\<lparr>key_events := []\<rparr>" d f n len len bytes] n opn f
    by (simp add: opened_def fd_points_def file_ok_def)
  then show ?thesis
    using opn n(1) f to_int32_length [OF len]
    by (simp add: sys_read_def opened_handle [OF opn] file_read_def deref_def opened_def fd_points_def file_ok_def)
qed

text \<open>
  C13: a program that opens a file of the memory file system for reading and writing gets a descriptor number
  that its task had not given out. If the file is empty or has a capacity and the program then writes some
  bytes, seeks back to the start and reads as many, it gets no error from any of the calls, the counts
  it asked for, and the bytes it wrote. If the file has data and was made from the archive, whose files have
  no capacity, the write never returns.
\<close>

theorem calls_write_read:
  assumes "current_task s = Some t" "tasks s t = Some k" "pushed_list (handles k) xs"
    and "next_node s \<noteq> 0" "next_node s \<notin> fst ` set xs" "screen (files s) = []"
    and "root_mountpoint (files s) \<noteq> None" "vfs_get_node path (files s) = Inr (Some a)"
    and "nodes (files s) a = Some n" "file_ok n \<or> archive_file n" "next_object (files s) \<noteq> vfs_stdin (files s)"
    and "open_mode_of c flags = ReadWrite" "len \<noteq> 0" "unat len < 2 ^ 31" "unat len \<le> length buf"
  shows "\<exists>s1. sys_open c path flags s = Inr ((0, Some (next_id k)), s1) \<and>
    (if archive_file n then sys_write c (next_id k) buf len s1 = Inl Endless else
     \<exists>s2 s3 s4. sys_write c (next_id k) buf len s1 = Inr ((0, Some (uint len)), s2) \<and>
       sys_seek c (next_id k) 0 (SEEK_SET c) s2 = Inr ((0, Some 0), s3) \<and>
       sys_read c interrupt (next_id k) len regs s3 = Inr ((0, take (unat len) buf, Some (uint len)), regs, s4))"
proof -
  let ?d = "next_object (files s)" and ?fd = "next_id k"
  let ?f = "\<lparr>fd_id = ?fd, fd_node = a, fd_mode = ReadWrite, rw_position = 0\<rparr>"
  obtain s1 where s1: "sys_open c path flags s = Inr ((0, Some ?fd), s1)" "opened s1 t ?fd ?d ?f n"
    using sys_open_opens [OF assms(1-9,11), of c flags] assms(12) by auto
  show ?thesis
  proof (cases "archive_file n")
    case True
    then show ?thesis using s1(1) sys_write_archive [OF s1(2) _ _ True assms(13), of c buf] by simp
  next
    case False
    then have ok: "file_ok n" using assms(10) by blast
    obtain n' s2 where s2: "sys_write c ?fd buf len s1 = Inr ((0, Some (uint len)), s2)"
      "opened s2 t ?fd ?d (?f\<lparr>rw_position := len\<rparr>) n'"
      "file_ok n'" "0 < file_size n'" "tmpfs_read n' 0 len = Inr (len, take (unat len) buf)"
      using sys_write_stores [OF s1(2) _ _ ok assms(13,14,15), of c] by auto
    obtain s3 where s3: "sys_seek c ?fd 0 (SEEK_SET c) s2 = Inr ((0, Some 0), s3)" "opened s3 t ?fd ?d ?f n'"
      using sys_seek_start [OF s2(2), of c] by auto
    show ?thesis using s1(1) s2(1) s3(1) sys_read_stored [OF s3(2) _ _ s2(3-5) assms(14)] False by auto
  qed
qed

text \<open>A root directory with an empty file \<open>a\<close>, and the task that opens it.\<close>

definition calls_vfs :: vfs where
  "calls_vfs = (one_file [] 0 (\<lambda>_. 0))\<lparr>nodes := [0 \<mapsto> (new_node [0x2f] Tmpfs Directory 0)\<lparr>n_children :=
         Some (hm_insert [0x61] 1 (hm_empty 256))\<rparr>, 1 \<mapsto> new_node [0x61] Tmpfs File 1],
     fds := Map.empty, root_mountpoint := Some 0\<rparr>"

definition calls_system :: system where
  "calls_system = sample_system\<lparr>files := calls_vfs,
     tasks := [2 \<mapsto> (sample_task 2 Running)\<lparr>handles := dll_empty, next_id := 3\<rparr>]\<rparr>"

lemma calls_vfs_resolves: "vfs_get_node [0x61] calls_vfs = Inr (Some 1)"
proof -
  have "hm_get [0x61] (hm_insert [0x61] (1 :: nat) (hm_empty 256)) = Some 1"
    by (simp add: hm_get_insert hm_new_ok hm_get_empty)
  then show ?thesis
    by (simp add: vfs_get_node_def calls_vfs_def one_file_def get_node_loop.simps path_name_def path_rest_def deref_def
        non_null_def)
qed

text \<open>The values of the constants on Linux.\<close>

definition linux_abi :: abi where
  "linux_abi = \<lparr>EBADF = 9, EINVAL = 22, ENOSYS = 38, ENOTDIR = 20, EAGAIN = 11, EWOULDBLOCK = 11, SEEK_SET = 0,
     SEEK_CUR = 1, SEEK_END = 2, O_RDONLY = 0, O_WRONLY = 1, O_RDWR = 2, O_DIRECTORY = 65536, O_NONBLOCK
     = 2048, AT_FDCWD = - 100, S_IFDIR = 0x4000, S_IFREG = 0x8000, DT_DIR = 4, DT_REG = 8, DIRENT_SIZE =
     1048, MAP_ANONYMOUS = 32, MAP_SHARED = 1, PROT_WRITE = 2, PROT_EXEC = 4, CLOCK_REALTIME = 0,
     CLOCK_REALTIME_COARSE = 5, CLOCK_BOOTTIME = 7, CLOCK_MONOTONIC = 1, CLOCK_MONOTONIC_RAW = 4,
     CLOCK_MONOTONIC_COARSE = 6, CLOCK_PROCESS_CPUTIME_ID = 2, CLOCK_THREAD_CPUTIME_ID = 3, PF_INET = 2,
     AF_UNIX = 1, AF_INET = 2, SOCK_STREAM = 1, SOCK_DGRAM = 2, SOCK_RAW = 3, IPPROTO_UDP = 17,
     IPPROTO_ICMP = 1, MSG_DONTWAIT = 64, SOCKADDR_IN_SIZE = 16\<rparr>"

theorem calls_write_read_witness:
  "\<exists>s1 s2 s3 s4. sys_open linux_abi [0x61] 2 calls_system = Inr ((0, Some 3), s1) \<and>
    sys_write linux_abi 3 [7, 8] 2 s1 = Inr ((0, Some 2), s2) \<and> sys_seek linux_abi 3 0 0 s2 = Inr ((0, Some 0), s3) \<and>
    sys_read linux_abi (\<lambda>regs s. Inl Endless) 3 2 zero_registers s3 = Inr ((0, [7, 8], Some 2), zero_registers, s4)"
proof -
  let ?k = "(sample_task 2 Running)\<lparr>handles := dll_empty, next_id := 3\<rparr>"
  have "current_task calls_system = Some 2" "tasks calls_system 2 = Some ?k" "next_node calls_system = 32"
    by (simp_all add: calls_system_def sample_system_def sample_kernel_def vmm.defs bus.defs apic.defs kernel.defs system.defs)
  moreover have "files calls_system = calls_vfs" by (simp add: calls_system_def)
  ultimately show ?thesis
    using calls_write_read [of calls_system 2 ?k "[]" "[0x61]" 1 "new_node [0x61] Tmpfs File 1" linux_abi 2 2 "[7, 8]"
        "\<lambda>regs s. Inl Endless" zero_registers] calls_vfs_resolves
    by (simp add: pushed_list_empty calls_vfs_def one_file_def new_node_def file_ok_def archive_file_def open_mode_of_def linux_abi_def)
qed

section \<open>Futexes\<close>

lemma block_on_never:
  "block_on interrupt condition regs s = Some r \<Longrightarrow> condition = (\<lambda>_. False) \<longrightarrow> (\<exists>e. r = Inl e)"
proof (rule block_on.raw_induct [where P = "\<lambda>interrupt condition regs s r. condition = (\<lambda>_. False) \<longrightarrow> (\<exists>e. r = Inl e)"])
  fix f and interrupt :: "registers \<Rightarrow> 'a kernel_scheme \<Rightarrow> fault + (registers \<times> 'a kernel_scheme)" and condition regs s r
  assume IH: "\<And>interrupt condition regs s r. f interrupt condition regs s = Some r \<Longrightarrow>
        condition = (\<lambda>_. False) \<longrightarrow> (\<exists>e. r = Inl e)"
    and eq: "(if condition s then Some (Inr (regs, s))
      else case await_io interrupt regs s of Inl e \<Rightarrow> Some (Inl e) | Inr (regs, s) \<Rightarrow> f interrupt condition regs s) = Some r"
  then show "condition = (\<lambda>_. False) \<longrightarrow> (\<exists>e. r = Inl e)"
    by (cases "await_io interrupt regs s") auto
qed

text \<open>
  C37: a task that waits for a futex never returns from the call, whoever wakes it: when the
  value is the expected one, the call ends in a fault or not at all.
\<close>

theorem futex_wait_never_returns:
  "sys_futex_wait c interrupt pointer v v regs s \<noteq> Inr r"
  by (auto simp: sys_futex_wait_def Let_def and_then_eq_Inr dest!: block_on_never split: prod.splits if_splits)

end
