(* ===== verification/Initramfs.thy ===== *)
theory Initramfs
  imports Vfs Pmm
begin

text \<open>
  The initial ram file system (\<open>src/kernel/fs/initramfs.cpp\<close>, \<open>initramfs.hpp\<close>): a tar archive
  in the ustar format that the boot loader placed in memory, whose files and directories
  are created at boot. The fields of a header are at fixed offsets in its 512 bytes.
\<close>

section \<open>Fields of a header\<close>

text \<open>A string that does not end within a block of the archive is taken for one that never ends.\<close>

definition string_at :: "memory \<Rightarrow> u64 \<Rightarrow> fault + u8 list" where
  "string_at m p =
     (let cs = bytes_at m p 512 in if 0 \<in> set cs then Inr (takeWhile (\<lambda>c. c \<noteq> 0) cs) else Inl Out_Of_Bounds)"

text \<open>Any character counts as a digit.\<close>

definition oct_to_dec :: "u8 list \<Rightarrow> u64" where
  "oct_to_dec cs = foldl (\<lambda>res c. res * 8 + (scast c - 0x30)) 0 cs"

definition header_name :: "u64 \<Rightarrow> u64" where
  "header_name archive = archive"

definition header_size :: "u64 \<Rightarrow> u64" where
  "header_size archive = archive + 124"

definition header_flag :: "u64 \<Rightarrow> u64" where
  "header_flag archive = archive + 156"

definition header_magic :: "u64 \<Rightarrow> u64" where
  "header_magic archive = archive + 257"

definition USTAR_TYPE_NORMAL :: u8 where
  "USTAR_TYPE_NORMAL = 0x30"

definition USTAR_TYPE_DIRECTORY :: u8 where
  "USTAR_TYPE_DIRECTORY = 0x35"

section \<open>Loading\<close>

text \<open>The data of a file is copied to a new array; its capacity is left as it is.\<close>

definition new_file :: "u8 list \<Rightarrow> u8 list \<Rightarrow> 'a vfs_scheme \<Rightarrow> fault + 'a vfs_scheme" where
  "new_file name data s =
     and_then (vfs_create name File s) (\<lambda>(node, s). and_then (non_null node) (\<lambda>a. and_then (deref (nodes s) a) (\<lambda>n.
       Inr (s\<lparr>nodes := (nodes s)(a \<mapsto> n\<lparr>file_data := data, file_size := of_nat (length data)\<rparr>)\<rparr>))))"

definition load_header :: "memory \<Rightarrow> u64 \<Rightarrow> u64 \<Rightarrow> 'a vfs_scheme \<Rightarrow> fault + 'a vfs_scheme" where
  "load_header m archive sz s =
     (if m (header_flag archive) = USTAR_TYPE_NORMAL then
        and_then (string_at m (header_name archive)) (\<lambda>name. new_file name (bytes_at m (archive + 512) (unat sz)) s)
      else if m (header_flag archive) = USTAR_TYPE_DIRECTORY then
        and_then (string_at m (header_name archive)) (\<lambda>name. and_then (vfs_create name Directory s) (\<lambda>(_, s). Inr s))
      else Inr s)"

partial_function (option) load_archive :: "memory \<Rightarrow> u64 \<Rightarrow> 'a vfs_scheme \<Rightarrow> (fault + 'a vfs_scheme) option" where
  "load_archive m archive s =
     (if bytes_at m (header_magic archive) 5 \<noteq> lit ''ustar'' then Some (Inr s)
      else case string_at m (header_size archive) of Inl e \<Rightarrow> Some (Inl e)
        | Inr digits \<Rightarrow>
          let sz = oct_to_dec digits
          in case load_header m archive sz s of Inl e \<Rightarrow> Some (Inl e)
             | Inr s \<Rightarrow> load_archive m (archive + 512 + ALIGN_UP sz 512) s)"

declare load_archive.simps [code]

text \<open>\<open>init\<close> loads the first module of the boot loader, which is at \<open>address\<close>.\<close>

definition initramfs_init :: "memory \<Rightarrow> u64 \<Rightarrow> 'a vfs_scheme \<Rightarrow> fault + 'a vfs_scheme" where
  "initramfs_init m address s = and_then (terminating (load_archive m address s)) id"

end
