(* ===== verification/Initramfs_Spec.thy ===== *)
theory Initramfs_Spec
  imports Initramfs Vfs_Spec
begin

text \<open>
  What loading an archive gives: the files of the archive, under their names, with their data.
\<close>

section \<open>Octal numbers\<close>

fun octal :: "nat \<Rightarrow> nat \<Rightarrow> u8 list" where
  "octal 0 n = []"
| "octal (Suc k) n = octal k (n div 8) @ [0x30 + of_nat (n mod 8)]"

lemma scast_digit: "d < 8 \<Longrightarrow> (scast (0x30 + of_nat d :: u8) :: u64) - 0x30 = of_nat d"
  by (auto simp: less_Suc_eq numeral_eq_Suc)

lemma oct_to_dec_octal: "oct_to_dec (octal k n) = of_nat (n mod 8 ^ k)"
proof (induction k arbitrary: n)
  case (Suc k)
  have "oct_to_dec (octal (Suc k) n) = oct_to_dec (octal k (n div 8)) * 8 + of_nat (n mod 8)"
    by (simp add: oct_to_dec_def scast_digit)
  also have "\<dots> = of_nat (n div 8 mod 8 ^ k * 8 + n mod 8)" by (simp add: Suc.IH)
  also have "n div 8 mod 8 ^ k * 8 + n mod 8 = n mod 8 ^ Suc k"
    by (simp add: mod_mult2_eq)
  finally show ?case .
qed (simp add: oct_to_dec_def)

section \<open>Archives\<close>

text \<open>The name, the type flag and the data of each entry.\<close>

type_synonym archive_entry = "u8 list \<times> u8 \<times> u8 list"

definition is_file :: "archive_entry \<Rightarrow> bool" where
  "is_file e \<longleftrightarrow> fst (snd e) = USTAR_TYPE_NORMAL"

text \<open>An archive in memory: sizes are written as eleven octal digits and a null byte.\<close>

fun archive_at :: "memory \<Rightarrow> u64 \<Rightarrow> archive_entry list \<Rightarrow> bool" where
  "archive_at m p [] \<longleftrightarrow> bytes_at m (header_magic p) 5 \<noteq> lit ''ustar''"
| "archive_at m p ((name, flag, data) # es) \<longleftrightarrow>
     bytes_at m (header_magic p) 5 = lit ''ustar'' \<and> string_at m (header_name p) = Inr name \<and>
     string_at m (header_size p) = Inr (octal 11 (length data)) \<and> m (header_flag p) = flag \<and>
     bytes_at m (p + 512) (length data) = data \<and>
     archive_at m (p + 512 + ALIGN_UP (of_nat (length data)) 512) es"

text \<open>The same entries without an archive.\<close>

fun load_entry :: "archive_entry \<Rightarrow> 'a vfs_scheme \<Rightarrow> fault + 'a vfs_scheme" where
  "load_entry (name, flag, data) s =
     (if flag = USTAR_TYPE_NORMAL then new_file name data s
      else if flag = USTAR_TYPE_DIRECTORY then and_then (vfs_create name Directory s) (\<lambda>(_, s). Inr s)
      else Inr s)"

primrec load_entries :: "archive_entry list \<Rightarrow> 'a vfs_scheme \<Rightarrow> fault + 'a vfs_scheme" where
  "load_entries [] s = Inr s"
| "load_entries (e # es) s = and_then (load_entry e s) (load_entries es)"

lemma load_archive_entries:
  "archive_at m p es \<Longrightarrow> \<forall>e \<in> set es. length (snd (snd e)) < 8 ^ 11 \<Longrightarrow>
    load_archive m p s = Some (load_entries es s)"
proof (induction es arbitrary: p s)
  case Nil
  then show ?case by (simp add: load_archive.simps)
next
  case (Cons e es)
  obtain name flag data where e: "e = (name, flag, data)" by (metis prod.collapse)
  have len: "length data < 8 ^ 11" using Cons.prems(2) by (simp add: e)
  then have sz: "oct_to_dec (octal 11 (length data)) = of_nat (length data)"
    unfolding oct_to_dec_octal by (simp only: mod_less)
  have "unat (of_nat (length data) :: u64) = length data" using len by (intro unat_of_nat_u64) simp
  then have "load_header m p (of_nat (length data)) s = load_entry e s"
    using Cons.prems(1) by (simp add: load_header_def e)
  then show ?case
    using Cons.prems Cons.IH [of "p + 512 + ALIGN_UP (of_nat (length data)) 512"]
    by (subst load_archive.simps) (auto simp: e sz Let_def split: sum.splits)
qed

section \<open>What is found afterwards\<close>

lemma get_node_loop_cong:
  "\<forall>b. map_option n_children (nodes s b) = map_option n_children (nodes s' b) \<Longrightarrow>
    get_node_loop path a s = get_node_loop path a s'"
proof (induction path a s rule: get_node_loop.induct)
  case (1 path parent s)
  note simps = get_node_loop.simps [of path]
  from 1(2) have same: "map_option n_children (nodes s parent) = map_option n_children (nodes s' parent)" by blast
  show ?case
  proof (cases "nodes s parent")
    case None
    then show ?thesis using same by (simp add: simps deref_def)
  next
    case (Some p)
    then obtain p' where p': "nodes s' parent = Some p'" "n_children p' = n_children p"
      using same by (cases "nodes s' parent") auto
    show ?thesis
    proof (cases "path = [] \<or> n_children p = None")
      case False
      then obtain m where m: "n_children p = Some m" by auto
      show ?thesis
      proof (cases "hm_get (path_name path) m")
        case (Some b)
        then show ?thesis
          using 1(1) [OF _ Some] False \<open>nodes s parent = Some p\<close> p' m 1(2) by (simp add: simps deref_def non_null_def)
      qed (use Some p' m in \<open>simp add: simps deref_def non_null_def\<close>)
    qed (use Some p' in \<open>auto simp: simps deref_def non_null_def\<close>)
  qed
qed

text \<open>Filling a node with data keeps what paths mean.\<close>

lemma fill_node:
  fixes s :: "'a vfs_scheme"
  defines "s' a n d z \<equiv> s\<lparr>nodes := (nodes s)(a \<mapsto> n\<lparr>file_data := d, file_size := z\<rparr>)\<rparr>"
  assumes "vfs_ok s" "nodes s a = Some n"
  shows "vfs_ok (s' a n d z)" "vfs_get_node q (s' a n d z) = vfs_get_node q s" "root_mountpoint (s' a n d z) = root_mountpoint s"
proof -
  show "vfs_ok (s' a n d z)"
    using assms(2,3) unfolding vfs_ok_def s'_def by (auto split: if_splits) 
  show "vfs_get_node q (s' a n d z) = vfs_get_node q s"
    using assms(3) get_node_loop_cong [of "s' a n d z" s] by (simp add: vfs_get_node_def s'_def split: option.splits)
  show "root_mountpoint (s' a n d z) = root_mountpoint s" by (simp add: s'_def)
qed

text \<open>
  What loading keeps: well-formedness, what paths mean, and the data of the nodes that are not
  the file of one of the entries.
\<close>

definition loaded :: "archive_entry list \<Rightarrow> 'a vfs_scheme \<Rightarrow> 'a vfs_scheme \<Rightarrow> 'a vfs_scheme \<Rightarrow> bool" where
  "loaded es s s' t \<longleftrightarrow> vfs_ok s' \<and> root_mountpoint s' = root_mountpoint s \<and>
     (\<forall>q b. vfs_get_node q s = Inr (Some b) \<longrightarrow> vfs_get_node q s' = Inr (Some b)) \<and>
     (\<forall>a n. nodes s a = Some n \<longrightarrow> (\<forall>e \<in> set es. is_file e \<longrightarrow> vfs_get_node (fst e) t \<noteq> Inr (Some a)) \<longrightarrow>
       (\<exists>n'. nodes s' a = Some n' \<and> file_data n' = file_data n \<and> file_size n' = file_size n))"

lemma tree_grows_data: "tree_grows s s' \<Longrightarrow> nodes s a = Some n \<Longrightarrow>
    \<exists>n'. nodes s' a = Some n' \<and> file_data n' = file_data n \<and> file_size n' = file_size n"
  by (fastforce simp: tree_grows_def)

lemma new_file_result:
  assumes "vfs_ok s" "root_mountpoint s \<noteq> None" "take 1 name \<noteq> [0x2f]" "new_file name data s = Inr s'"
  obtains a n where "vfs_get_node name s' = Inr (Some a)" "nodes s' a = Some n" "file_data n = data"
    "file_size n = of_nat (length data)" "vfs_ok s'" "root_mountpoint s' = root_mountpoint s"
    "\<forall>q b. vfs_get_node q s = Inr (Some b) \<longrightarrow> vfs_get_node q s' = Inr (Some b)"
    "\<forall>b n. nodes s b = Some n \<longrightarrow> b \<noteq> a \<longrightarrow>
      (\<exists>n'. nodes s' b = Some n' \<and> file_data n' = file_data n \<and> file_size n' = file_size n)"
proof -
  obtain a s1 n where c: "vfs_create name File s = Inr (Some a, s1)" "nodes s1 a = Some n"
    "s' = s1\<lparr>nodes := (nodes s1)(a \<mapsto> n\<lparr>file_data := data, file_size := of_nat (length data)\<rparr>)\<rparr>"
    using assms(4) by (auto simp: new_file_def and_then_eq_Inr split: prod.splits)
  note k = vfs_create_correct [OF assms(1-3) c(1)]
  have root: "root_mountpoint s1 = root_mountpoint s" using k by (simp add: tree_grows_def)
  note f = fill_node [where s = s1 and a = a and n = n and d = data and z = "of_nat (length data)", folded c(3)]
  show thesis
  proof (rule that)
    show "vfs_get_node name s' = Inr (Some a)" using f(2) k c(2) by simp
    show "nodes s' a = Some (n\<lparr>file_data := data, file_size := of_nat (length data)\<rparr>)" by (simp add: c(3))
    show "vfs_ok s'" "root_mountpoint s' = root_mountpoint s" using f k c(2) root by simp_all
    show "\<forall>q b. vfs_get_node q s = Inr (Some b) \<longrightarrow> vfs_get_node q s' = Inr (Some b)" using f(2) k c(2) by simp
    show "\<forall>b n. nodes s b = Some n \<longrightarrow> b \<noteq> a \<longrightarrow>
        (\<exists>n'. nodes s' b = Some n' \<and> file_data n' = file_data n \<and> file_size n' = file_size n)"
    proof (intro allI impI)
      fix b nb assume "nodes s b = Some nb" "b \<noteq> a"
      with tree_grows_data [of s s1 b nb] k
      show "\<exists>n'. nodes s' b = Some n' \<and> file_data n' = file_data nb \<and> file_size n' = file_size nb" by (simp add: c(3))
    qed
  qed simp_all
qed

lemma load_entry_loaded:
  assumes "vfs_ok s" "root_mountpoint s \<noteq> None" "take 1 (fst e) \<noteq> [0x2f]" "load_entry e s = Inr s'"
    and t: "\<forall>q b. vfs_get_node q s' = Inr (Some b) \<longrightarrow> vfs_get_node q t = Inr (Some b)"
  shows "loaded [e] s s' t"
proof -
  obtain name flag data where e: "e = (name, flag, data)" by (metis prod.collapse)
  consider "flag = USTAR_TYPE_NORMAL" | "flag \<noteq> USTAR_TYPE_NORMAL" "flag = USTAR_TYPE_DIRECTORY"
    | "flag \<noteq> USTAR_TYPE_NORMAL" "flag \<noteq> USTAR_TYPE_DIRECTORY" by blast
  then show ?thesis
  proof cases
    case 1
    have "take 1 name \<noteq> [0x2f]" "new_file name data s = Inr s'" using assms(3,4) 1 by (simp_all add: e)
    then obtain a n where f: "vfs_get_node name s' = Inr (Some a)" "nodes s' a = Some n" "file_data n = data"
      "file_size n = of_nat (length data)" "vfs_ok s'" "root_mountpoint s' = root_mountpoint s"
      "\<forall>q b. vfs_get_node q s = Inr (Some b) \<longrightarrow> vfs_get_node q s' = Inr (Some b)"
      "\<forall>b n. nodes s b = Some n \<longrightarrow> b \<noteq> a \<longrightarrow>
        (\<exists>n'. nodes s' b = Some n' \<and> file_data n' = file_data n \<and> file_size n' = file_size n)"
      by (rule new_file_result [OF assms(1,2)])
    moreover have "is_file e" using 1 by (simp add: e is_file_def)
    moreover have "vfs_get_node (fst e) t = Inr (Some a)" using f(1) t by (simp add: e)
    ultimately show ?thesis unfolding loaded_def by simp
  next
    case 2
    then obtain node where c: "vfs_create name Directory s = Inr (node, s')"
      using assms(4) by (auto simp: e and_then_eq_Inr split: prod.splits)
    have "take 1 name \<noteq> [0x2f]" using assms(3) by (simp add: e)
    note k = vfs_create_correct [OF assms(1,2) this c]
    then show ?thesis using tree_grows_data [of s s'] by (auto simp: loaded_def tree_grows_def)
  qed (use assms in \<open>simp add: e loaded_def\<close>)
qed

lemma loaded_trans: "loaded xs s s1 t \<Longrightarrow> loaded ys s1 s2 t \<Longrightarrow> loaded (xs @ ys) s s2 t"
  unfolding loaded_def
proof (intro conjI allI impI)
  assume l: "vfs_ok s1 \<and> root_mountpoint s1 = root_mountpoint s \<and>
     (\<forall>q b. vfs_get_node q s = Inr (Some b) \<longrightarrow> vfs_get_node q s1 = Inr (Some b)) \<and>
     (\<forall>a n. nodes s a = Some n \<longrightarrow> (\<forall>e \<in> set xs. is_file e \<longrightarrow> vfs_get_node (fst e) t \<noteq> Inr (Some a)) \<longrightarrow>
       (\<exists>n'. nodes s1 a = Some n' \<and> file_data n' = file_data n \<and> file_size n' = file_size n))"
    "vfs_ok s2 \<and> root_mountpoint s2 = root_mountpoint s1 \<and>
     (\<forall>q b. vfs_get_node q s1 = Inr (Some b) \<longrightarrow> vfs_get_node q s2 = Inr (Some b)) \<and>
     (\<forall>a n. nodes s1 a = Some n \<longrightarrow> (\<forall>e \<in> set ys. is_file e \<longrightarrow> vfs_get_node (fst e) t \<noteq> Inr (Some a)) \<longrightarrow>
       (\<exists>n'. nodes s2 a = Some n' \<and> file_data n' = file_data n \<and> file_size n' = file_size n))"
  then show "vfs_ok s2" "root_mountpoint s2 = root_mountpoint s" by simp_all
  show "vfs_get_node q s2 = Inr (Some b)" if "vfs_get_node q s = Inr (Some b)" for q b using that l by blast
  fix a n assume n: "nodes s a = Some n" and no: "\<forall>e \<in> set (xs @ ys). is_file e \<longrightarrow> vfs_get_node (fst e) t \<noteq> Inr (Some a)"
  then obtain n1 where n1: "nodes s1 a = Some n1" "file_data n1 = file_data n" "file_size n1 = file_size n"
    using l(1) [THEN conjunct2, THEN conjunct2, THEN conjunct2, rule_format, OF n] by auto
  then obtain n2 where "nodes s2 a = Some n2" "file_data n2 = file_data n1" "file_size n2 = file_size n1"
    using l(2) [THEN conjunct2, THEN conjunct2, THEN conjunct2, rule_format, OF n1(1)] no by auto
  with n1 show "\<exists>n'. nodes s2 a = Some n' \<and> file_data n' = file_data n \<and> file_size n' = file_size n" by simp
qed

lemma load_entries_loaded:
  assumes "vfs_ok s" "root_mountpoint s \<noteq> None" "\<forall>e \<in> set es. take 1 (fst e) \<noteq> [0x2f]" "load_entries es s = Inr s'"
  shows "loaded es s s' s'"
  using assms
proof (induction es arbitrary: s)
  case Nil
  then show ?case by (simp add: loaded_def)
next
  case (Cons e es)
  obtain s1 where s1: "load_entry e s = Inr s1" "load_entries es s1 = Inr s'"
    using Cons.prems(4) by (auto simp: and_then_eq_Inr)
  have "loaded [e] s s1 s1" using Cons.prems s1(1) by (intro load_entry_loaded) auto
  then have "vfs_ok s1" "root_mountpoint s1 \<noteq> None" using Cons.prems by (simp_all add: loaded_def)
  then have l: "loaded es s1 s' s'" using Cons.IH s1(2) Cons.prems(3) by simp
  then have "loaded [e] s s1 s'" using Cons.prems s1(1) by (intro load_entry_loaded) (auto simp: loaded_def)
  from loaded_trans [OF this l] show ?case by simp
qed

lemma load_entries_append:
  "load_entries (xs @ ys) s = and_then (load_entries xs s) (load_entries ys)"
  by (induction xs arbitrary: s) (simp_all add: and_then_def split: sum.splits)

text \<open>
  C21: loading an archive in memory does what creating its entries one after the other does, faults
  included, and comes to an end. When nothing faults and no name starts with a slash, every
  file is found under its name afterwards with exactly its data and size, unless a later file of the
  archive is found at the same place; paths that led to a node before still lead there.
\<close>

theorem initramfs_loads_files:
  assumes "archive_at m p es" "\<forall>e \<in> set es. length (snd (snd e)) < 8 ^ 11"
  shows "initramfs_init m p s = load_entries es s \<and>
    (vfs_ok s \<and> root_mountpoint s \<noteq> None \<and> (\<forall>e \<in> set es. take 1 (fst e) \<noteq> [0x2f]) \<longrightarrow>
      (\<forall>s'. initramfs_init m p s = Inr s' \<longrightarrow>
        vfs_ok s' \<and> (\<forall>q b. vfs_get_node q s = Inr (Some b) \<longrightarrow> vfs_get_node q s' = Inr (Some b)) \<and>
        (\<forall>xs name data ys. es = xs @ (name, USTAR_TYPE_NORMAL, data) # ys \<and>
            (\<forall>e \<in> set ys. is_file e \<longrightarrow> vfs_get_node (fst e) s' \<noteq> vfs_get_node name s') \<longrightarrow>
          (\<exists>a n. vfs_get_node name s' = Inr (Some a) \<and> nodes s' a = Some n \<and>
            file_data n = data \<and> file_size n = of_nat (length data)))))"
proof (intro conjI allI impI)
  show init: "initramfs_init m p s = load_entries es s"
    using load_archive_entries [OF assms, of s] by (simp add: initramfs_init_def terminating_def)
  fix s'
  assume a: "vfs_ok s \<and> root_mountpoint s \<noteq> None \<and> (\<forall>e \<in> set es. take 1 (fst e) \<noteq> [0x2f])" and "initramfs_init m p s = Inr s'"
  then have es: "load_entries es s = Inr s'" using init by simp
  then have all: "loaded es s s' s'" using a by (intro load_entries_loaded) auto
  then show "vfs_ok s'" by (simp add: loaded_def)
  show "vfs_get_node q s' = Inr (Some b)" if "vfs_get_node q s = Inr (Some b)" for q b
    using all that by (simp add: loaded_def)
  fix xs name data ys
  assume e: "es = xs @ (name, USTAR_TYPE_NORMAL, data) # ys \<and>
    (\<forall>e \<in> set ys. is_file e \<longrightarrow> vfs_get_node (fst e) s' \<noteq> vfs_get_node name s')"
  then obtain s1 s2 where s1: "load_entries xs s = Inr s1" "new_file name data s1 = Inr s2" "load_entries ys s2 = Inr s'"
    using es by (auto simp: load_entries_append and_then_eq_Inr)
  have names: "\<forall>e \<in> set xs. take 1 (fst e) \<noteq> [0x2f]" "take 1 name \<noteq> [0x2f]" "\<forall>e \<in> set ys. take 1 (fst e) \<noteq> [0x2f]"
    using a e by auto
  have "loaded xs s s1 s1" using a names(1) s1(1) by (intro load_entries_loaded) auto
  then have ok1: "vfs_ok s1" "root_mountpoint s1 \<noteq> None" using a by (simp_all add: loaded_def)
  then obtain b n where f: "vfs_get_node name s2 = Inr (Some b)" "nodes s2 b = Some n" "file_data n = data"
    "file_size n = of_nat (length data)" "vfs_ok s2" "root_mountpoint s2 = root_mountpoint s1"
    "\<forall>q b. vfs_get_node q s1 = Inr (Some b) \<longrightarrow> vfs_get_node q s2 = Inr (Some b)"
    "\<forall>c n. nodes s1 c = Some n \<longrightarrow> c \<noteq> b \<longrightarrow>
      (\<exists>n'. nodes s2 c = Some n' \<and> file_data n' = file_data n \<and> file_size n' = file_size n)"
    by (rule new_file_result [OF _ _ names(2) s1(2)])
  have l: "loaded ys s2 s' s'" using f(5,6) ok1 names(3) s1(3) by (intro load_entries_loaded) auto
  then have found: "vfs_get_node name s' = Inr (Some b)" using f(1) by (simp add: loaded_def)
  then have "\<forall>e \<in> set ys. is_file e \<longrightarrow> vfs_get_node (fst e) s' \<noteq> Inr (Some b)" using e by simp
  then obtain n' where "nodes s' b = Some n'" "file_data n' = file_data n" "file_size n' = file_size n"
    using l [unfolded loaded_def, THEN conjunct2, THEN conjunct2, THEN conjunct2, rule_format, OF f(2)] by auto
  with found f show "\<exists>a n. vfs_get_node name s' = Inr (Some a) \<and> nodes s' a = Some n \<and>
      file_data n = data \<and> file_size n = of_nat (length data)" by auto
qed

text \<open>An archive with one file \<open>a\<close> of two bytes.\<close>

definition archive_bytes :: memory where
  "archive_bytes a =
     (let i = unat a
      in if i = 0 then 0x61 else if 124 \<le> i \<and> i < 134 then 0x30 else if i = 134 then 0x32 else if i = 156 then 0x30
         else if 257 \<le> i \<and> i < 262 then lit ''ustar'' ! (i - 257)
         else if i = 512 then 7 else if i = 513 then 8 else 0)"

lemma string_atI:
  assumes "bytes_at m p (length cs) = cs" "m (p + of_nat (length cs)) = 0" "0 \<notin> set cs" "length cs < 512"
  shows "string_at m p = Inr cs"
proof -
  obtain k where k: "512 = length cs + Suc k" using assms(4) by (metis add_Suc_right less_imp_Suc_add)
  have "[0..<512] = [0..<length cs] @ length cs # [Suc (length cs)..<512]"
    using assms(4) by (metis less_imp_le_nat upt_add_eq_append upt_conv_Cons zero_le le_add_diff_inverse add_0)
  then have "bytes_at m p 512 = cs @ 0 # map (\<lambda>i. m (p + of_nat i)) [Suc (length cs)..<512]"
    using assms(1,2) by (simp add: bytes_at_def)
  moreover have "takeWhile (\<lambda>c. c \<noteq> 0) (cs @ 0 # zs) = cs" for zs
    using assms(3) by (induction cs) auto
  ultimately show ?thesis by (simp add: string_at_def)
qed

lemma octal_2: "octal 11 2 = [0x30, 0x30, 0x30, 0x30, 0x30, 0x30, 0x30, 0x30, 0x30, 0x30, 0x32]"
  by code_simp

lemma archive_bytes_at: "archive_at archive_bytes 0 [([0x61], USTAR_TYPE_NORMAL, [7, 8])]"
proof -
  have "string_at archive_bytes 0 = Inr [0x61]" by (rule string_atI) (simp_all add: bytes_at_def archive_bytes_def)
  moreover have "string_at archive_bytes 124 = Inr (octal 11 2)"
    unfolding octal_2 by (rule string_atI) (simp_all add: bytes_at_def archive_bytes_def upt_rec)
  moreover have "length [7, 8 :: u8] = 2" by simp
  ultimately show ?thesis
    unfolding archive_at.simps \<open>length [7, 8] = 2\<close>
    by (simp add: header_magic_def header_name_def header_size_def header_flag_def USTAR_TYPE_NORMAL_def
        bytes_at_def archive_bytes_def lit_def ALIGN_UP_def upt_rec)
qed

theorem initramfs_loads_files_witness:
  "\<exists>s' a n. initramfs_init archive_bytes 0 (vfs_booted (\<lambda>_. 0) (\<lambda>_. 0)) = Inr s' \<and>
    vfs_get_node [0x61] s' = Inr (Some a) \<and> nodes s' a = Some n \<and> file_data n = [7, 8] \<and> file_size n = 2"
proof -
  let ?s = "vfs_booted (\<lambda>_. 0) (\<lambda>_. 0)"
  have "vfs_create [0x61] File ?s =
      Inr (Some 1, add_child 0 [0x61] (child_node [0x61] File Tmpfs 0 ?s) root_node no_children ?s)"
    using create_loop_new [of "[0x61]" ?s 0 root_node no_children] by (simp add: vfs_create_def deref_def)
  then have "\<exists>s'. load_entries [([0x61], USTAR_TYPE_NORMAL, [7, 8])] ?s = Inr s'"
    by (simp add: new_file_def non_null_def deref_def add_child_def)
  moreover note l = initramfs_loads_files [OF archive_bytes_at, of ?s]
  ultimately obtain s' where "initramfs_init archive_bytes 0 ?s = Inr s'" by auto
  moreover from this l have "\<exists>a n. vfs_get_node [0x61] s' = Inr (Some a) \<and> nodes s' a = Some n \<and>
      file_data n = [7, 8] \<and> file_size n = 2"
    by (force simp: vfs_booted_ok)
  ultimately show ?thesis by blast
qed

end
