(* ===== verification/Descriptors.thy ===== *)
theory Descriptors
  imports System
begin

text \<open>
  The tables of the processor: the segment descriptors and the task state segment
  (\<open>src/kernel/gdt.cpp\<close>, \<open>gdt.hpp\<close>), and the interrupt gates (\<open>idt.cpp\<close>, \<open>idt.hpp\<close>). A
  descriptor is the value of its bytes. The instructions that load the tables are in assembly
  files and record what the processor was given.
\<close>

section \<open>Segments\<close>

definition gdt_entry :: "u32 \<Rightarrow> u32 \<Rightarrow> u8 \<Rightarrow> u8 \<Rightarrow> u64" where
  "gdt_entry base limit flags granularity =
     ucast (limit AND 0xffff) OR push_bit 16 (ucast (base AND 0xffff)) OR
     push_bit 32 (ucast (drop_bit 16 base AND 0xff)) OR push_bit 40 (ucast flags) OR
     push_bit 48 (ucast (drop_bit 16 limit AND 0xf)) OR push_bit 52 (ucast (granularity AND 0xf)) OR
     push_bit 56 (ucast (drop_bit 24 base AND 0xff))"

text \<open>
  A system descriptor takes two entries. Behind the rest of its base the upper half has five zero bits
  between fields without a name, which are not initialised and hold the bits of \<open>junk\<close>.
\<close>

definition gdt_sys_entry :: "u64 \<Rightarrow> u32 \<Rightarrow> u8 \<Rightarrow> u8 \<Rightarrow> u32 \<Rightarrow> u64 \<times> u64" where
  "gdt_sys_entry base limit flags granularity junk =
     (ucast (limit AND 0xffff) OR push_bit 16 (base AND 0xffff) OR push_bit 32 (drop_bit 16 base AND 0xff) OR
        push_bit 40 (ucast flags) OR push_bit 48 (ucast (drop_bit 16 limit AND 0xf)) OR
        push_bit 52 (ucast (granularity AND 0xf)) OR push_bit 56 (drop_bit 24 base AND 0xff),
      (drop_bit 32 base AND 0xffffffff) OR push_bit 32 (ucast (junk AND NOT 0x1f00)))"

definition initial_gdt :: "u64 list" where
  "initial_gdt = [gdt_entry 0 0 0 0, gdt_entry 0 0 0b10011011 0b0010, gdt_entry 0 0 0b10010011 0b0010,
     gdt_entry 0 0 0b11111011 0b0010, gdt_entry 0 0 0b11110011 0b0010, gdt_entry 0 0 0 0, gdt_entry 0 0 0 0]"

definition GDT_ENTRIES :: u16 where
  "GDT_ENTRIES = 7"

definition TSS_OFFSET :: u16 where
  "TSS_OFFSET = 0x28"

section \<open>Gates\<close>

definition idt_entry :: "u64 \<Rightarrow> u8 \<Rightarrow> u64 \<times> u64" where
  "idt_entry handler flags =
     ((handler AND 0xffff) OR push_bit 16 KERNEL_CS OR push_bit 40 (ucast flags) OR
        push_bit 48 (drop_bit 16 handler AND 0xffff),
      drop_bit 32 handler)"

text \<open>\<open>int_handlers\<close> are the addresses of the entry points in the assembly file.\<close>

definition idt_gate :: "(nat \<Rightarrow> u64) \<Rightarrow> nat \<Rightarrow> u64 \<times> u64" where
  "idt_gate int_handlers i =
     (if i = unat SYSCALL_VECT then idt_entry (int_handlers i) 0b11101110 else idt_entry (int_handlers i) 0b10001110)"

section \<open>Loading\<close>

text \<open>
  \<open>gdtr\<close> and \<open>idtr\<close> are the limit and the address of the loaded tables, \<open>task_register\<close> the
  selector of the task state segment.
\<close>

record tables = system +
  gdt :: "u64 list"
  idt :: "(u64 \<times> u64) list"
  tss_rsp0 :: u64
  gdtr :: "u16 \<times> u64"
  idtr :: "u16 \<times> u64"
  task_register :: u16

definition gdt_load :: "u64 \<Rightarrow> 'a tables_scheme \<Rightarrow> 'a tables_scheme" where
  "gdt_load gdt_entries s = s\<lparr>gdtr := (GDT_ENTRIES * 8 - 1, gdt_entries)\<rparr>"

definition idt_init :: "(nat \<Rightarrow> u64) \<Rightarrow> u64 \<Rightarrow> 'a tables_scheme \<Rightarrow> 'a tables_scheme" where
  "idt_init int_handlers idt_entries s = s\<lparr>idt := map (idt_gate int_handlers) [0..<256], idtr := (0xfff, idt_entries)\<rparr>"

text \<open>
  The interrupt stack of user programs. \<open>tss\<close> is the address of the segment, \<open>junk\<close> what the fields
  without a name of its descriptor hold.
\<close>

definition init_tss :: "u64 \<Rightarrow> u64 \<Rightarrow> u32 \<Rightarrow> 'a tables_scheme \<Rightarrow> 'a tables_scheme option" where
  "init_tss tss gdt_entries junk s =
     do {
       (stack, s) \<leftarrow> pmm_alloc (STACK_SIZE div PAGE_SIZE) s;
       let s = s\<lparr>tss_rsp0 := PHYS_TO_VIRT s (stack + STACK_SIZE)\<rparr>;
       let (entry0, entry1) = gdt_sys_entry tss 0xffff 0b10001001 0 junk;
       let s = s\<lparr>gdt := (gdt s)[5 := entry0, 6 := entry1]\<rparr>;
       Some ((gdt_load gdt_entries s)\<lparr>task_register := TSS_OFFSET\<rparr>) }"

section \<open>What the processor reads\<close>

text \<open>The fields of a gate and of a system descriptor at the places the processor takes them from.\<close>

definition gate_offset :: "u64 \<times> u64 \<Rightarrow> u64" where
  "gate_offset g = (fst g AND 0xffff) OR push_bit 16 (drop_bit 48 (fst g)) OR push_bit 32 (snd g)"

definition gate_selector :: "u64 \<times> u64 \<Rightarrow> u64" where
  "gate_selector g = drop_bit 16 (fst g) AND 0xffff"

definition gate_type :: "u64 \<times> u64 \<Rightarrow> u64" where
  "gate_type g = drop_bit 40 (fst g) AND 0xf"

definition gate_privilege :: "u64 \<times> u64 \<Rightarrow> u64" where
  "gate_privilege g = drop_bit 45 (fst g) AND 3"

definition gate_present :: "u64 \<times> u64 \<Rightarrow> bool" where
  "gate_present g \<longleftrightarrow> bit (fst g) 47"

definition segment_base :: "u64 \<times> u64 \<Rightarrow> u64" where
  "segment_base d =
     (drop_bit 16 (fst d) AND 0xffffff) OR push_bit 24 (drop_bit 56 (fst d)) OR push_bit 32 (snd d)"

definition segment_privilege :: "u64 \<Rightarrow> u64" where
  "segment_privilege d = drop_bit 45 d AND 3"

lemma low_mask: "bit (0xffff :: u64) n \<longleftrightarrow> n < 16" "bit (0xff :: u64) n \<longleftrightarrow> n < 8" "bit (0xffffff :: u64) n \<longleftrightarrow> n < 24"
  "bit (0xffffffff :: u64) n \<longleftrightarrow> n < 32" "bit (0xf :: u64) n \<longleftrightarrow> n < 4" "bit (3 :: u64) n \<longleftrightarrow> n < 2"
proof -
  have *: "(0xffff :: u64) = mask 16" "(0xff :: u64) = mask 8" "(0xffffff :: u64) = mask 24" "(0xffffffff :: u64) = mask 32"
    "(0xf :: u64) = mask 4" "(3 :: u64) = mask 2" by (simp_all add: mask_eq_exp_minus_1)
  show "bit (0xffff :: u64) n \<longleftrightarrow> n < 16" "bit (0xff :: u64) n \<longleftrightarrow> n < 8" "bit (0xffffff :: u64) n \<longleftrightarrow> n < 24"
    "bit (0xffffffff :: u64) n \<longleftrightarrow> n < 32" "bit (0xf :: u64) n \<longleftrightarrow> n < 4" "bit (3 :: u64) n \<longleftrightarrow> n < 2"
    unfolding * by (auto simp: bit_mask_iff)
qed


named_theorems descriptor_bits

lemmas descriptor_word_bits [descriptor_bits] =
  bit_and_iff bit_or_iff bit_push_bit_iff bit_drop_bit_eq bit_unsigned_iff low_mask comp_apply fst_conv snd_conv

lemma kernel_cs_bit:
  assumes "bit KERNEL_CS n"
  shows "n < 16"
proof -
  have *: "KERNEL_CS = push_bit 3 1" by (simp add: KERNEL_CS_def)
  show ?thesis using assms unfolding * by (simp only: bit_push_bit_iff bit_1_iff) auto
qed

lemma flags_bit: "bit (f :: u8) n \<Longrightarrow> n < 8"
  using bit_imp_le_length [of f n] by simp

lemma range_cases:
  obtains "(n :: nat) < 16" | "16 \<le> n" "n < 32" | "32 \<le> n" "n < 40" | "40 \<le> n" "n < 48" | "48 \<le> n" "n < 56" | "56 \<le> n"
  by linarith

lemma idt_entry_bits:
  assumes "n < 64"
  shows "bit (fst (idt_entry h f)) n \<longleftrightarrow>
    (if n < 16 then bit h n else if n < 32 then bit KERNEL_CS (n - 16) else if n < 40 then False
     else if n < 48 then bit f (n - 40) else bit h (n - 32))"
  unfolding idt_entry_def using assms
  by (cases n rule: range_cases; simp only: descriptor_bits possible_bit_word; auto dest: kernel_cs_bit flags_bit)

lemma idt_entry_offset: "gate_offset (idt_entry h f) = h"
proof (rule bit_word_eqI)
  fix n assume n: "n < LENGTH(64)"
  have s: "snd (idt_entry h f) = drop_bit 32 h" by (simp add: idt_entry_def)
  show "bit (gate_offset (idt_entry h f)) n = bit h n"
    using n unfolding gate_offset_def s
    by (cases n rule: range_cases; simp only: descriptor_bits; auto simp: idt_entry_bits dest: bit_imp_le_length)
qed

lemma idt_entry_selector: "gate_selector (idt_entry h f) = KERNEL_CS"
proof (rule bit_word_eqI)
  fix n assume n: "n < LENGTH(64)"
  show "bit (gate_selector (idt_entry h f)) n = bit KERNEL_CS n"
    using n by (simp only: gate_selector_def idt_entry_def descriptor_bits) (auto dest: kernel_cs_bit)
qed

lemma idt_entry_flags: "drop_bit 40 (fst (idt_entry h f)) AND 0xff = ucast f"
proof (rule bit_word_eqI)
  fix n assume n: "n < LENGTH(64)"
  have u: "bit f m \<Longrightarrow> m < 8" for m using bit_imp_le_length [of f m] by simp
  show "bit (drop_bit 40 (fst (idt_entry h f)) AND 0xff) n = bit (ucast f :: u64) n"
    using n by (simp only: idt_entry_def descriptor_bits) (auto dest: u kernel_cs_bit)
qed

lemma flag_fields:
  fixes w :: u64
  shows "drop_bit 40 w AND 0xf = (drop_bit 40 w AND 0xff) AND 0xf"
    "drop_bit 45 w AND 3 = drop_bit 5 (drop_bit 40 w AND 0xff) AND 3"
    "bit w 47 \<longleftrightarrow> bit (drop_bit 40 w AND 0xff) 7"
proof -
  have *: "bit (0xf :: u64) n \<Longrightarrow> bit (0xff :: u64) n" "bit (3 :: u64) n \<Longrightarrow> bit (0xff :: u64) (n + 5)" for n
    unfolding low_mask by auto
  show "drop_bit 40 w AND 0xf = (drop_bit 40 w AND 0xff) AND 0xf"
    by (rule bit_word_eqI) (use *(1) in \<open>simp only: bit_and_iff; blast\<close>)
  show "drop_bit 45 w AND 3 = drop_bit 5 (drop_bit 40 w AND 0xff) AND 3"
    by (rule bit_word_eqI) (simp only: bit_and_iff bit_drop_bit_eq comp_apply low_mask, auto)
  show "bit w 47 \<longleftrightarrow> bit (drop_bit 40 w AND 0xff) 7"
    by (simp only: bit_and_iff bit_drop_bit_eq comp_apply low_mask) simp
qed

lemma idt_entry_fields:
  "gate_type (idt_entry h f) = ucast f AND 0xf"
  "gate_privilege (idt_entry h f) = drop_bit 5 (ucast f) AND 3"
  "gate_present (idt_entry h f) \<longleftrightarrow> bit f 7"
  unfolding gate_type_def gate_privilege_def gate_present_def flag_fields idt_entry_flags by (simp_all add: bit_simps)

lemma sys_entry_bits:
  assumes "n < 64" and "16 \<le> n"
  shows "bit (fst (gdt_sys_entry base 0xffff f 0 junk)) n \<longleftrightarrow>
    (if n < 40 then bit base (n - 16) else if n < 48 then bit f (n - 40) else if n < 56 then False else bit base (n - 32))"
proof -
  have z: "drop_bit 16 (0xffff :: u32) AND 0xf = 0" "(0xffff :: u32) AND 0xffff = 0xffff" "(ucast (0xffff :: u32) :: u64) = 0xffff"
    "(0 :: u8) AND 0xf = 0" "(ucast (0 :: u32) :: u64) = 0" "(ucast (0 :: u8) :: u64) = 0"
    "push_bit 48 (0 :: u64) = 0" "push_bit 52 (0 :: u64) = 0"
    by simp_all
  show ?thesis
    unfolding gdt_sys_entry_def z using assms
    by (cases n rule: range_cases; simp only: descriptor_bits possible_bit_word bit_0_eq; auto dest: flags_bit)
qed

lemma sys_entry_base: "segment_base (gdt_sys_entry base 0xffff f 0 junk) = base"
proof (rule bit_word_eqI)
  fix n assume n: "n < LENGTH(64)"
  have s: "snd (gdt_sys_entry base 0xffff f 0 junk) =
      (drop_bit 32 base AND 0xffffffff) OR push_bit 32 (ucast (junk AND NOT 0x1f00))"
    by (simp add: gdt_sys_entry_def)
  show "bit (segment_base (gdt_sys_entry base 0xffff f 0 junk)) n = bit base n"
    using n unfolding segment_base_def s
    by (cases "n < 24"; cases "n < 32"; simp only: descriptor_bits; auto simp: sys_entry_bits dest: bit_imp_le_length)
qed


lemma idt_gate_fields:
  "gate_offset (idt_gate h i) = h i \<and> gate_selector (idt_gate h i) = KERNEL_CS \<and> gate_type (idt_gate h i) = 14 \<and>
   gate_present (idt_gate h i) \<and> gate_privilege (idt_gate h i) = (if i = unat SYSCALL_VECT then 3 else 0)"
  by (simp add: idt_gate_def idt_entry_offset idt_entry_selector idt_entry_fields)

lemma segment_values:
  "segment_privilege (gdt_entry 0 0 0b10011011 0b0010) = 0" "segment_privilege (gdt_entry 0 0 0b10010011 0b0010) = 0"
  "segment_privilege (gdt_entry 0 0 0b11111011 0b0010) = 3" "segment_privilege (gdt_entry 0 0 0b11110011 0b0010) = 3"
  by (simp_all add: segment_privilege_def gdt_entry_def)

section \<open>Properties\<close>

lemma init_tss_result:
  assumes "pmm_inv s" and "\<not> locked (pmm_lock s)"
  obtains stack s' where "init_tss tss a junk s = Some s'" and "tss_rsp0 s' = PHYS_TO_VIRT s (stack + STACK_SIZE)"
    and "gdt s' = (gdt s)[5 := fst (gdt_sys_entry tss 0xffff 0b10001001 0 junk), 6 := snd (gdt_sys_entry tss 0xffff 0b10001001 0 junk)]"
    and "gdtr s' = (GDT_ENTRIES * 8 - 1, a)" and "task_register s' = TSS_OFFSET"
    and "idt s' = idt s" and "idtr s' = idtr s"
proof -
  let ?n = "STACK_SIZE div PAGE_SIZE"
  have n: "?n \<noteq> 0" "0 < ?n" by (simp_all add: STACK_SIZE_def PAGE_SIZE_def)
  obtain r t where rt: "alloc_passes ?n s = (r, t)" by fastforce
  have "alloc_outcome (unat ?n) s r t" by (rule alloc_passes_outcome [OF n(2) assms(1) rt])
  then have t: "gdt t = gdt s" "hhdm_offset t = hhdm_offset s" "idt t = idt s" "idtr t = idtr s"
    by (auto simp: alloc_outcome_def take_run_def split: if_splits)
  obtain e0 e1 where e: "gdt_sys_entry tss 0xffff 0b10001001 0 junk = (e0, e1)" by fastforce
  let ?t = "t\<lparr>pmm_lock := freed_lock s\<rparr>"
  show ?thesis
    by (rule that [of "(gdt_load a (?t\<lparr>tss_rsp0 := PHYS_TO_VIRT s (r + STACK_SIZE), gdt := (gdt s)[5 := e0, 6 := e1]\<rparr>))
          \<lparr>task_register := TSS_OFFSET\<rparr>" r])
       (simp_all add: init_tss_def pmm_alloc_eq [OF assms(2) n(1) rt] e t gdt_load_def PHYS_TO_VIRT_def)
qed

text \<open>
  C22: After start-up the processor reads from the tables what the kernel means. Each of the 256
  gates leads to the entry point of its vector with the kernel's code segment, as a present
  interrupt gate that only the kernel may raise, but for the gate of system calls, which user
  programs may raise; the limit of the table covers exactly these gates. The loaded task state
  segment is the descriptor at its selector, whose base is the address of the segment. The user
  selectors stand for segments of privilege 3, the kernel's for privilege 0. Nothing of this depends
  on what the fields without a name of the descriptor hold.
\<close>

theorem descriptor_tables:
  assumes "pmm_inv s" and "\<not> locked (pmm_lock s)" and "gdt s = initial_gdt" and "i < 256"
  shows "\<exists>s'. init_tss tss a junk (idt_init h p s) = Some s' \<and> (let g = idt s' ! i in
      gate_offset g = h i \<and> gate_selector g = KERNEL_CS \<and> gate_type g = 14 \<and> gate_present g \<and>
      gate_privilege g = (if i = unat SYSCALL_VECT then 3 else 0)) \<and>
    idtr s' = (of_nat (length (idt s')) * 16 - 1, p) \<and> gdtr s' = (of_nat (length (gdt s')) * 8 - 1, a) \<and>
    (let j = unat (task_register s') div 8 in segment_base (gdt s' ! j, gdt s' ! (j + 1)) = tss) \<and>
    segment_privilege (gdt s' ! (unat USER_CS div 8)) = 3 \<and> segment_privilege (gdt s' ! (unat USER_DS div 8)) = 3 \<and>
    segment_privilege (gdt s' ! (unat KERNEL_CS div 8)) = 0 \<and> segment_privilege (gdt s' ! (unat KERNEL_DS div 8)) = 0"
proof -
  let ?s = "idt_init h p s"
  have s: "pmm_inv ?s" "\<not> locked (pmm_lock ?s)" "gdt ?s = initial_gdt"
    using assms(1-3) by (simp_all add: idt_init_def pmm_inv_def search_limit_def page_used_def)
  obtain stack s' where s': "init_tss tss a junk ?s = Some s'" "idt s' = idt ?s" "idtr s' = idtr ?s"
    "gdt s' = (gdt ?s)[5 := fst (gdt_sys_entry tss 0xffff 0b10001001 0 junk), 6 := snd (gdt_sys_entry tss 0xffff 0b10001001 0 junk)]"
    "gdtr s' = (GDT_ENTRIES * 8 - 1, a)" "task_register s' = TSS_OFFSET"
    by (rule init_tss_result [OF s(1,2), of tss a junk])
  have g: "idt s' ! i = idt_gate h i" "length (idt s') = 256" "idtr s' = (0xfff, p)"
    using assms(4) unfolding s'(2,3) by (simp_all add: idt_init_def)
  have len: "length (gdt s') = 7" unfolding s'(4) s(3) by (simp add: initial_gdt_def)
  have tss: "(gdt s' ! 5, gdt s' ! 6) = gdt_sys_entry tss 0xffff 0b10001001 0 junk"
    unfolding s'(4) s(3) by (simp add: initial_gdt_def)
  have segs: "gdt s' ! 1 = gdt_entry 0 0 0b10011011 0b0010" "gdt s' ! 2 = gdt_entry 0 0 0b10010011 0b0010"
    "gdt s' ! 3 = gdt_entry 0 0 0b11111011 0b0010" "gdt s' ! 4 = gdt_entry 0 0 0b11110011 0b0010"
    unfolding s'(4) s(3) by (simp_all add: initial_gdt_def)
  show ?thesis
  proof (intro exI [of _ s'] conjI)
    show "let g = idt s' ! i in gate_offset g = h i \<and> gate_selector g = KERNEL_CS \<and> gate_type g = 14 \<and>
        gate_present g \<and> gate_privilege g = (if i = unat SYSCALL_VECT then 3 else 0)"
      unfolding g(1) Let_def by (rule idt_gate_fields)
    show "let j = unat (task_register s') div 8 in segment_base (gdt s' ! j, gdt s' ! (j + 1)) = tss"
      using tss by (simp add: s'(6) TSS_OFFSET_def sys_entry_base)
  qed (simp_all add: s'(1,5) g(2,3) len GDT_ENTRIES_def USER_CS_def USER_DS_def KERNEL_CS_def KERNEL_DS_def segs segs [simplified] segment_values)
qed

theorem descriptor_tables_witness:
  "\<forall>(s0 :: tables). \<exists>s'. init_tss 0xffff800000201000 0xffff800000202000 0xffffffff
      (idt_init (\<lambda>i. 0xffffffff80001000 + of_nat i * 16) 0xffff800000203000
         (s0\<lparr>mem := mem pmm_sample, pmm_bitmap := pmm_bitmap pmm_sample, last_page_idx := 0,
            pmm_lock := pmm_lock pmm_sample, gdt := initial_gdt\<rparr>)) = Some s' \<and>
     gate_offset (idt s' ! 0xfe) = 0xffffffff80001fe0 \<and> gate_privilege (idt s' ! 0xfe) = 3"
proof
  fix s0 :: tables
  let ?s = "s0\<lparr>mem := mem pmm_sample, pmm_bitmap := pmm_bitmap pmm_sample, last_page_idx := 0,
            pmm_lock := pmm_lock pmm_sample, gdt := initial_gdt\<rparr>"
  have "pmm_inv ?s" "\<not> locked (pmm_lock ?s)" "gdt ?s = initial_gdt" "(254 :: nat) < 256"
    using pmm_sample_inv by (simp_all add: pmm_inv_def search_limit_def page_used_def pmm_sample_def)
  from descriptor_tables [OF this, where tss = "0xffff800000201000" and a = "0xffff800000202000"
      and junk = "0xffffffff" and h = "\<lambda>i. 0xffffffff80001000 + of_nat i * 16" and p = "0xffff800000203000"]
  show "\<exists>s'. init_tss 0xffff800000201000 0xffff800000202000 0xffffffff
      (idt_init (\<lambda>i. 0xffffffff80001000 + of_nat i * 16) 0xffff800000203000 ?s) = Some s' \<and>
     gate_offset (idt s' ! 0xfe) = 0xffffffff80001fe0 \<and> gate_privilege (idt s' ! 0xfe) = 3"
    by (auto simp: Let_def SYSCALL_VECT_def)
qed

end
