(* ===== verification/Elf.thy ===== *)
theory Elf
  imports Calls
begin

text \<open>
  The loader of programs (\<open>src/kernel/elf.cpp\<close>, \<open>elf.hpp\<close>). The layout and the constants of an
  ELF file are those of the C library's \<open>elf.h\<close>, which the kernel only includes: they are an
  argument, with the functions that take a header from its bytes.
\<close>

record ehdr =
  e_ident :: "u8 list"
  e_machine :: u16
  e_version :: u32
  e_entry :: u64
  e_phoff :: u64
  e_ehsize :: u16
  e_phentsize :: u16
  e_phnum :: u16

record phdr =
  p_type :: u32
  p_flags :: u32
  p_offset :: u64
  p_vaddr :: u64
  p_filesz :: u64
  p_memsz :: u64

record elf_format =
  ehdr_size :: u16
  ehdr_of :: "u8 list \<Rightarrow> ehdr"
  phdr_size :: u16
  phdr_of :: "u8 list \<Rightarrow> phdr"
  ELFMAG :: "u8 list"
  EI_CLASS :: nat
  EI_DATA :: nat
  EI_OSABI :: nat
  EI_VERSION :: nat
  ELFCLASS64 :: u8
  ELFDATA2LSB :: u8
  ELFOSABI_SYSV :: u8
  EV_CURRENT :: u8
  EM_X86_64 :: u16
  PT_LOAD :: u32
  PT_PHDR :: u32
  PT_INTERP :: u32
  PF_W :: u32
  PF_X :: u32

definition elf_validate :: "elf_format \<Rightarrow> ehdr \<Rightarrow> bool" where
  "elf_validate c h \<longleftrightarrow>
     e_ident h ! EI_CLASS c = ELFCLASS64 c \<and> e_ident h ! EI_DATA c = ELFDATA2LSB c \<and>
     e_ident h ! EI_OSABI c = ELFOSABI_SYSV c \<and> e_ident h ! EI_VERSION c = EV_CURRENT c \<and>
     e_machine h = EM_X86_64 c \<and> e_version h = ucast (EV_CURRENT c) \<and> e_ehsize h = ehdr_size c"

text \<open>
  A read into a buffer that held \<open>old\<close>: the number \<open>Vfs::read\<close> returns and what the buffer
  holds then.
\<close>

definition read_into ::
  "u8 list \<Rightarrow> nat option \<Rightarrow> u64 \<Rightarrow> 'a kernel_scheme \<Rightarrow> fault + (u64 \<times> u8 list \<times> 'a kernel_scheme)" where
  "read_into old fd len s =
     and_then (vfs_read fd len (files s)) (\<lambda>(bytes_read, bytes, v).
       Inr (bytes_read, bytes @ drop (length bytes) old, s\<lparr>files := v\<rparr>))"

definition seek_to :: "nat option \<Rightarrow> u64 \<Rightarrow> 'a kernel_scheme \<Rightarrow> fault + 'a kernel_scheme" where
  "seek_to fd offset s = and_then (vfs_seek fd offset Seek_Set (files s)) (\<lambda>v. Inr (s\<lparr>files := v\<rparr>))"

text \<open>A read to the memory at \<open>p\<close>.\<close>

definition read_to ::
  "u64 \<Rightarrow> nat option \<Rightarrow> u64 \<Rightarrow> 'a kernel_scheme \<Rightarrow> fault + (u64 \<times> 'a kernel_scheme)" where
  "read_to p fd len s =
     and_then (vfs_read fd len (files s)) (\<lambda>(bytes_read, bytes, v).
       Inr (bytes_read, s\<lparr>files := v, mem := put_bytes p bytes (mem s)\<rparr>))"

text \<open>The page flags of a segment, kept in an \<open>int\<close>.\<close>

definition segment_prot :: "elf_format \<Rightarrow> u32 \<Rightarrow> u64" where
  "segment_prot c flags =
     (let prot = int_flags (PTE_PRESENT OR PTE_USER);
          prot = (if flags AND PF_W c \<noteq> 0 then int_flags (prot OR PTE_WRITABLE) else prot)
      in if flags AND PF_X c = 0 then int_flags (prot OR PTE_NX) else prot)"

text \<open>The results say whether loading goes on.\<close>

definition load_segment ::
  "elf_format \<Rightarrow> u64 \<Rightarrow> nat option \<Rightarrow> u64 \<Rightarrow> phdr \<Rightarrow> 'a kernel_scheme \<Rightarrow> fault + (bool \<times> 'a kernel_scheme)" where
  "load_segment c space fd load_base p s =
     (let misalign = p_vaddr p AND (PAGE_SIZE - 1);
          page_count = ALIGN_UP (p_memsz p + misalign) PAGE_SIZE div PAGE_SIZE
      in and_then (terminating (pmm_calloc page_count s)) (\<lambda>(phys, s).
           if phys = 0 then Inr (False, s)
           else and_then (terminating (map_range space (p_vaddr p + load_base) phys page_count (segment_prot c (p_flags p)) s))
             (\<lambda>s. and_then (seek_to fd (p_offset p) s) (\<lambda>s.
               and_then (read_to (PHYS_TO_VIRT s (phys + misalign)) fd (p_filesz p) s) (\<lambda>(n, s). Inr (n \<noteq> 0, s))))))"

text \<open>\<open>want_path\<close> is whether the caller gave a place for the interpreter's path, \<open>ld_path\<close> what is in it.\<close>

definition load_interp ::
  "bool \<Rightarrow> nat option \<Rightarrow> phdr \<Rightarrow> u64 \<Rightarrow> 'a kernel_scheme \<Rightarrow> fault + (bool \<times> u64 \<times> 'a kernel_scheme)" where
  "load_interp want_path fd p ld_path s =
     and_then (terminating (kcalloc (p_filesz p + 1) s)) (\<lambda>(path, s).
       if path = 0 then Inr (False, ld_path, s)
       else and_then (seek_to fd (p_offset p) s) (\<lambda>s.
         and_then (read_to path fd (p_filesz p) s) (\<lambda>(n, s).
           if n = 0 then and_then (terminating (kfree path s)) (\<lambda>s. Inr (False, ld_path, s))
           else Inr (True, if want_path then path else ld_path, s))))"

definition load_program_header ::
  "elf_format \<Rightarrow> u64 \<Rightarrow> nat option \<Rightarrow> u64 \<Rightarrow> bool \<Rightarrow> phdr \<Rightarrow> auxval \<Rightarrow> u64 \<Rightarrow> 'a kernel_scheme \<Rightarrow>
   fault + (bool \<times> auxval \<times> u64 \<times> 'a kernel_scheme)" where
  "load_program_header c space fd load_base want_path p auxv ld_path s =
     (if p_type p = PT_LOAD c then
        and_then (load_segment c space fd load_base p s) (\<lambda>(ok, s). Inr (ok, auxv, ld_path, s))
      else if p_type p = PT_PHDR c then Inr (True, auxv\<lparr>at_phdr := p_vaddr p + load_base\<rparr>, ld_path, s)
      else if p_type p = PT_INTERP c then
        and_then (load_interp want_path fd p ld_path s) (\<lambda>(ok, ld_path, s). Inr (ok, auxv, ld_path, s))
      else Inr (True, auxv, ld_path, s))"

text \<open>\<open>buffer\<close> is what the program header on the stack holds.\<close>

primrec load_program_headers ::
  "elf_format \<Rightarrow> u64 \<Rightarrow> nat option \<Rightarrow> u64 \<Rightarrow> bool \<Rightarrow> ehdr \<Rightarrow> nat list \<Rightarrow> u8 list \<Rightarrow> auxval \<Rightarrow> u64 \<Rightarrow> 'a kernel_scheme \<Rightarrow>
   fault + (bool \<times> auxval \<times> u64 \<times> 'a kernel_scheme)" where
  "load_program_headers c space fd load_base want_path h [] buffer auxv ld_path s = Inr (True, auxv, ld_path, s)"
| "load_program_headers c space fd load_base want_path h (i # is) buffer auxv ld_path s =
     and_then (seek_to fd (e_phoff h + of_nat i * ucast (e_phentsize h)) s) (\<lambda>s.
     and_then (read_into buffer fd (ucast (phdr_size c)) s) (\<lambda>(n, buffer, s).
       if n = 0 then Inr (False, auxv, ld_path, s)
       else and_then (load_program_header c space fd load_base want_path (phdr_of c buffer) auxv ld_path s)
         (\<lambda>(ok, auxv, ld_path, s).
            if ok then load_program_headers c space fd load_base want_path h is buffer auxv ld_path s
            else Inr (False, auxv, ld_path, s))))"

text \<open>
  The stack held \<open>junk\<close> where the header is read to and \<open>junk_program\<close> where the program
  headers are.
\<close>

definition elf_load ::
  "elf_format \<Rightarrow> u8 list \<Rightarrow> u8 list \<Rightarrow> u64 \<Rightarrow> nat option \<Rightarrow> u64 \<Rightarrow> bool \<Rightarrow> auxval \<Rightarrow> u64 \<Rightarrow> 'a kernel_scheme \<Rightarrow>
   fault + (bool \<times> auxval \<times> u64 \<times> 'a kernel_scheme)" where
  "elf_load c junk junk_program space fd load_base want_path auxv ld_path s =
     and_then (read_into junk fd (ucast (ehdr_size c)) s) (\<lambda>(n, bytes, s).
       let h = ehdr_of c bytes
       in if n = 0 \<or> take 4 (e_ident h) \<noteq> take 4 (ELFMAG c) \<or> \<not> elf_validate c h then Inr (False, auxv, ld_path, s)
          else and_then (load_program_headers c space fd load_base want_path h [0..<unat (e_phnum h)] junk_program auxv ld_path s)
            (\<lambda>(ok, auxv, ld_path, s).
               if ok then Inr (True, auxv\<lparr>at_entry := e_entry h + load_base, at_phent := ucast (e_phentsize h),
                   at_phnum := ucast (e_phnum h)\<rparr>, ld_path, s)
               else Inr (False, auxv, ld_path, s)))"

end
