(* ===== verification/Boot.thy ===== *)
theory Boot
  imports Descriptors Initramfs E1000 Elf
begin

text \<open>
  The start of the kernel (\<open>src/kernel/kernel.cpp\<close>): \<open>_start\<close> sets up the components in order and
  leaves one task, \<open>kernel_main\<close>, which looks for devices and starts the first program. What the
  boot loader and the linker give is an argument, as is what uninitialised memory holds.
\<close>

record boot_info =
  build_text :: "u8 list"
  font_file :: psf_font
  fb_response :: "(u64 \<times> u64 \<times> u64) option"
  memmap :: "memmap_entry list"
  module_address :: u64
  boot_time :: u64
  image :: kernel_image
  int_handlers :: "nat \<Rightarrow> u64"
  idt_address :: u64
  gdt_address :: u64
  tss_address :: u64
  kernel_main_address :: u64
  idle_address :: u64
  packet_handler_address :: u64
  types_of_auxv :: auxv_types
  format_of_elf :: elf_format
  junk_task :: task
  junk_auxv :: auxval
  junk_type :: node_type
  junk_cache :: "nat list"
  junk_header :: "u8 list"
  junk_pointer :: u64
  junk_descriptor :: u32

record computer = tables +
  cr0 :: u64
  cr4 :: u64

definition message :: "string \<Rightarrow> 'a system_scheme \<Rightarrow> fault + 'a system_scheme" where
  "message text s = printf (lit text @ [0x0a]) [] s"

definition on_files :: "(vfs \<Rightarrow> fault + vfs) \<Rightarrow> 'a kernel_scheme \<Rightarrow> fault + 'a kernel_scheme" where
  "on_files f s = and_then (f (files s)) (\<lambda>v. Inr (s\<lparr>files := v\<rparr>))"

definition enable_sse :: "'a computer_scheme \<Rightarrow> 'a computer_scheme" where
  "enable_sse s = s\<lparr>cr0 := cr0 s AND NOT (push_bit 2 1) OR push_bit 1 1, cr4 := cr4 s OR push_bit 9 3\<rparr>"

text \<open>
  The three parts of \<open>_start\<close>: until the interrupt controllers are set up, the allocators, and
  the files and tasks. The result \<open>None\<close> is a kernel that halts at once, for want of a frame
  buffer.
\<close>

definition start_processor :: "boot_info \<Rightarrow> 'a computer_scheme \<Rightarrow> fault + 'a computer_scheme" where
  "start_processor b s =
     and_then (message ''{green}[*]{white} Interrupt handlers initialized.'' (interrupt_init s)) (\<lambda>s.
     and_then (message ''{green}[*]{white} GDT loaded.'' (gdt_load (gdt_address b) s)) (\<lambda>s.
     and_then (message ''{green}[*]{white} IDT loaded.'' (idt_init (int_handlers b) (idt_address b) s)) (\<lambda>s.
     message ''{green}[*]{white} APIC initialized.'' (apic_init (timer_init (boot_time b) s)))))"

definition start_memory :: "boot_info \<Rightarrow> 'a computer_scheme \<Rightarrow> fault + 'a computer_scheme" where
  "start_memory b s =
     and_then (terminating (pmm_init (memmap b) s)) (\<lambda>(entries, s).
     and_then (message ''{green}[*]{white} PMM initialized.'' s) (\<lambda>s.
     and_then (terminating (heap_init s)) (\<lambda>s.
     and_then (message ''{green}[*]{white} Heap allocator initialized.'' s) (\<lambda>s.
     and_then (terminating (vmm_init (image b) entries s)) (\<lambda>s.
     and_then (message ''{green}[*]{white} VMM initialized.'' s) (\<lambda>s.
     terminating (init_tss (tss_address b) (gdt_address b) (junk_descriptor b) s)))))))"

definition start_tasks :: "boot_info \<Rightarrow> 'a computer_scheme \<Rightarrow> fault + 'a computer_scheme" where
  "start_tasks b s =
     and_then (on_files (\<lambda>v. and_then (vfs_mount None Tmpfs v) (\<lambda>v.
       initramfs_init (mem s) (module_address b) (vfs_init_std Tty (junk_type b) v))) s) (\<lambda>s.
     and_then (and_then (terminating (task_create (types_of_auxv b) (junk_task b) (lit ''kernel_main'') (kernel_main_address b)
       False None (junk_auxv b) (enable_sse s))) id) (\<lambda>(t, s).
     and_then (and_then (terminating (scheduler_init (types_of_auxv b) (junk_task b) (junk_auxv b) (idle_address b) s)) id) (\<lambda>s.
     add_task t s)))"

definition start :: "boot_info \<Rightarrow> 'a computer_scheme \<Rightarrow> fault + 'a computer_scheme option" where
  "start b s =
     (case fb_response b of
        None \<Rightarrow> Inr None
      | Some (address, width, height) \<Rightarrow>
          and_then (printf (lit ''UmbraOS * build '' @ build_text b @ [0x0a]) []
             (s\<lparr>terminal := terminal_init (font_file b) address width height (terminal s)\<rparr>)) (\<lambda>s.
          and_then (start_processor b s) (\<lambda>s.
          and_then (start_memory b s) (\<lambda>s.
          and_then (start_tasks b s) (\<lambda>s. Inr (Some s))))))"

section \<open>The first task\<close>

text \<open>The string at the address the loader stored, which \<open>Vfs::open\<close> gets.\<close>

definition open_file :: "u8 list \<Rightarrow> 'a kernel_scheme \<Rightarrow> fault + (nat option \<times> 'a kernel_scheme)" where
  "open_file path s = and_then (vfs_open path ReadOnly (files s)) (\<lambda>(fd, v). Inr (fd, s\<lparr>files := v\<rparr>))"

definition kernel_main ::
  "boot_info \<Rightarrow> (registers \<Rightarrow> 'a computer_scheme \<Rightarrow> fault + (registers \<times> 'a computer_scheme)) \<Rightarrow> registers \<Rightarrow>
   'a computer_scheme \<Rightarrow> fault + 'a computer_scheme" where
  "kernel_main b interrupt caller s =
     and_then (pci_init (e1000_init (types_of_auxv b) (junk_task b) (junk_auxv b) (packet_handler_address b) (junk_cache b)
       interrupt caller) s) (\<lambda>s.
     and_then (terminating (new_space s)) (\<lambda>(space, s).
     and_then (open_file (lit ''/ping'') s) (\<lambda>(fd, s).
     and_then (elf_load (format_of_elf b) (junk_header b) (junk_header b) space fd 0 True (junk_auxv b) (junk_pointer b) s)
       (\<lambda>(_, init_auxv, ld_path, s).
     and_then (string_at (mem s) ld_path) (\<lambda>path.
     and_then (open_file path s) (\<lambda>(ld, s).
     and_then (elf_load (format_of_elf b) (junk_header b) (junk_header b) space ld 0x40000000 False (junk_auxv b) 0 s)
       (\<lambda>(_, ld_auxv, _, s).
     and_then (and_then (terminating (task_create (types_of_auxv b) (junk_task b) (lit ''test'') (at_entry ld_auxv) True
       (Some space) init_auxv s)) id) (\<lambda>(t, s).
     and_then (non_null fd) (\<lambda>d. and_then (deref (fds (files s)) d) (\<lambda>f. and_then (deref (nodes (files s)) (fd_node f)) (\<lambda>n.
     let s = update_task t (\<lambda>k. k\<lparr>heap_cur := at_entry init_auxv + ALIGN_UP (file_size n) PAGE_SIZE,
           working_dir := fst (dup_string (lit ''/'')), working_dir_size := snd (dup_string (lit ''/''))\<rparr>) s;
         s = s\<lparr>files := vfs_close ld (vfs_close fd (files s))\<rparr>
     in add_task t s)))))))))))"

end
