(* ===== verification/Vmm_Range.thy ===== *)
theory Vmm_Range
  imports Vmm
begin

text \<open>
  Ranges of pages: what taking pages from the allocator, mapping a range of them into an address space
  and writing to them does to the tree of page tables and to the bytes a program sees.
\<close>

section \<open>Pages of a range have different paths\<close>

lemma low_index: "w AND 0x1ff = take_bit 9 (w :: u64)"
  by (simp add: take_bit_eq_mask mask_eq_exp_minus_1)

lemma va_path_bits:
  assumes "va_path v = va_path w"
  shows "take_bit 36 (drop_bit 12 v) = take_bit 36 (drop_bit 12 w)"
proof (rule bit_word_eqI)
  fix n assume "n < LENGTH(64)"
  have eq: "take_bit 9 (drop_bit k v) = take_bit 9 (drop_bit k w)" if "k = 12 \<or> k = 21 \<or> k = 30 \<or> k = 39" for k
    using assms that by (auto simp: va_path_def low_index word_unat_eq_iff)
  have bit: "bit v (k + j) = bit w (k + j)" if "j < 9" "k = 12 \<or> k = 21 \<or> k = 30 \<or> k = 39" for k j
    using arg_cong [OF eq [OF that(2)], of "\<lambda>x. bit x j"] that(1) by (simp add: bit_take_bit_iff bit_drop_bit_eq)
  consider "n < 9" | "9 \<le> n" "n < 18" | "18 \<le> n" "n < 27" | "27 \<le> n" "n < 36" | "36 \<le> n" by linarith
  then show "bit (take_bit 36 (drop_bit 12 v)) n = bit (take_bit 36 (drop_bit 12 w)) n"
  proof cases
    case 1 with bit [of n 12] show ?thesis by (simp add: bit_take_bit_iff bit_drop_bit_eq)
  next
    case 2 with bit [of "n - 9" 21] show ?thesis by (simp add: bit_take_bit_iff bit_drop_bit_eq)
  next
    case 3 with bit [of "n - 18" 30] show ?thesis by (simp add: bit_take_bit_iff bit_drop_bit_eq)
  next
    case 4 with bit [of "n - 27" 39] show ?thesis by (simp add: bit_take_bit_iff bit_drop_bit_eq)
  qed (simp add: bit_take_bit_iff)
qed

lemma va_path_page: "va_path v = va_path w \<Longrightarrow> unat v div 4096 mod 2 ^ 36 = unat w div 4096 mod 2 ^ 36"
  using arg_cong [OF va_path_bits, of v w unat]
  by (simp add: unsigned_take_bit_eq unat_drop_bit_eq take_bit_eq_mod drop_bit_eq_div unat_mod unat_div)

lemma page_of_offset: "unat (v + of_nat i * PAGE_SIZE) div 4096 mod 2 ^ 36 = (unat v div 4096 + i) mod 2 ^ 36"
proof -
  have "v + of_nat i * PAGE_SIZE = (of_nat (unat v + i * 4096) :: u64)" by (simp add: PAGE_SIZE_def)
  then have "unat (v + of_nat i * PAGE_SIZE) = (unat v + i * 4096) mod 2 ^ 64"
    by (simp only: unat_of_nat) simp
  moreover have "x mod 2 ^ 64 div 4096 mod 2 ^ 36 = x div 4096 mod 2 ^ 36" for x :: nat
    using drop_bit_take_bit [of 12 64 x] by (simp add: take_bit_eq_mod drop_bit_eq_div mod_mod_cancel)
  ultimately show ?thesis by (simp add: add.commute)
qed

lemma va_path_distinct:
  assumes "va_path (v + of_nat i * PAGE_SIZE) = va_path (v + of_nat j * PAGE_SIZE)" "i < 2 ^ 36" "j < 2 ^ 36"
  shows "i = j"
proof -
  have "(unat v div 4096 + i) mod 2 ^ 36 = (unat v div 4096 + j) mod 2 ^ 36"
    using va_path_page [OF assms(1)] by (simp only: page_of_offset)
  then have "i mod 2 ^ 36 = j mod 2 ^ 36" unfolding nat_mod_eq_iff by (simp only: add.assoc add_left_cancel)
  with assms(2,3) show ?thesis by simp
qed

section \<open>Mapping a range\<close>

text \<open>An address space that is ready to be changed.\<close>

definition space_ready :: "'a vmm_scheme \<Rightarrow> nat \<Rightarrow> u64 \<Rightarrow> bool" where
  "space_ready s root this \<longleftrightarrow> vm_inv s root \<and> as_pml4 (spaces s this) = page_va s root \<and> \<not> locked (space_lock this s)"

text \<open>
  The pages \<open>k .. n - 1\<close> of a range are mapped: those that were not mapped before translate to the
  pages of the physical range, those that were keep their translation, and so does every other page.
\<close>

definition page_at :: "u64 \<Rightarrow> nat \<Rightarrow> u64" where
  "page_at v i = v + of_nat i * PAGE_SIZE"

definition range_mapped ::
  "nat \<Rightarrow> u64 \<Rightarrow> u64 \<Rightarrow> u64 \<Rightarrow> nat \<Rightarrow> nat \<Rightarrow> 'a vmm_scheme \<Rightarrow> 'a vmm_scheme \<Rightarrow> bool" where
  "range_mapped root v phys flags k n s t \<longleftrightarrow>
     (\<forall>v'. (\<forall>i. k \<le> i \<and> i < n \<longrightarrow> va_path v' \<noteq> va_path (page_at v i)) \<longrightarrow> translate t root v' = translate s root v') \<and>
     (\<forall>i. k \<le> i \<and> i < n \<longrightarrow>
        (case translate s root (page_at v i) of Some e \<Rightarrow> translate t root (page_at v i) = Some e
         | None \<Rightarrow> translate t root (page_at v i) = Some (page_at phys i OR flags)))"

text \<open>Pages in use stay in use, and pages that are no tables keep their bytes.\<close>

definition keeps_pages :: "'a vmm_scheme \<Rightarrow> 'a vmm_scheme \<Rightarrow> bool" where
  "keeps_pages s t \<longleftrightarrow> bit_count t = bit_count s \<and> (\<forall>k. unat k < bit_count s \<and> page_used s k \<longrightarrow> page_used t k)"

lemma keeps_pages_trans: "keeps_pages s t \<Longrightarrow> keeps_pages t u \<Longrightarrow> keeps_pages s u"
  by (simp add: keeps_pages_def)

definition keeps_data :: "nat \<Rightarrow> 'a vmm_scheme \<Rightarrow> 'a vmm_scheme \<Rightarrow> bool" where
  "keeps_data root s t \<longleftrightarrow> hhdm_offset t = hhdm_offset s \<and>
     (\<forall>q. data_page s root q \<longrightarrow> data_page t root q \<and> (\<forall>a \<in> frame s q. mem t a = mem s a))"

lemma frame_hhdm: "hhdm_offset t = hhdm_offset s \<Longrightarrow> frame t = frame s"
  by (simp add: fun_eq_iff frame_def page_va_def PHYS_TO_VIRT_def)

lemma keeps_data_trans: "keeps_data root s t \<Longrightarrow> keeps_data root t u \<Longrightarrow> keeps_data root s u"
  using frame_hhdm [of t s] unfolding keeps_data_def by metis

lemma map_page:
  assumes "space_ready s root this" "phys_ok phys" "flags_ok flags" "room_ahead s (m + 3)"
  obtains t where "as_map this va phys flags s = Some t" "space_ready t root this" "rflags t = rflags s"
    "keeps_pages s t" "keeps_data root s t" "vmm.more t = vmm.more s"
    "\<And>v'. va_path v' \<noteq> va_path va \<Longrightarrow> translate t root v' = translate s root v'"
    "case translate s root va of Some e \<Rightarrow> translate t root va = Some e
     | None \<Rightarrow> translate t root va = Some (phys OR flags)" "room_ahead t m"
proof -
  note ready = assms(1) [unfolded space_ready_def]
  show ?thesis
    by (rule as_map_spec [OF ready [THEN conjunct1] ready [THEN conjunct2, THEN conjunct1]
        ready [THEN conjunct2, THEN conjunct2] assms(2-4), of va])
      (rule that, assumption, auto simp: space_ready_def keeps_pages_def keeps_data_def bit_count_def split: option.splits)
qed

lemma page_index_less:
  assumes "i < 2 ^ 36" "n < 2 ^ 36"
  shows "of_nat i * PAGE_SIZE < of_nat n * PAGE_SIZE \<longleftrightarrow> i < n"
  using assms unat_page_addr [of i] unat_page_addr [of n] by (simp add: word_less_nat_alt)

lemma map_range_from_spec:
  assumes "space_ready s root this" "flags_ok flags" "\<And>i. i < n \<Longrightarrow> phys_ok (page_at phys i)" "n < 2 ^ 36" "k \<le> n"
    "room_ahead s (m + 3 * (n - k))"
  shows "\<exists>t. map_range_from this v phys (of_nat n) flags (of_nat k * PAGE_SIZE) s = Some t \<and> space_ready t root this \<and>
    rflags t = rflags s \<and> keeps_pages s t \<and> keeps_data root s t \<and> vmm.more t = vmm.more s \<and>
    range_mapped root v phys flags k n s t \<and> room_ahead t m"
  using assms(5,1,6)
proof (induction "n - k" arbitrary: k s)
  case 0
  then have "k = n" by simp
  then have "range_mapped root v phys flags k n s s" by (auto simp: range_mapped_def)
  with 0 \<open>k = n\<close> show ?case by (subst map_range_from.simps) (simp add: keeps_pages_def keeps_data_def)
next
  case (Suc l)
  then have k: "k < n" and l: "l = n - Suc k" by simp_all
  have "m + 3 * (n - k) = (m + 3 * (n - Suc k)) + 3" using k by simp
  then have room: "room_ahead s ((m + 3 * (n - Suc k)) + 3)" using Suc.prems(3) by (simp add: add.assoc)
  obtain u where u: "as_map this (page_at v k) (page_at phys k) flags s = Some u" "space_ready u root this"
    "rflags u = rflags s" "keeps_pages s u" "keeps_data root s u" "vmm.more u = vmm.more s"
    "\<And>v'. va_path v' \<noteq> va_path (page_at v k) \<Longrightarrow> translate u root v' = translate s root v'"
    "case translate s root (page_at v k) of Some e \<Rightarrow> translate u root (page_at v k) = Some e
     | None \<Rightarrow> translate u root (page_at v k) = Some (page_at phys k OR flags)" "room_ahead u (m + 3 * (n - Suc k))"
    by (rule map_page [OF Suc.prems(2) assms(3) [OF k] assms(2) room, of "page_at v k"]) (rule that)
  obtain t where t: "map_range_from this v phys (of_nat n) flags (of_nat (Suc k) * PAGE_SIZE) u = Some t"
    "space_ready t root this" "rflags t = rflags u" "keeps_pages u t" "keeps_data root u t" "vmm.more t = vmm.more u"
    "range_mapped root v phys flags (Suc k) n u t" "room_ahead t m"
    using Suc.hyps(1) [OF l _ u(2,9)] k by (auto simp: Suc_le_eq)
  have later: "va_path (page_at v i) \<noteq> va_path (page_at v k)" if "Suc k \<le> i" "i < n" for i
    using va_path_distinct [of v i k] that assms(4) k by (auto simp: page_at_def)
  have "translate t root (page_at v k) = translate u root (page_at v k)"
    using t(7) later unfolding range_mapped_def by metis
  then have here: "case translate s root (page_at v k) of Some e \<Rightarrow> translate t root (page_at v k) = Some e
     | None \<Rightarrow> translate t root (page_at v k) = Some (page_at phys k OR flags)"
    using u(8) by (auto split: option.splits)
  have "range_mapped root v phys flags k n s t"
    unfolding range_mapped_def
  proof (intro conjI allI impI)
    fix v' assume "\<forall>i. k \<le> i \<and> i < n \<longrightarrow> va_path v' \<noteq> va_path (page_at v i)"
    then show "translate t root v' = translate s root v'"
      using t(7) u(7) [of v'] k unfolding range_mapped_def by (metis Suc_leD order_refl)
  next
    fix i assume i: "k \<le> i \<and> i < n"
    show "case translate s root (page_at v i) of Some e \<Rightarrow> translate t root (page_at v i) = Some e
       | None \<Rightarrow> translate t root (page_at v i) = Some (page_at phys i OR flags)"
    proof (cases "i = k")
      case True
      show ?thesis unfolding True by (rule here)
    next
      case False
      with i have i: "Suc k \<le> i" "i < n" by auto
      with t(7) u(7) [OF later [OF this]] show ?thesis unfolding range_mapped_def by auto
    qed
  qed
  moreover have "of_nat k * PAGE_SIZE < of_nat n * PAGE_SIZE"
    using page_index_less [of k n] k assms(4) by simp
  then have "map_range_from this v phys (of_nat n) flags (of_nat k * PAGE_SIZE) s = Some t"
    using u(1) t(1) by (subst map_range_from.simps) (simp add: page_at_def algebra_simps)
  ultimately show ?case
    using t u(3-6) keeps_pages_trans [OF u(4) t(4)] keeps_data_trans [OF u(5) t(5)] by auto
qed

section \<open>Taking the pages\<close>

text \<open>The bytes of the bitmap are in no table, so the tables do not change.\<close>

lemma pmm_alloc_tables:
  assumes inv: "vm_inv s root" and step: "vm_step s t" and ok: "pmm_inv t" "\<not> locked (pmm_lock t)"
    and out: "\<And>a. a \<notin> bitmap_bytes s \<Longrightarrow> mem t a = mem s a"
    and used: "\<And>i. unat i < bit_count s \<Longrightarrow> page_used s i \<Longrightarrow> page_used t i"
  shows "vm_inv t root" and "translate t root v = translate s root v"
    and "\<And>path. path_ok path \<Longrightarrow> tab t root path = tab s root path"
proof -
  note same = vm_step_same [OF step]
  have entries: "entry t p i = entry s p i" if "table_page s p" "i < 512" for p i
  proof (rule entry_cong [OF step that(2)])
    fix a assume "a \<in> region (cell s p i) 8"
    then have "a \<notin> bitmap_bytes s" using cell_in_frame [OF that(2), of s p] that(1) by (auto simp: table_page_def)
    then show "mem t a = mem s a" by (rule out)
  qed
  show tabs: "tab t root path = tab s root path" if "path_ok path" for path
    by (rule tab_cong [OF _ that]) (use entries vm_inv_table [OF inv] in blast)
  have "table_page t p" if "table_page s p" for p
    using that used page_index(2) [of s p] inv by (auto simp: table_page_def same vm_inv_def)
  moreover have "tables_ok s root" using inv by (simp add: vm_inv_def)
  ultimately have "tables_ok t root" unfolding tables_ok_def using tabs by metis
  then show "vm_inv t root" by (rule vm_inv_used_cong [OF inv step ok, rotated]) (rule used)
  show "translate t root v = translate s root v"
  proof (cases "tab s root (tl (va_path v))")
    case (Some p)
    note path = va_path_ok [of v]
    have "entry t p (hd (va_path v)) = entry s p (hd (va_path v))"
      by (rule entries [OF vm_inv_table [OF inv path(1) Some] path(3)])
    then show ?thesis using Some tabs [OF path(1)] by (simp add: translate_def va_path_def)
  qed (use tabs [OF va_path_ok(1)] in \<open>simp add: translate_def va_path_def\<close>)
qed

text \<open>The page \<open>i\<close> of the block at page \<open>p\<close>.\<close>

lemma page_at_block: "page_at (of_nat p * PAGE_SIZE) i = of_nat (p + i) * PAGE_SIZE"
  by (simp add: page_at_def algebra_simps)

text \<open>With a run of free pages ahead, the block comes from pages that have a bit, and the rest of the run is left.\<close>

lemma take_pages:
  assumes ready: "space_ready s root this" and n: "pages \<noteq> 0" and room: "room_ahead s (unat pages + m)"
  obtains p t where "pmm_alloc pages s = Some (of_nat p * PAGE_SIZE, t)" "of_nat p * PAGE_SIZE \<noteq> (0 :: u64)"
    "space_ready t root this" "rflags t = rflags s"
    "keeps_pages s t" "vmm.more t = vmm.more s" "\<And>v. translate t root v = translate s root v"
    "p + unat pages \<le> bit_count s" "bit_count s \<le> 2 ^ 34"
    "\<And>i. i < unat pages \<Longrightarrow> phys_ok (page_at (of_nat p * PAGE_SIZE) i)"
    "\<And>i. i < unat pages \<Longrightarrow> \<not> page_used s (of_nat (p + i)) \<and> page_used t (of_nat (p + i))"
    "\<And>i. i < unat pages \<Longrightarrow> data_page t root (p + i)"
    "hhdm_offset t = hhdm_offset s" "keeps_data root s t" "room_ahead t m"
proof -
  have inv: "vm_inv s root" and pinv: "pmm_inv s" "\<not> locked (pmm_lock s)" and lim: "bit_count s \<le> 2 ^ 34"
    and res: "bitmap_reserved s"
    using ready by (auto simp: space_ready_def vm_inv_def)
  have lim52: "bit_count s \<le> 2 ^ 52" using lim by simp
  obtain p t where alloc: "pmm_alloc pages s = Some (of_nat p * PAGE_SIZE, t)"
    and t: "t = (take_run s p (unat pages))\<lparr>pmm_lock := freed_lock s\<rparr>" and inv_t: "pmm_inv t" "\<not> locked (pmm_lock t)"
    and p: "0 < p" "p + unat pages \<le> bit_count s" and run: "free_run s p (unat pages)" and room_t: "room_ahead t m"
    by (rule alloc_ahead [OF pinv lim52 n room]) (rule that)
  have step: "vm_step s t" by (simp add: t vm_step_def take_run_def)
  note same = vm_step_same [OF step]
  have small: "p + unat pages < 2 ^ 64" using p(2) lim by simp
  have used: "page_used t i \<longleftrightarrow> p \<le> unat i \<and> unat i < p + unat pages \<or> page_used s i" for i
    using page_used_take_run [OF small, of s i] by (simp add: t)
  have out: "mem t a = mem s a" if "a \<notin> bitmap_bytes s" for a
  proof -
    have "a \<noteq> bitmap_byte (pmm_bitmap s) i" if "of_nat p \<le> i" "i < of_nat (p + unat pages)" for i
    proof -
      have "unat i < bit_count s"
        using that p(2) small by (auto simp: word_less_nat_alt unat_of_nat_u64 simp del: of_nat_add)
      then show ?thesis using bitmap_byte_own \<open>a \<notin> bitmap_bytes s\<close> by blast
    qed
    then show ?thesis by (simp add: t take_run_def bitmap_set_range_outside del: of_nat_add)
  qed
  have tables: "vm_inv t root" "translate t root v = translate s root v" "path_ok \<pi> \<Longrightarrow> tab t root \<pi> = tab s root \<pi>" for v \<pi>
    using pmm_alloc_tables [OF inv step inv_t out] used by blast+
  have new: "p + i < bit_count s" "\<not> page_used s (of_nat (p + i))" "page_used t (of_nat (p + i))" if i: "i < unat pages" for i
  proof -
    show lt: "p + i < bit_count s" using p(2) i by simp
    show "\<not> page_used s (of_nat (p + i))" using run i by (simp add: free_run_def del: of_nat_add)
    show "page_used t (of_nat (p + i))" using used i page_index(1) [OF res lt] by (simp del: of_nat_add)
  qed
  have data: "data_page t root (p + i)" if i: "i < unat pages" for i
  proof -
    have "frame s (p + i) \<inter> bitmap_bytes s = {}"
      by (rule unused_frame [OF res page_index(3) [OF res new(1) [OF i]]]) (rule new(2) [OF i])
    moreover have "tab t root \<pi> \<noteq> Some (p + i)" if "path_ok \<pi>" for \<pi>
      using tables(3) [OF that] vm_inv_table [OF inv that] new(2) [OF i] by (auto simp: table_page_def)
    ultimately show ?thesis using new [OF i] p(1) by (simp add: data_page_def table_page_def same)
  qed
  have keeps: "keeps_data root s t"
    unfolding keeps_data_def
  proof (intro conjI allI impI ballI)
    fix q assume q: "data_page s root q"
    then have "table_page t q"
      using used page_index(2) [OF res] by (auto simp: data_page_def table_page_def same)
    then show "data_page t root q" using q tables(3) by (simp add: data_page_def)
    fix a assume "a \<in> frame s q"
    then have "a \<notin> bitmap_bytes s" using q by (auto simp: data_page_def table_page_def)
    then show "mem t a = mem s a" by (rule out)
  qed (rule same(1))
  have p52: "p < 2 ^ 52" using p(2) lim by simp
  show ?thesis
  proof (rule that [OF alloc])
    show "of_nat p * PAGE_SIZE \<noteq> (0 :: u64)" by (rule page_addr_nonzero [OF p(1) p52])
    show "space_ready t root this"
      using ready tables(1) same(6) by (simp add: space_ready_def space_lock_def) (simp add: t take_run_def)
    show "rflags t = rflags s" by (rule same(3))
    show "keeps_pages s t" using used by (simp add: keeps_pages_def same)
    show "vmm.more t = vmm.more s" by (simp add: t take_run_def)
    fix i assume i: "i < unat pages"
    show "phys_ok (page_at (of_nat p * PAGE_SIZE) i)"
      unfolding page_at_block by (rule phys_ok_page) (use new(1) [OF i] lim in simp)
    show "\<not> page_used s (of_nat (p + i)) \<and> page_used t (of_nat (p + i))" using new [OF i] by blast
  qed (use tables(2) same(1) p(2) lim keeps data room_t in auto)
qed

section \<open>Writing to pages that are no tables\<close>

lemma data_write:
  assumes inv: "vm_inv s root" and t: "t = s\<lparr>mem := m\<rparr>"
    and data: "\<And>a. m a \<noteq> mem s a \<Longrightarrow> \<exists>q. data_page s root q \<and> a \<in> frame s q"
  shows "vm_inv t root" and "translate t root v = translate s root v" and "data_page t root q = data_page s root q"
    and "\<And>i. unat i < bit_count s \<Longrightarrow> page_used t i = page_used s i"
    and "\<And>n. room_ahead s n \<Longrightarrow> room_ahead t n"
proof -
  have pinv: "pmm_inv s" and res: "bitmap_reserved s" and count: "bit_count s \<le> 2 ^ 64" using inv by (auto simp: vm_inv_def)
  have step: "vm_step s t" unfolding t by (rule vm_step_mem)
  note same = vm_step_same [OF step]
  have out: "mem t a = mem s a" if "a \<in> bitmap_bytes s" for a
    using data [of a] that by (auto simp: t data_page_def table_page_def)
  show used: "page_used t i = page_used s i" if "unat i < bit_count s" for i
    by (rule page_used_outside [OF same(2) that out])
  show "room_ahead t n" if "room_ahead s n" for n
    by (rule room_ahead_cong [OF same(2) _ count used that]) (simp_all add: t)
  have entries: "entry t p i = entry s p i" if "path_ok path" "tab s root path = Some p" "i < 512" for path p i
  proof (rule entry_cong [OF step that(3)])
    fix a assume "a \<in> region (cell s p i) 8"
    then have a: "a \<in> frame s p" using cell_in_frame [OF that(3)] by blast
    show "mem t a = mem s a"
    proof (rule ccontr)
      assume "mem t a \<noteq> mem s a"
      then obtain q where q: "data_page s root q" "a \<in> frame s q" using data by (auto simp: t)
      then have "q \<noteq> p" "table_page s q" using that(1,2) by (auto simp: data_page_def)
      then have "frame s q \<inter> frame s p = {}"
        using vm_inv_table [OF inv that(1,2)] page_index(3) [OF res] by (intro frames_disjoint) (auto simp: table_page_def)
      with a q(2) show False by blast
    qed
  qed
  have tabs: "tab t root path = tab s root path" if "path_ok path" for path
    by (rule tab_cong [OF _ that]) (rule entries)
  have pages: "table_page t p = table_page s p" for p
    using used page_index(2) [OF res] by (auto simp: table_page_def same)
  have "tables_ok s root" using inv by (simp add: vm_inv_def)
  then have "tables_ok t root" unfolding tables_ok_def pages using tabs by metis
  moreover have "pmm_inv t" using pinv used [of 0] bit_count_positive [OF pinv] by (simp add: pmm_inv_def same) (simp add: t)
  ultimately show "vm_inv t root"
    by (intro vm_inv_used_cong [OF inv step]) (use inv used t in \<open>auto simp: vm_inv_def\<close>)
  show "data_page t root q = data_page s root q" unfolding data_page_def pages using tabs by auto
  show "translate t root v = translate s root v"
  proof (cases "tab s root (tl (va_path v))")
    case (Some p)
    note path = va_path_ok [of v]
    from entries [OF path(1) Some path(3)] Some tabs [OF path(1)] show ?thesis
      by (simp add: translate_def va_path_def)
  qed (use tabs [OF va_path_ok(1)] in \<open>simp add: translate_def va_path_def\<close>)
qed

text \<open>The pages \<open>p .. p + n - 1\<close>, taken together, and a store to them.\<close>

lemma block_frames:
  assumes "a \<in> region (page_va s p) (of_nat n * PAGE_SIZE)" "n < 2 ^ 36"
  obtains i where "i < n" "a \<in> frame s (p + i)"
proof -
  let ?o = "unat (a - page_va s p)"
  have n: "unat (of_nat n * PAGE_SIZE) = n * 4096" using unat_page_addr [of n] assms(2) by simp
  with assms(1) have o: "?o < n * 4096" by (simp only: in_region_iff word_less_nat_alt)
  have "a = page_va s p + of_nat ?o" by simp
  also have "of_nat ?o = of_nat (?o div 4096) * PAGE_SIZE + (of_nat (?o mod 4096) :: u64)"
    unfolding PAGE_SIZE_of_nat by (simp only: of_nat_mult [symmetric] of_nat_add [symmetric]) simp
  finally have "a - page_va s (p + ?o div 4096) = of_nat (?o mod 4096)"
    by (simp add: page_va_def PHYS_TO_VIRT_def algebra_simps)
  moreover have "of_nat (?o mod 4096) < PAGE_SIZE"
    by (simp add: word_less_nat_alt PAGE_SIZE_def unat_of_nat_u64)
  ultimately have "a \<in> frame s (p + ?o div 4096)" by (simp add: frame_def in_region_iff)
  moreover have "?o div 4096 < n" using o by (simp add: less_mult_imp_div_less)
  ultimately show ?thesis by (rule that [rotated])
qed

lemma block_write:
  assumes ready: "space_ready s root this" and t: "t = s\<lparr>mem := m\<rparr>"
    and data: "\<And>i. i < n \<Longrightarrow> data_page s root (p + i)" and n: "n < 2 ^ 36"
    and out: "\<And>a. a \<notin> region (page_va s p) (of_nat n * PAGE_SIZE) \<Longrightarrow> m a = mem s a"
  shows "space_ready t root this" and "translate t root v = translate s root v" and "keeps_pages s t"
    and "data_page t root q = data_page s root q" and "room_ahead s k \<Longrightarrow> room_ahead t k"
    and "data_page s root q \<Longrightarrow> (\<And>i. i < n \<Longrightarrow> q \<noteq> p + i) \<Longrightarrow> a \<in> frame s q \<Longrightarrow> mem t a = mem s a"
proof -
  have inv: "vm_inv s root" using ready by (simp add: space_ready_def)
  have changed: "\<exists>q. data_page s root q \<and> a \<in> frame s q" if "m a \<noteq> mem s a" for a
  proof -
    from out [of a] that have "a \<in> region (page_va s p) (of_nat n * PAGE_SIZE)" by blast
    then obtain i where "i < n" "a \<in> frame s (p + i)" using n by (rule block_frames)
    with data show ?thesis by blast
  qed
  note written = data_write [OF inv t changed]
  have same: "bit_count t = bit_count s" "spaces t = spaces s" "page_va t root = page_va s root"
    by (simp_all add: t bit_count_def page_va_def PHYS_TO_VIRT_def)
  show "space_ready t root this" using ready written(1) by (simp add: space_ready_def space_lock_def same)
  show "translate t root v = translate s root v" by (rule written(2))
  show "data_page t root q = data_page s root q" by (rule written(3))
  show "keeps_pages s t" using written(4) by (simp add: keeps_pages_def same)
  show "room_ahead t k" if "room_ahead s k" using written(5) [of k] that by blast
  assume q: "data_page s root q" "\<And>i. i < n \<Longrightarrow> q \<noteq> p + i" "a \<in> frame s q"
  show "mem t a = mem s a"
  proof (rule ccontr)
    assume "mem t a \<noteq> mem s a"
    then have "a \<in> region (page_va s p) (of_nat n * PAGE_SIZE)" using out [of a] by (auto simp: t)
    then obtain i where i: "i < n" "a \<in> frame s (p + i)" using n by (rule block_frames)
    have "bitmap_reserved s" using inv by (simp add: vm_inv_def)
    then have "frame s q \<inter> frame s (p + i) = {}"
      using q(1,2) i(1) data [OF i(1)] page_index(3) by (intro frames_disjoint) (auto simp: data_page_def table_page_def)
    with q(3) i(2) show False by blast
  qed
qed

section \<open>The bytes of a program\<close>

text \<open>What the processor finds at an address of a program: the tables are walked by the hardware.\<close>

definition user_byte :: "'a pmm_scheme \<Rightarrow> nat \<Rightarrow> u64 \<Rightarrow> u8 option" where
  "user_byte s root v =
     map_option (\<lambda>e. mem s (PHYS_TO_VIRT s (PTE_GET_ADDR e + (v AND 0xfff)))) (translate s root v)"

lemma low_bits_less: "v AND 0xfff < (PAGE_SIZE :: u64)"
proof -
  have "v AND 0xfff = take_bit 12 v" by (simp add: take_bit_eq_mask mask_eq_exp_minus_1)
  moreover have "unat (take_bit 12 v) < 2 ^ 12" by (simp only: unsigned_take_bit_eq take_bit_nat_less_exp)
  then have "take_bit 12 v < 4096" by (simp only: word_less_nat_alt) simp
  ultimately show ?thesis unfolding PAGE_SIZE_def by simp
qed

lemma user_byte_frame: "PHYS_TO_VIRT s (PTE_GET_ADDR e + (v AND 0xfff)) \<in> frame s (pte_page e)"
proof -
  have "PHYS_TO_VIRT s (PTE_GET_ADDR e + (v AND 0xfff)) = page_va s (pte_page e) + (v AND 0xfff)"
    by (simp add: page_va_def PHYS_TO_VIRT_def pte_page_addr)
  then show ?thesis by (simp add: frame_def region_offset low_bits_less)
qed

lemma keeps_user_byte:
  assumes "translate t root v = translate s root v" "hhdm_offset t = hhdm_offset s"
    and "\<And>e a. translate s root v = Some e \<Longrightarrow> a \<in> frame s (pte_page e) \<Longrightarrow> mem t a = mem s a"
  shows "user_byte t root v = user_byte s root v"
proof (cases "translate s root v")
  case (Some e)
  have "mem t (PHYS_TO_VIRT s (PTE_GET_ADDR e + (v AND 0xfff))) = mem s (PHYS_TO_VIRT s (PTE_GET_ADDR e + (v AND 0xfff)))"
    by (rule assms(3) [OF Some user_byte_frame])
  with Some assms(1,2) show ?thesis by (simp add: user_byte_def PHYS_TO_VIRT_def)
qed (use assms(1) in \<open>simp add: user_byte_def\<close>)

text \<open>The page an address of a range is in, and its place in the page.\<close>

lemma va_path_same_page:
  assumes "unat v div 4096 mod 2 ^ 36 = unat w div 4096 mod 2 ^ 36"
  shows "va_path v = va_path w"
proof -
  have "unat (take_bit 36 (drop_bit 12 v)) = unat (take_bit 36 (drop_bit 12 w))"
    using assms by (simp only: unsigned_take_bit_eq unat_drop_bit_eq) (simp add: take_bit_eq_mod drop_bit_eq_div)
  then have eq: "take_bit 36 (drop_bit 12 v) = take_bit 36 (drop_bit 12 w)" by (simp add: word_unat_eq_iff)
  have "take_bit 9 (drop_bit (12 + k) v) = take_bit 9 (drop_bit (12 + k) w)" if "k \<le> 27" for k
  proof (rule bit_word_eqI)
    fix n assume "n < LENGTH(64)"
    show "bit (take_bit 9 (drop_bit (12 + k) v)) n = bit (take_bit 9 (drop_bit (12 + k) w)) n"
      using arg_cong [OF eq, of "\<lambda>x. bit x (k + n)"] that
      by (auto simp: bit_take_bit_iff bit_drop_bit_eq add.assoc)
  qed
  from this [of 0] this [of 9] this [of 18] this [of 27] show ?thesis
    by (simp add: va_path_def low_index)
qed

lemma va_path_offset: "va_path (v + of_nat j) = va_path (page_at v ((unat v mod 4096 + j) div 4096))"
proof (rule va_path_same_page)
  have "v + of_nat j = (of_nat (unat v + j) :: u64)" by simp
  then have "unat (v + of_nat j) = (unat v + j) mod 2 ^ 64" by (simp only: unat_of_nat) simp
  moreover have "x mod 2 ^ 64 div 4096 mod 2 ^ 36 = x div 4096 mod 2 ^ 36" for x :: nat
    using drop_bit_take_bit [of 12 64 x] by (simp add: take_bit_eq_mod drop_bit_eq_div mod_mod_cancel)
  ultimately have "unat (v + of_nat j) div 4096 mod 2 ^ 36 = (unat v + j) div 4096 mod 2 ^ 36" by simp
  also have "unat v + j = unat v mod 4096 + j + 4096 * (unat v div 4096)" by simp
  also have "(unat v mod 4096 + j + 4096 * (unat v div 4096)) div 4096 = unat v div 4096 + (unat v mod 4096 + j) div 4096"
    by (rule div_mult_self2) simp
  finally show "unat (v + of_nat j) div 4096 mod 2 ^ 36 = unat (page_at v ((unat v mod 4096 + j) div 4096)) div 4096 mod 2 ^ 36"
    by (simp only: page_at_def page_of_offset)
qed

lemma low_bits_offset: "(v + of_nat j) AND 0xfff = (of_nat ((unat v mod 4096 + j) mod 4096) :: u64)"
proof -
  have "(v + of_nat j) AND 0xfff = take_bit 12 (of_nat (unat v + j) :: u64)"
    by (simp add: take_bit_eq_mask mask_eq_exp_minus_1)
  also have "\<dots> = of_nat (take_bit 12 (unat v + j))" by (simp only: take_bit_of_nat)
  also have "take_bit 12 (unat v + j) = (unat v mod 4096 + j) mod 4096" by (simp add: take_bit_eq_mod mod_simps)
  finally show ?thesis .
qed

text \<open>The byte at \<open>j\<close> of a range whose pages are those of a physical range.\<close>

lemma user_byte_range:
  assumes "translate s root (page_at v ((unat v mod 4096 + j) div 4096)) =
      Some (page_at phys ((unat v mod 4096 + j) div 4096) OR flags)"
    and "phys_ok (page_at phys ((unat v mod 4096 + j) div 4096))" "flags_ok flags"
  shows "user_byte s root (v + of_nat j) = Some (mem s (PHYS_TO_VIRT s phys + of_nat (unat v mod 4096 + j)))"
proof -
  let ?o = "unat v mod 4096 + j"
  have "PTE_GET_ADDR (page_at phys (?o div 4096) OR flags) + ((v + of_nat j) AND 0xfff) =
      page_at phys (?o div 4096) + of_nat (?o mod 4096)"
    by (simp only: pte_fields(1) [OF assms(2,3)] low_bits_offset)
  also have "\<dots> = phys + of_nat (?o div 4096 * 4096 + ?o mod 4096)"
    unfolding page_at_def PAGE_SIZE_of_nat by (simp only: of_nat_add of_nat_mult add.assoc)
  also have "?o div 4096 * 4096 + ?o mod 4096 = ?o" by (rule div_mult_mod_eq)
  finally have at: "PTE_GET_ADDR (page_at phys (?o div 4096) OR flags) + ((v + of_nat j) AND 0xfff) = phys + of_nat ?o" .
  have "translate s root (v + of_nat j) = Some (page_at phys (?o div 4096) OR flags)"
    using assms(1) by (simp only: translate_def va_path_offset)
  then have "user_byte s root (v + of_nat j) = Some (mem s (phys + of_nat ?o + hhdm_offset s))"
    by (simp only: user_byte_def option.map at PHYS_TO_VIRT_def)
  also have "phys + of_nat ?o + hhdm_offset s = PHYS_TO_VIRT s phys + of_nat ?o" by (simp add: PHYS_TO_VIRT_def)
  finally show ?thesis .
qed

end
