(* ===== verification/Elf_Spec.thy ===== *)
theory Elf_Spec
  imports Elf
begin

text \<open>The page flags of program segments and of \<open>mmap\<close>, which pass through an \<open>int\<close>.\<close>

lemma int_flags_low:
  "int_flags 5 = 5" "int_flags 7 = 7" "int_flags (5 OR PTE_NX) = 5" "int_flags (7 OR PTE_NX) = 7"
  "int_flags (PTE_PRESENT OR PTE_USER) = 5" "int_flags (5 OR PTE_WRITABLE) = 7"
  by (simp_all add: int_flags_def PTE_NX_def PTE_PRESENT_def PTE_USER_def PTE_WRITABLE_def)

lemma segment_prot_values: "segment_prot c flags = (if flags AND PF_W c \<noteq> 0 then 7 else 5)"
  by (simp add: segment_prot_def Let_def int_flags_low)

lemma mmap_flags_values: "mmap_flags c prot = (if prot AND PROT_WRITE c \<noteq> 0 then 7 else 5)"
  by (simp add: mmap_flags_def Let_def int_flags_low)

lemma leaf_flags: "(5 :: u64) AND PTE_NX = 0" "(7 :: u64) AND PTE_NX = 0" "(5 :: u64) AND PTE_WRITABLE = 0" "(7 :: u64) AND PTE_WRITABLE \<noteq> 0"
  "(5 :: u64) AND PTE_PRESENT \<noteq> 0" "(7 :: u64) AND PTE_PRESENT \<noteq> 0" "(5 :: u64) AND PTE_USER \<noteq> 0" "(7 :: u64) AND PTE_USER \<noteq> 0"
  by (simp_all add: PTE_NX_def PTE_PRESENT_def PTE_USER_def PTE_WRITABLE_def)

text \<open>
  C38: The pages of a program's segments and those \<open>mmap\<close> hands out are present, accessible to
  the program, and writable exactly when the header's or the caller's flags ask for it. But none of
  them is ever marked non-executable: the flag is bit 63 and is lost in the \<open>int\<close> the code
  collects the flags in, whatever the headers say.
\<close>

theorem program_pages_executable:
  "segment_prot c flags AND PTE_PRESENT \<noteq> 0 \<and> segment_prot c flags AND PTE_USER \<noteq> 0 \<and>
   (segment_prot c flags AND PTE_WRITABLE \<noteq> 0 \<longleftrightarrow> flags AND PF_W c \<noteq> 0) \<and> segment_prot c flags AND PTE_NX = 0 \<and>
   mmap_flags d prot AND PTE_PRESENT \<noteq> 0 \<and> mmap_flags d prot AND PTE_USER \<noteq> 0 \<and>
   (mmap_flags d prot AND PTE_WRITABLE \<noteq> 0 \<longleftrightarrow> prot AND PROT_WRITE d \<noteq> 0) \<and> mmap_flags d prot AND PTE_NX = 0"
  by (simp only: segment_prot_values mmap_flags_values) (simp add: leaf_flags)

end
