(* ===== verification/Mmap_Spec.thy ===== *)
theory Mmap_Spec
  imports Vmm_Range Elf_Spec Calls_Spec
begin







end
