(* ===== verification/Loader_Spec.thy ===== *)
theory Loader_Spec
  imports Mmap_Spec File_Store
begin

text \<open>
  What loading a segment gives a program: the page allocator, the tables, the file system and the
  memory the pages are in work together.
\<close>

section \<open>Zeroed pages\<close>

text \<open>\<open>Pmm::calloc\<close> gives pages that are no tables and hold zeros.\<close>

lemma calloc_block:
  assumes ready: "space_ready s root this" and n: "pages \<noteq> 0" and room: "room_ahead s (unat pages + m)"
  obtains p t where "pmm_calloc pages s = Some (of_nat p * PAGE_SIZE, t)" "of_nat p * PAGE_SIZE \<noteq> (0 :: u64)"
    "space_ready t root this" "rflags t = rflags s"
    "keeps_data root s t" "keeps_pages s t" "vmm.more t = vmm.more s" "\<And>v. translate t root v = translate s root v"
    "\<And>i. i < unat pages \<Longrightarrow> phys_ok (page_at (of_nat p * PAGE_SIZE) i)"
    "\<And>i. i < unat pages \<Longrightarrow> data_page t root (p + i) \<and> \<not> data_page s root (p + i)"
    "\<And>a. a \<in> region (page_va t p) (of_nat (unat pages) * PAGE_SIZE) \<Longrightarrow> mem t a = 0"
    "unat pages < 2 ^ 36" "room_ahead t m"
proof -
  obtain p u where u: "pmm_alloc pages s = Some (of_nat p * PAGE_SIZE, u)" "of_nat p * PAGE_SIZE \<noteq> (0 :: u64)"
    "space_ready u root this" "rflags u = rflags s"
    "keeps_pages s u" "vmm.more u = vmm.more s" "\<And>v. translate u root v = translate s root v"
    "p + unat pages \<le> bit_count s" "bit_count s \<le> 2 ^ 34"
    "\<And>i. i < unat pages \<Longrightarrow> phys_ok (page_at (of_nat p * PAGE_SIZE) i)"
    "\<And>i. i < unat pages \<Longrightarrow> \<not> page_used s (of_nat (p + i)) \<and> page_used u (of_nat (p + i))"
    "\<And>i. i < unat pages \<Longrightarrow> data_page u root (p + i)"
    "hhdm_offset u = hhdm_offset s" "keeps_data root s u" "room_ahead u m"
    by (rule take_pages [OF assms]) (rule that)
  have n36: "unat pages < 2 ^ 36" using u(8,9) by simp
  define t where "t = u\<lparr>mem := snd (memset (page_va u p) 0 (pages * PAGE_SIZE) (mem u))\<rparr>"
  have "snd (memset (page_va u p) 0 (pages * PAGE_SIZE) (mem u)) a = mem u a"
    if "a \<notin> region (page_va u p) (of_nat (unat pages) * PAGE_SIZE)" for a
    using that by (simp add: memset_apply)
  note block = block_write [OF u(3) t_def u(12) n36 this]
  have new: "\<not> data_page s root (p + i)" if "i < unat pages" for i
    using u(11) [OF that] by (simp add: data_page_def table_page_def del: of_nat_add)
  have "keeps_data root s t"
    unfolding keeps_data_def
  proof (intro conjI allI impI ballI)
    show "hhdm_offset t = hhdm_offset s" by (simp add: t_def u(13))
    fix q assume q: "data_page s root q"
    then have q': "data_page u root q" using u(14) by (simp add: keeps_data_def)
    then show "data_page t root q" using block(4) by blast
    fix a assume a: "a \<in> frame s q"
    then have "a \<in> frame u q" by (simp add: frame_hhdm [OF u(13)])
    moreover have "q \<noteq> p + i" if "i < unat pages" for i using new [OF that] q by blast
    ultimately have "mem t a = mem u a" using block(6) [OF _ _ q'] by blast
    with q a u(14) show "mem t a = mem s a" by (simp add: keeps_data_def)
  qed
  moreover have "pmm_calloc pages s = Some (of_nat p * PAGE_SIZE, t)"
    using n u(1,2) by (simp add: pmm_calloc_def t_def page_va_def)
  moreover have "mem t a = 0" if "a \<in> region (page_va t p) (of_nat (unat pages) * PAGE_SIZE)" for a
    using that by (simp add: t_def memset_apply page_va_def PHYS_TO_VIRT_def)
  moreover have "room_ahead t m" using block(5) [OF _ _ u(15)] by blast
  ultimately show ?thesis
    using u(2,4,6,7,10,12) block(1,2,4) keeps_pages_trans [OF u(5) block(3)] new n36
    by (intro that [of p t]) (simp_all add: t_def)
qed

section \<open>Segments\<close>

definition segment_misalign :: "phdr \<Rightarrow> u64" where
  "segment_misalign p = p_vaddr p AND (PAGE_SIZE - 1)"

definition segment_pages :: "phdr \<Rightarrow> u64" where
  "segment_pages p = ALIGN_UP (p_memsz p + segment_misalign p) PAGE_SIZE div PAGE_SIZE"

lemma segment_misalign_base:
  assumes "page_aligned b"
  shows "unat (p_vaddr p + b) mod 4096 = unat (segment_misalign p)"
proof -
  have "segment_misalign p = take_bit 12 (p_vaddr p)"
    by (simp add: segment_misalign_def PAGE_SIZE_def take_bit_eq_mask mask_eq_exp_minus_1)
  then have m: "unat (segment_misalign p) = unat (p_vaddr p) mod 4096"
    by (simp add: unat_mod take_bit_eq_mod)
  have "b mod 4096 = 0" using assms by (simp add: page_aligned_def PAGE_SIZE_def)
  then have "unat b mod 4096 = 0" using unat_mod [of b 4096] by simp
  moreover have "unat (p_vaddr p + b) mod 4096 = (unat (p_vaddr p) + unat b) mod 4096"
    by (simp only: unat_word_ariths(1)) (simp add: mod_mod_cancel)
  ultimately show ?thesis unfolding m by (metis add_0_right mod_add_right_eq)
qed

lemma segment_pages_room:
  assumes "unat (p_memsz p) < 2 ^ 47" "p_memsz p \<noteq> 0"
  shows "segment_pages p \<noteq> 0" and "unat (segment_pages p) < 2 ^ 36"
    and "unat (segment_misalign p) + unat (p_memsz p) \<le> unat (segment_pages p) * 4096"
proof -
  have m: "unat (segment_misalign p) < 4096"
    using segment_misalign_base [of 0 p] by (simp add: page_aligned_def)
  then have sum: "unat (p_memsz p + segment_misalign p) = unat (p_memsz p) + unat (segment_misalign p)"
    using assms(1) by (intro unat_plus_u64) simp
  then have n: "unat (segment_pages p) = (unat (p_memsz p) + unat (segment_misalign p) + 4095) div 4096"
    unfolding segment_pages_def using assms(1) m by (subst ALIGN_UP_pages) simp_all
  have pos: "0 < unat (p_memsz p)" using assms(2) by (simp add: unat_gt_0)
  show "unat (segment_pages p) < 2 ^ 36" using n m assms(1) by simp
  have "0 < unat (segment_pages p)" using n pos by simp
  then show "segment_pages p \<noteq> 0" by auto
  show "unat (segment_misalign p) + unat (p_memsz p) \<le> unat (segment_pages p) * 4096" unfolding n by simp
qed

lemma segment_prot_ok: "flags_ok (segment_prot c flags)"
  by (simp add: segment_prot_values flags_ok_def PTE_GET_ADDR_def PTE_PRESENT_def)

text \<open>What is stored of the files does not matter to the tables.\<close>

lemma files_update_tables:
  "space_ready (s\<lparr>files := f\<rparr>) root this = space_ready (s :: 'a kernel_scheme) root this"
  "translate (s\<lparr>files := f\<rparr>) root v = translate s root v"
  "user_byte (s\<lparr>files := f\<rparr>) root v = user_byte s root v"
  "room_ahead (s\<lparr>files := f\<rparr>) m = room_ahead s m"
proof -
  have "vm_inv (s\<lparr>files := f\<rparr>) root = vm_inv s root" by (rule vm_inv_same) simp_all
  then show "space_ready (s\<lparr>files := f\<rparr>) root this = space_ready s root this"
    by (simp add: space_ready_def space_lock_def page_va_def PHYS_TO_VIRT_def)
  show t: "translate (s\<lparr>files := f\<rparr>) root v = translate s root v"
    unfolding translate_def by (rule leaf_same) simp_all
  show "user_byte (s\<lparr>files := f\<rparr>) root v = user_byte s root v"
    by (simp add: user_byte_def t PHYS_TO_VIRT_def)
  show "room_ahead (s\<lparr>files := f\<rparr>) m = room_ahead s m" by (rule room_ahead_same) simp_all
qed

text \<open>Reading from an open file of the memory file system.\<close>

definition loader_file :: "vfs \<Rightarrow> nat \<Rightarrow> vnode \<Rightarrow> bool" where
  "loader_file v d n \<longleftrightarrow> (\<exists>f. fd_points v d f n \<and> fd_mode f \<noteq> WriteOnly) \<and> n_type n = File \<and>
     n_fs n = Tmpfs \<and> unat (file_size n) \<le> length (file_data n)"

definition in_file :: "vnode \<Rightarrow> u64 \<Rightarrow> u64 \<Rightarrow> bool" where
  "in_file n offset len \<longleftrightarrow> len \<noteq> 0 \<and> unat offset + unat len \<le> unat (file_size n)"

definition file_bytes :: "vnode \<Rightarrow> u64 \<Rightarrow> u64 \<Rightarrow> u8 list" where
  "file_bytes n offset len = take (unat len) (drop (unat offset) (file_data n))"

lemma length_file_bytes:
  "loader_file v d n \<Longrightarrow> in_file n offset len \<Longrightarrow> length (file_bytes n offset len) = unat len"
  by (auto simp: loader_file_def in_file_def file_bytes_def)

lemma file_bytes_nth:
  assumes "loader_file v d n" "in_file n offset len" "j < unat len"
  shows "file_bytes n offset len ! j = file_data n ! (unat offset + j)"
proof -
  have "unat offset + unat len \<le> length (file_data n)" using assms(1,2) by (simp add: loader_file_def in_file_def)
  then show ?thesis using assms(3) by (simp add: file_bytes_def)
qed

lemma file_read:
  assumes "fd_points v d f n" "loader_file v d n" "in_file n (rw_position f) len"
  obtains v' where "vfs_read (Some d) len v = Inr (len, file_bytes n (rw_position f) len, v')" "loader_file v' d n"
proof -
  have f: "fd_mode f \<noteq> WriteOnly" "n_type n = File" "n_fs n = Tmpfs" and len: "unat (file_size n) \<le> length (file_data n)"
    using assms(1,2) by (auto simp: loader_file_def fd_points_def)
  have "0 < unat len" using assms(3) by (simp add: in_file_def unat_gt_0)
  then have pos: "rw_position f < file_size n"
    using assms(3) by (simp add: in_file_def word_less_nat_alt)
  have "tmpfs_read n (rw_position f) len = Inr (len, file_bytes n (rw_position f) len)"
    using assms(3) f len by (simp add: tmpfs_read_def file_bytes_def in_file_def)
  note rd = vfs_read_step [OF assms(1) f pos this]
  have "loader_file (if d \<noteq> vfs_stdin v then advance d len v else v) d n"
    using fd_points_advance [OF assms(1), of len] assms(1) f len by (auto simp: loader_file_def)
  with rd show ?thesis by (rule that)
qed

lemma seek_read:
  assumes "loader_file (files s) d n" "in_file n offset len"
  obtains v v' where "seek_to (Some d) offset s = Inr (s\<lparr>files := v\<rparr>)"
    "vfs_read (Some d) len v = Inr (len, file_bytes n offset len, v')" "loader_file v' d n"
proof -
  obtain f where f: "fd_points (files s) d f n" "fd_mode f \<noteq> WriteOnly" using assms(1) by (auto simp: loader_file_def)
  let ?v = "(files s)\<lparr>fds := (fds (files s))(d \<mapsto> f\<lparr>rw_position := offset\<rparr>)\<rparr>"
  have seek: "seek_to (Some d) offset s = Inr (s\<lparr>files := ?v\<rparr>)"
    using f by (simp add: seek_to_def vfs_seek_def fd_points_def deref_def)
  have opn: "fd_points ?v d (f\<lparr>rw_position := offset\<rparr>) n" using f by (simp add: fd_points_def)
  then have "loader_file ?v d n" using assms(1) f(2) by (auto simp: loader_file_def)
  from file_read [OF opn this] assms(2) obtain v' where
    "vfs_read (Some d) len ?v = Inr (len, file_bytes n offset len, v')" "loader_file v' d n" by auto
  with seek show ?thesis by (rule that)
qed

text \<open>The bytes are put into the block of zeroed pages, at the segment's place in the first one.\<close>

lemma block_put:
  assumes ready: "space_ready w root this" and data: "\<forall>i < n. data_page w root (q + i)" and n: "n < 2 ^ 36"
    and zero: "\<forall>a \<in> region (page_va w q) (of_nat n * PAGE_SIZE). mem w a = 0"
    and room: "m + length bs \<le> n * 4096" and x: "x = w\<lparr>mem := put_bytes (page_va w q + of_nat m) bs (mem w)\<rparr>"
  shows "space_ready x root this" and "translate x root v = translate w root v" and "room_ahead w l \<Longrightarrow> room_ahead x l"
    and "data_page w root k \<Longrightarrow> (\<And>i. i < n \<Longrightarrow> k \<noteq> q + i) \<Longrightarrow> a \<in> frame w k \<Longrightarrow> mem x a = mem w a"
    and "m + j < n * 4096 \<Longrightarrow> mem x (page_va w q + of_nat (m + j)) = (if j < length bs then bs ! j else 0)"
    and "keeps_pages w x" and "data_page x root k = data_page w root k"
proof -
  have pages: "unat (of_nat n * PAGE_SIZE) = n * 4096" using unat_page_addr [of n] n by simp
  have inside: "page_va w q + of_nat k \<in> region (page_va w q) (of_nat n * PAGE_SIZE)" if "k < n * 4096" for k
  proof -
    have "unat (of_nat k :: u64) = k" using that n by (intro unat_of_nat_u64) simp
    with that show ?thesis by (simp only: region_offset word_less_nat_alt pages)
  qed
  have out: "put_bytes (page_va w q + of_nat m) bs (mem w) a = mem w a"
    if "a \<notin> region (page_va w q) (of_nat n * PAGE_SIZE)" for a
  proof (rule cstr_put_bytes_outside)
    fix j assume "j < length bs"
    with room inside [of "m + j"] that show "a \<noteq> page_va w q + of_nat m + of_nat j" by (auto simp: add.assoc)
  qed
  note block = block_write [OF ready x data [rule_format] n out]
  show "space_ready x root this" "translate x root v = translate w root v" "keeps_pages w x"
    by (rule block(1,2,3), assumption+)+
  show "room_ahead x l" if "room_ahead w l" using block(5) [OF _ _ that] by blast
  show "data_page x root k = data_page w root k" using block(4) by blast
  show "mem x a = mem w a" if "data_page w root k" "\<And>i. i < n \<Longrightarrow> k \<noteq> q + i" "a \<in> frame w k"
    using block(6) [OF _ _ that] by blast
  assume j: "m + j < n * 4096"
  show "mem x (page_va w q + of_nat (m + j)) = (if j < length bs then bs ! j else 0)"
  proof (cases "j < length bs")
    case True
    have "length bs < 2 ^ 64" using room n by simp
    with put_bytes_apply [OF True this, of "page_va w q + of_nat m" "mem w"] True show ?thesis
      by (simp add: x add.assoc)
  next
    case False
    have "put_bytes (page_va w q + of_nat m) bs (mem w) (page_va w q + of_nat (m + j)) = mem w (page_va w q + of_nat (m + j))"
    proof (rule cstr_put_bytes_outside)
      fix i assume "i < length bs"
      moreover from this have "unat (of_nat (m + j) :: u64) = m + j" "unat (of_nat (m + i) :: u64) = m + i"
        using j room n by (auto intro!: unat_of_nat_u64 simp del: of_nat_add)
      ultimately have "(of_nat (m + j) :: u64) \<noteq> of_nat (m + i)" using False by (metis add_left_cancel)
      then show "page_va w q + of_nat (m + j) \<noteq> page_va w q + of_nat m + of_nat i" by (simp add: add.assoc)
    qed
    with False inside [OF j] zero show ?thesis by (simp add: x)
  qed
qed

text \<open>The pages of the segment, mapped and still zero.\<close>

lemma keeps_data_zero:
  assumes "keeps_data root s t" "\<And>i. i < n \<Longrightarrow> data_page s root (p + i)" "n < 2 ^ 36"
    and "\<And>a. a \<in> region (page_va s p) (of_nat n * PAGE_SIZE) \<Longrightarrow> mem s a = 0"
    and a: "a \<in> region (page_va t p) (of_nat n * PAGE_SIZE)"
  shows "mem t a = 0"
proof -
  have "page_va t p = page_va s p" using assms(1) by (simp add: page_va_def PHYS_TO_VIRT_def keeps_data_def)
  with a have a': "a \<in> region (page_va s p) (of_nat n * PAGE_SIZE)" by simp
  obtain i where "i < n" "a \<in> frame s (p + i)" using a' assms(3) by (rule block_frames)
  with assms(1,2) have "mem t a = mem s a" by (auto simp: keeps_data_def)
  with assms(4) [OF a'] show ?thesis by simp
qed

lemma block_mapped:
  assumes ready: "space_ready s root this" and n: "pages \<noteq> 0" and flags: "flags_ok flags"
    and fresh: "\<forall>i < unat pages. translate s root (page_at v i) = None" and room: "room_ahead s (4 * unat pages + m)"
  obtains q u t where "pmm_calloc pages s = Some (of_nat q * PAGE_SIZE, u)" "of_nat q * PAGE_SIZE \<noteq> (0 :: u64)"
    "map_range this v (of_nat q * PAGE_SIZE) pages flags u = Some t" "space_ready t root this" "rflags t = rflags s"
    "keeps_data root s t" "keeps_pages s t" "vmm.more t = vmm.more s"
    "\<And>v'. \<forall>i < unat pages. va_path v' \<noteq> va_path (page_at v i) \<Longrightarrow> translate t root v' = translate s root v'"
    "\<And>i. i < unat pages \<Longrightarrow> phys_ok (page_at (of_nat q * PAGE_SIZE) i)"
    "\<forall>i < unat pages. data_page t root (q + i) \<and> \<not> data_page s root (q + i)"
    "\<forall>a \<in> region (page_va t q) (of_nat (unat pages) * PAGE_SIZE). mem t a = 0"
    "\<And>i. i < unat pages \<Longrightarrow> translate t root (page_at v i) = Some (page_at (of_nat q * PAGE_SIZE) i OR flags)"
    "unat pages < 2 ^ 36" "room_ahead t m"
proof -
  let ?n = "unat pages"
  have room': "room_ahead s (?n + (m + 3 * (?n - 0)))" using room by (rule room_ahead_mono) simp
  obtain q u where u: "pmm_calloc pages s = Some (of_nat q * PAGE_SIZE, u)" "of_nat q * PAGE_SIZE \<noteq> (0 :: u64)"
    "space_ready u root this" "rflags u = rflags s"
    "keeps_data root s u" "keeps_pages s u" "vmm.more u = vmm.more s" "\<And>v. translate u root v = translate s root v"
    "\<And>i. i < ?n \<Longrightarrow> phys_ok (page_at (of_nat q * PAGE_SIZE) i)"
    "\<And>i. i < ?n \<Longrightarrow> data_page u root (q + i) \<and> \<not> data_page s root (q + i)"
    "\<And>a. a \<in> region (page_va u q) (of_nat ?n * PAGE_SIZE) \<Longrightarrow> mem u a = 0"
    "?n < 2 ^ 36" "room_ahead u (m + 3 * (?n - 0))"
    by (rule calloc_block [OF ready n room']) (rule that)
  obtain t where t: "map_range_from this v (of_nat q * PAGE_SIZE) pages flags 0 u = Some t"
    "space_ready t root this" "rflags t = rflags u" "keeps_data root u t" "keeps_pages u t" "vmm.more t = vmm.more u"
    "range_mapped root v (of_nat q * PAGE_SIZE) flags 0 ?n u t" "room_ahead t m"
    using map_range_from_spec [OF u(3) flags u(9,12) le0 u(13), of v] by auto
  have "translate t root (page_at v i) = Some (page_at (of_nat q * PAGE_SIZE) i OR flags)" if "i < ?n" for i
  proof -
    have "translate u root (page_at v i) = None" using fresh that by (simp add: u(8))
    with t(7) that show ?thesis unfolding range_mapped_def by fastforce
  qed
  moreover have "mem t a = 0" if "a \<in> region (page_va t q) (of_nat ?n * PAGE_SIZE)" for a
    using keeps_data_zero [OF t(4) _ u(12,11) that] u(10) by blast
  moreover have "translate t root v' = translate s root v'" if "\<forall>i < ?n. va_path v' \<noteq> va_path (page_at v i)" for v'
    using t(7) that by (simp add: range_mapped_def u(8))
  ultimately show ?thesis
    using t u(4,7,9,10,12) keeps_data_trans [OF u(5) t(4)] keeps_pages_trans [OF u(6) t(5)]
    by (intro that [of q u t]) (simp_all add: u(1,2) map_range_def keeps_data_def)
qed

text \<open>
  The byte a program finds at an address that is in a page of its own, and how an address space grows:
  such bytes stay, as do the translations of all addresses outside of the pages of \<open>V\<close>.
\<close>

definition user_data :: "'a pmm_scheme \<Rightarrow> nat \<Rightarrow> u64 \<Rightarrow> u8 \<Rightarrow> bool" where
  "user_data s root v b \<longleftrightarrow> (\<exists>e. translate s root v = Some e \<and> data_page s root (pte_page e)) \<and> user_byte s root v = Some b"

definition space_grows :: "nat \<Rightarrow> u64 set \<Rightarrow> 'a vmm_scheme \<Rightarrow> 'a vmm_scheme \<Rightarrow> bool" where
  "space_grows root V s t \<longleftrightarrow> keeps_pages s t \<and> (\<forall>v b. user_data s root v b \<longrightarrow> user_data t root v b) \<and>
     (\<forall>v. (\<forall>w \<in> V. va_path v \<noteq> va_path w) \<longrightarrow> translate t root v = translate s root v)"

lemma space_grows_trans:
  assumes "space_grows root V s t" "space_grows root W t u"
  shows "space_grows root (V \<union> W) s u"
  using assms keeps_pages_trans [of s t u] unfolding space_grows_def by simp

lemma space_grows_refl: "space_grows root V s s"
  by (simp add: space_grows_def keeps_pages_def)

text \<open>An address space whose pages outside of \<open>V\<close> did not change, where \<open>V\<close> was not mapped.\<close>

lemma space_growsI:
  assumes keeps: "keeps_pages s x" and hhdm: "hhdm_offset x = hhdm_offset s"
    and trans: "\<And>v. (\<And>w. w \<in> V \<Longrightarrow> va_path v \<noteq> va_path w) \<Longrightarrow> translate x root v = translate s root v"
    and fresh: "\<And>v. v \<in> V \<Longrightarrow> translate s root v = None"
    and data: "\<And>q. data_page s root q \<Longrightarrow> data_page x root q \<and> (\<forall>a \<in> frame s q. mem x a = mem s a)"
  shows "space_grows root V s x"
  unfolding space_grows_def
proof (intro conjI allI impI)
  show "keeps_pages s x" by (rule keeps)
  show "translate x root v = translate s root v" if "\<forall>w \<in> V. va_path v \<noteq> va_path w" for v
    using that by (intro trans) blast
  fix v b assume u: "user_data s root v b"
  then obtain e where e: "translate s root v = Some e" "data_page s root (pte_page e)" by (auto simp: user_data_def)
  have t: "translate x root v = translate s root v"
  proof (rule trans)
    fix w assume "w \<in> V"
    from fresh [OF this] e(1) show "va_path v \<noteq> va_path w" by (auto simp: translate_def)
  qed
  have "user_byte x root v = user_byte s root v"
    by (rule keeps_user_byte [OF t hhdm]) (use data [OF e(2)] e(1) in auto)
  with u e t data [OF e(2)] show "user_data x root v b" by (auto simp: user_data_def)
qed

section \<open>Loading a segment\<close>

text \<open>The pages of a segment, the condition on its header, and the byte at \<open>j\<close> of it.\<close>

definition segment_range :: "u64 \<Rightarrow> phdr \<Rightarrow> u64 set" where
  "segment_range base p = page_at (p_vaddr p + base) ` {..<unat (segment_pages p)}"

definition segment_ok :: "vnode \<Rightarrow> phdr \<Rightarrow> bool" where
  "segment_ok n p \<longleftrightarrow> in_file n (p_offset p) (p_filesz p) \<and> p_filesz p \<le> p_memsz p \<and> unat (p_memsz p) < 2 ^ 47"

definition segment_byte :: "vnode \<Rightarrow> phdr \<Rightarrow> nat \<Rightarrow> u8" where
  "segment_byte n p j = (if j < unat (p_filesz p) then file_data n ! (unat (p_offset p) + j) else 0)"

definition segment_loaded :: "nat \<Rightarrow> u64 \<Rightarrow> vnode \<Rightarrow> phdr \<Rightarrow> 'a vmm_scheme \<Rightarrow> bool" where
  "segment_loaded root base n p t \<longleftrightarrow>
     (\<forall>j < unat (p_memsz p). user_data t root (p_vaddr p + base + of_nat j) (segment_byte n p j))"

text \<open>The byte at \<open>j\<close> of a segment whose pages are those of the block.\<close>

lemma segment_user_data:
  assumes ready: "space_ready x root this" and "page_aligned b" and lt: "unat (segment_misalign p) + j < n * 4096"
    and flags: "flags_ok flags" and data: "\<forall>i < n. data_page x root (q + i)"
    and mapped: "\<And>i. i < n \<Longrightarrow>
      translate x root (page_at (p_vaddr p + b) i) = Some (page_at (of_nat q * PAGE_SIZE) i OR flags)"
  shows "user_data x root (p_vaddr p + b + of_nat j) (mem x (page_va x q + of_nat (unat (segment_misalign p) + j)))"
proof -
  note m = segment_misalign_base [OF assms(2), of p]
  let ?i = "(unat (p_vaddr p + b) mod 4096 + j) div 4096"
  have i: "?i < n" using lt unfolding m by (rule less_mult_imp_div_less)
  have "bit_count x \<le> 2 ^ 34" using ready by (simp add: space_ready_def vm_inv_def)
  moreover have page: "data_page x root (q + ?i)" using data i by blast
  ultimately have lim: "q + ?i < 2 ^ 40" by (simp add: data_page_def table_page_def)
  have "pte_page (page_at (of_nat q * PAGE_SIZE) ?i OR flags) = q + ?i"
    unfolding page_at_block by (rule pte_page_new [OF lim flags])
  moreover have "translate x root (p_vaddr p + b + of_nat j) = Some (page_at (of_nat q * PAGE_SIZE) ?i OR flags)"
    using mapped [OF i] by (simp add: translate_def va_path_offset)
  moreover have "phys_ok (page_at (of_nat q * PAGE_SIZE) ?i)" unfolding page_at_block by (rule phys_ok_page [OF lim])
  from user_byte_range [OF mapped [OF i] this flags]
  have "user_byte x root (p_vaddr p + b + of_nat j) = Some (mem x (page_va x q + of_nat (unat (segment_misalign p) + j)))"
    unfolding m page_va_def .
  ultimately show ?thesis using page by (simp add: user_data_def)
qed

lemma segment_put_loaded:
  assumes "space_ready x root this" "page_aligned b"
    and room: "unat (segment_misalign p) + unat (p_memsz p) \<le> n * 4096"
    and "flags_ok flags" "\<forall>i < n. data_page x root (q + i)"
    and "\<And>i. i < n \<Longrightarrow> translate x root (page_at (p_vaddr p + b) i) = Some (page_at (of_nat q * PAGE_SIZE) i OR flags)"
    and bytes: "\<And>j. unat (segment_misalign p) + j < n * 4096 \<Longrightarrow>
      mem x (page_va x q + of_nat (unat (segment_misalign p) + j)) = segment_byte nd p j"
  shows "segment_loaded root b nd p x"
  unfolding segment_loaded_def
proof (intro allI impI)
  fix j assume "j < unat (p_memsz p)"
  then have lt: "unat (segment_misalign p) + j < n * 4096" using room by simp
  have "user_data x root (p_vaddr p + b + of_nat j) (mem x (page_va x q + of_nat (unat (segment_misalign p) + j)))"
    by (rule segment_user_data [OF assms(1,2) lt assms(4-6)])
  then show "user_data x root (p_vaddr p + b + of_nat j) (segment_byte nd p j)" by (simp only: bytes [OF lt])
qed

text \<open>What an address space that grew keeps: the pages of the block are new.\<close>

lemma block_put_grows:
  assumes keeps: "keeps_data root s w" "keeps_pages s w" "keeps_pages w x" and hhdm: "hhdm_offset x = hhdm_offset w"
    and trans: "\<And>v. (\<And>w. w \<in> V \<Longrightarrow> va_path v \<noteq> va_path w) \<Longrightarrow> translate x root v = translate s root v"
    and fresh: "\<And>v. v \<in> V \<Longrightarrow> translate s root v = None"
    and new: "\<forall>i < n. data_page w root (q + i) \<and> \<not> data_page s root (q + i)"
    and same: "\<And>k. data_page x root k = data_page w root k"
    and out: "\<And>k a. data_page w root k \<Longrightarrow> (\<And>i. i < n \<Longrightarrow> k \<noteq> q + i) \<Longrightarrow> a \<in> frame w k \<Longrightarrow> mem x a = mem w a"
  shows "space_grows root V s x"
proof (rule space_growsI [OF keeps_pages_trans [OF keeps(2,3)] _ trans fresh])
  show hhdm': "hhdm_offset x = hhdm_offset s" using keeps(1) hhdm by (simp add: keeps_data_def)
  fix k assume k: "data_page s root k"
  have w: "data_page w root k" using keeps(1) k by (simp add: keeps_data_def)
  have "mem x a = mem s a" if "a \<in> frame s k" for a
  proof -
    have "a \<in> frame w k" using that frame_hhdm [of w s] hhdm hhdm' by simp
    moreover have "k \<noteq> q + i" if "i < n" for i using new that k by metis
    ultimately have "mem x a = mem w a" using out [OF w] by metis
    with that k keeps(1) show ?thesis by (simp add: keeps_data_def)
  qed
  with w show "data_page x root k \<and> (\<forall>a \<in> frame s k. mem x a = mem s a)" by (simp add: same)
qed

lemma files_update_data:
  "data_page (s\<lparr>files := f\<rparr>) root q = data_page (s :: 'a kernel_scheme) root q"
  "keeps_pages r (s\<lparr>files := f\<rparr>) = keeps_pages r s" "keeps_pages (s\<lparr>files := f\<rparr>) t = keeps_pages s t"
  "user_data (s\<lparr>files := f\<rparr>) root v b = user_data s root v b"
  "space_grows root V r (s\<lparr>files := f\<rparr>) = space_grows root V r s"
  "space_grows root V (s\<lparr>files := f\<rparr>) t = space_grows root V s t"
  "segment_loaded root base n p (s\<lparr>files := f\<rparr>) = segment_loaded root base n p s"
proof -
  have same: "bit_count (s\<lparr>files := f\<rparr>) = bit_count s" "page_used (s\<lparr>files := f\<rparr>) = page_used s"
    by (simp_all add: bit_count_def page_used_def fun_eq_iff)
  have "frame (s\<lparr>files := f\<rparr>) = frame s" by (rule frame_hhdm) simp
  moreover have "bitmap_bytes (s\<lparr>files := f\<rparr>) = bitmap_bytes s" by (simp add: bitmap_bytes_def)
  moreover have "tab (s\<lparr>files := f\<rparr>) = tab s" by (intro ext tab_same) simp_all
  ultimately show data: "data_page (s\<lparr>files := f\<rparr>) root q = data_page s root q" for q
    by (simp add: data_page_def table_page_def same)
  show user: "user_data (s\<lparr>files := f\<rparr>) root v b = user_data s root v b" for v b
    by (simp add: user_data_def data files_update_tables)
  show keeps: "keeps_pages r (s\<lparr>files := f\<rparr>) = keeps_pages r s" "keeps_pages (s\<lparr>files := f\<rparr>) t = keeps_pages s t"
    by (simp_all add: keeps_pages_def same)
  show "space_grows root V r (s\<lparr>files := f\<rparr>) = space_grows root V r s"
    "space_grows root V (s\<lparr>files := f\<rparr>) t = space_grows root V s t"
    by (simp_all add: space_grows_def keeps user files_update_tables)
  show "segment_loaded root base n p (s\<lparr>files := f\<rparr>) = segment_loaded root base n p s"
    by (simp add: segment_loaded_def user)
qed

text \<open>
  With a run of free pages ahead for the segment's pages and the tables they need, the segment is loaded
  and the address space grows by its pages.
\<close>

lemma load_segment_step:
  assumes ready: "space_ready s root space" and base: "page_aligned load_base"
    and opened: "loader_file (files s) d n" and seg: "segment_ok n p"
    and fresh: "\<And>v. v \<in> segment_range load_base p \<Longrightarrow> translate s root v = None"
    and pages: "room_ahead s (4 * unat (segment_pages p) + m)"
  obtains t where "load_segment c space (Some d) load_base p s = Inr (True, t)" "space_ready t root space"
    "rflags t = rflags s" "loader_file (files t) d n" "space_grows root (segment_range load_base p) s t"
    "segment_loaded root load_base n p t" "room_ahead t m"
proof -
  have inside: "in_file n (p_offset p) (p_filesz p)" and memsz: "p_filesz p \<le> p_memsz p" "unat (p_memsz p) < 2 ^ 47"
    using seg by (simp_all add: segment_ok_def)
  have filesz: "p_filesz p \<noteq> 0" using inside by (simp add: in_file_def)
  then have "p_memsz p \<noteq> 0" using memsz(1) by auto
  note room = segment_pages_room [OF memsz(2) this]
  let ?v = "p_vaddr p + load_base" and ?n = "unat (segment_pages p)" and ?m = "segment_misalign p"
    and ?bytes = "file_bytes n (p_offset p) (p_filesz p)"
  note load = load_segment_def Let_def terminating_def segment_pages_def segment_misalign_def
  have none: "\<forall>i < ?n. translate s root (page_at ?v i) = None" using fresh by (simp add: segment_range_def)
  obtain q u w where w: "pmm_calloc (segment_pages p) s = Some (of_nat q * PAGE_SIZE, u)" "of_nat q * PAGE_SIZE \<noteq> (0 :: u64)"
    "map_range space ?v (of_nat q * PAGE_SIZE) (segment_pages p) (segment_prot c (p_flags p)) u = Some w"
    "space_ready w root space" "rflags w = rflags s"
    "keeps_data root s w" "keeps_pages s w" "vmm.more w = vmm.more s"
    "\<And>v'. \<forall>i < ?n. va_path v' \<noteq> va_path (page_at ?v i) \<Longrightarrow> translate w root v' = translate s root v'"
    "\<And>i. i < ?n \<Longrightarrow> phys_ok (page_at (of_nat q * PAGE_SIZE) i)"
    "\<forall>i < ?n. data_page w root (q + i) \<and> \<not> data_page s root (q + i)"
    "\<forall>a \<in> region (page_va w q) (of_nat ?n * PAGE_SIZE). mem w a = 0"
    "\<And>i. i < ?n \<Longrightarrow> translate w root (page_at ?v i) = Some (page_at (of_nat q * PAGE_SIZE) i OR segment_prot c (p_flags p))"
    "?n < 2 ^ 36" "room_ahead w m"
    by (rule block_mapped [OF ready room(1) segment_prot_ok none pages]) (rule that)
  have "files w = files s" using w(8) by (cases w; cases s) simp
  then obtain v v' where seek: "seek_to (Some d) (p_offset p) w = Inr (w\<lparr>files := v\<rparr>)"
    and read: "vfs_read (Some d) (p_filesz p) v = Inr (p_filesz p, ?bytes, v')" "loader_file v' d n"
    using seek_read [OF _ inside, of w] opened by metis
  define x where "x = w\<lparr>mem := put_bytes (page_va w q + of_nat (unat ?m)) ?bytes (mem w)\<rparr>"
  let ?t = "x\<lparr>files := v'\<rparr>"
  have ok: "load_segment c space (Some d) load_base p s = Inr (True, ?t)"
    using w(1-3) seek read filesz by (simp add: load read_to_def x_def page_va_def PHYS_TO_VIRT_def ac_simps)
  have len: "length ?bytes = unat (p_filesz p)" by (rule length_file_bytes [OF opened inside])
  then have fits: "unat ?m + length ?bytes \<le> ?n * 4096" using room(3) memsz(1) by (simp add: word_le_nat_alt)
  have block: "\<forall>i < ?n. data_page w root (q + i)" using w(11) by blast
  note put = block_put [OF w(4) block room(2) w(12) fits x_def]
  have grows: "space_grows root (segment_range load_base p) s x"
  proof (rule block_put_grows [OF w(6,7) put(6) _ _ fresh w(11) put(7) put(4)])
    show "hhdm_offset x = hhdm_offset w" by (simp add: x_def)
    fix v assume "\<And>u. u \<in> segment_range load_base p \<Longrightarrow> va_path v \<noteq> va_path u"
    then show "translate x root v = translate s root v" by (simp add: put(2) w(9) segment_range_def)
  qed
  have "segment_loaded root load_base n p x"
  proof (rule segment_put_loaded [OF put(1) base room(3) segment_prot_ok])
    show "\<forall>i < ?n. data_page x root (q + i)" using block put(7) by blast
    show "translate x root (page_at ?v i) = Some (page_at (of_nat q * PAGE_SIZE) i OR segment_prot c (p_flags p))"
      if "i < ?n" for i
      unfolding put(2) using that w(13) by blast
    have "page_va x q = page_va w q" by (simp add: x_def page_va_def PHYS_TO_VIRT_def)
    then show "mem x (page_va x q + of_nat (unat ?m + j)) = segment_byte n p j" if "unat ?m + j < ?n * 4096" for j
      using put(5) [OF that, unfolded len] file_bytes_nth [OF opened inside] by (simp add: segment_byte_def)
  qed
  then show ?thesis
    using ok put(1) put(3) [OF w(15)] w(5) read(2) grows
    by (intro that [of ?t]) (simp_all add: files_update_tables files_update_data x_def)
qed

end
