(* ===== verification/Program_Spec.thy ===== *)
theory Program_Spec
  imports Loader_Spec
begin

text \<open>
  What loading a program gives: every segment of its file is at its addresses. The program headers are
  read one by one, and each segment takes its own pages, so that those loaded before stay.
\<close>

section \<open>Program headers\<close>













lemma space_grows_mono: "space_grows root V s t \<Longrightarrow> V \<subseteq> W \<Longrightarrow> space_grows root W s t"
  unfolding space_grows_def by blast




section \<open>Programs\<close>



section \<open>A program\<close>


















end
