(* ===== verification/Dispatch.thy ===== *)
theory Dispatch
  imports Calls Net
begin

text \<open>
  The table of system calls (\<open>src/kernel/syscalls/handler.cpp\<close>, \<open>src/libs/core/syscalls.hpp\<close>):
  which function each code runs, on which registers, and what the program gets back. The memory
  of the program is reached through its page tables by the processor: \<open>fetch\<close> is what the
  pointers among the arguments point to, \<open>store\<close> the effect of storing a result through one.
\<close>

record user_memory =
  user_string :: "u64 \<Rightarrow> u8 list"
  user_bytes :: "u64 \<Rightarrow> u64 \<Rightarrow> u8 list"
  user_int :: "u64 \<Rightarrow> int"
  user_pixels :: "u64 \<Rightarrow> u64 \<Rightarrow> u32 list"
  user_stat :: "u64 \<Rightarrow> stat"
  user_msghdr :: "u64 \<Rightarrow> msghdr"
  user_iov :: "u64 \<Rightarrow> (u64 \<times> u64) list"

datatype stored =
    Stored_Bytes "u8 list"
  | Stored_Int int
  | Stored_Word u64
  | Stored_Stat stat
  | Stored_Entry dirent
  | Stored_Event keyboard_event
  | Stored_Header msghdr

text \<open>
  How a result comes to the register for it: the upper half is not defined for a result of 32 or
  8 bits, and nothing is for \<open>void\<close>. The other fields are what new sockets and \<open>memset\<close> leave.
\<close>

record calling =
  int_register :: "int \<Rightarrow> u64"
  bool_register :: "bool \<Rightarrow> u64"
  void_register :: u64
  junk_udp :: "udp_packet list"
  junk_icmp :: "(nat \<times> nat) list"
  cleared_stat :: "stat \<Rightarrow> stat"

type_synonym 's blocking = "registers \<Rightarrow> 's \<Rightarrow> fault + (registers \<times> 's)"

text \<open>What a call that returned \<open>r\<close> hands back, with the stores \<open>ws\<close> it made on the way.\<close>

definition returns ::
  "(u64 \<Rightarrow> stored \<Rightarrow> 's \<Rightarrow> 's) \<Rightarrow> u64 \<Rightarrow> (u64 \<times> stored) list \<Rightarrow> registers \<Rightarrow> 's \<Rightarrow> fault + (u64 \<times> registers \<times> 's)" where
  "returns store r ws regs s = Inr (r, regs, fold (\<lambda>(p, w). store p w) ws s)"

definition stores :: "u64 \<Rightarrow> ('b \<Rightarrow> stored) \<Rightarrow> 'b option \<Rightarrow> (u64 \<times> stored) list" where
  "stores p f x = (case x of None \<Rightarrow> [] | Some v \<Rightarrow> [(p, f v)])"

section \<open>Calls on files\<close>

definition run_file_call ::
  "abi \<Rightarrow> calling \<Rightarrow> ('a system_scheme \<Rightarrow> user_memory) \<Rightarrow> (u64 \<Rightarrow> stored \<Rightarrow> 'a system_scheme \<Rightarrow> 'a system_scheme) \<Rightarrow>
   'a system_scheme blocking \<Rightarrow> syscall_code \<Rightarrow> u64 list \<Rightarrow> registers \<Rightarrow> 'a system_scheme \<Rightarrow>
   fault + (u64 \<times> registers \<times> 'a system_scheme)" where
  "run_file_call c v fetch store interrupt nr args regs s =
     (let u = fetch s; a = (\<lambda>i. args ! i); int_arg = (\<lambda>i. to_int32 (args ! i)); ret = int_register v
      in case nr of
        Open \<Rightarrow> and_then (sys_open c (user_string u (a 0)) (int_arg 1) s) (\<lambda>((r, fd), s).
          returns store (ret r) (stores (a 3) Stored_Int fd) regs s)
      | OpenAt \<Rightarrow> and_then (sys_openat c (int_arg 0) (user_string u (a 1)) (int_arg 2) (ucast (a 3)) s) (\<lambda>((r, fd), s).
          returns store (ret r) (stores (a 4) Stored_Int fd) regs s)
      | Read \<Rightarrow> and_then (sys_read c interrupt (int_arg 0) (a 2) regs s) (\<lambda>((r, data, n), regs, s).
          returns store (ret r) ((a 1, Stored_Bytes data) # stores (a 3) (\<lambda>n. Stored_Word (word_of_int n)) n) regs s)
      | Write \<Rightarrow> and_then (sys_write c (int_arg 0) (user_bytes u (a 1) (a 2)) (a 2) s) (\<lambda>((r, n), s).
          returns store (ret r) (stores (a 3) (\<lambda>n. Stored_Word (word_of_int n)) n) regs s)
      | Seek \<Rightarrow> and_then (sys_seek c (int_arg 0) (a 1) (int_arg 2) s) (\<lambda>((r, pos), s).
          returns store (ret r) (stores (a 3) Stored_Word pos) regs s)
      | Close \<Rightarrow> and_then (sys_close c (int_arg 0) s) (\<lambda>(r, s). returns store (ret r) [] regs s)
      | Stat \<Rightarrow> and_then (sys_stat c (cleared_stat v) (int_arg 0) (user_string u (a 1)) (user_stat u (a 3)) s) (\<lambda>(r, st).
          returns store (ret r) [(a 3, Stored_Stat st)] regs s)
      | ReadEntries \<Rightarrow> and_then (sys_read_entries c (int_arg 0) s) (\<lambda>((r, entry), s).
          returns store (ret r) (case entry of None \<Rightarrow> []
            | Some (e, n) \<Rightarrow> stores (a 1) Stored_Entry e @ [(a 3, Stored_Word n)]) regs s)
      | GetCwd \<Rightarrow> and_then (sys_get_cwd s) (\<lambda>(r, path).
          returns store (ret r) [(a 0, Stored_Bytes (path @ [0]))] regs s)
      | Chdir \<Rightarrow> and_then (sys_chdir (user_string u (a 0)) s) (\<lambda>(r, s). returns store (ret r) [] regs s)
      | Mkdir \<Rightarrow> and_then (sys_mkdir (user_string u (a 0)) s) (\<lambda>(r, s). returns store (ret r) [] regs s)
      | _ \<Rightarrow> Inl Out_Of_Bounds)"

section \<open>Calls on sockets\<close>

definition run_socket_call ::
  "abi \<Rightarrow> calling \<Rightarrow> ('a system_scheme \<Rightarrow> user_memory) \<Rightarrow> (u64 \<Rightarrow> stored \<Rightarrow> 'a system_scheme \<Rightarrow> 'a system_scheme) \<Rightarrow>
   'a system_scheme blocking \<Rightarrow> syscall_code \<Rightarrow> u64 list \<Rightarrow> registers \<Rightarrow> 'a system_scheme \<Rightarrow>
   fault + (u64 \<times> registers \<times> 'a system_scheme)" where
  "run_socket_call c v fetch store interrupt nr args regs s =
     (let u = fetch s; a = (\<lambda>i. args ! i); int_arg = (\<lambda>i. to_int32 (args ! i)); ret = int_register v
      in case nr of
        CreateSocket \<Rightarrow> and_then (sys_socket c (junk_udp v) (junk_icmp v) (int_arg 0) (int_arg 1) (int_arg 2) s) (\<lambda>(r, s).
          returns store (ret r) [] regs s)
      | SendMsg \<Rightarrow> and_then (sys_send_msg c (int_arg 0) (user_msghdr u (a 1))
            (map (\<lambda>(p, n). user_bytes u p n) (user_iov u (a 1))) s) (\<lambda>(r, s). returns store (ret r) [] regs s)
      | RecvMsg \<Rightarrow> and_then (sys_recv_msg c interrupt (int_arg 0) (user_msghdr u (a 1)) (map snd (user_iov u (a 1))) (int_arg 2)
            regs s) (\<lambda>((r, hdr, bufs), regs, s).
          returns store (ret r) ((a 1, Stored_Header hdr) # zip (map fst (user_iov u (a 1))) (map Stored_Bytes bufs)) regs s)
      | SetSocketOpt \<Rightarrow> returns store (ret (sys_set_sock_opt (int_arg 0) (int_arg 1) (int_arg 2) (user_bytes u (a 3) (a 4)) (a 4))) []
            regs s
      | _ \<Rightarrow> Inl Out_Of_Bounds)"

section \<open>All calls\<close>

definition run_call ::
  "abi \<Rightarrow> calling \<Rightarrow> ('a system_scheme \<Rightarrow> user_memory) \<Rightarrow> (u64 \<Rightarrow> stored \<Rightarrow> 'a system_scheme \<Rightarrow> 'a system_scheme) \<Rightarrow>
   'a system_scheme blocking \<Rightarrow> syscall_code \<Rightarrow> u64 list \<Rightarrow> registers \<Rightarrow> 'a system_scheme \<Rightarrow>
   fault + (u64 \<times> registers \<times> 'a system_scheme)" where
  "run_call c v fetch store interrupt nr args regs s =
     (let u = fetch s; a = (\<lambda>i. args ! i); int_arg = (\<lambda>i. to_int32 (args ! i)); ret = int_register v
      in case nr of
        Log \<Rightarrow> and_then (sys_log (user_string u (a 0)) s) (\<lambda>(r, s). returns store r [] regs s)
      | Mmap \<Rightarrow> and_then (sys_mmap c (a 0) (a 1) (int_arg 2) (int_arg 3) (int_arg 4) (a 5) s) (\<lambda>(r, s).
          returns store r [] regs s)
      | TcbSet \<Rightarrow> (let (r, s) = sys_tcb_set (a 0) s in returns store (ret r) [] regs s)
      | Exit \<Rightarrow> and_then (sys_exit interrupt regs s) (\<lambda>(regs, s). returns store (void_register v) [] regs s)
      | FutexWait \<Rightarrow> and_then (sys_futex_wait c interrupt (a 0) (user_int u (a 0)) (int_arg 1) regs s) (\<lambda>(r, regs, s).
          returns store (ret r) [] regs s)
      | FutexWake \<Rightarrow> and_then (sys_futex_wake (a 0) s) (\<lambda>(r, s). returns store (ret r) [] regs s)
      | DrawFromBuffer \<Rightarrow> and_then (sys_draw_from_buffer (user_pixels u (a 0) (a 1 * a 2)) (a 1) (a 2) s) (\<lambda>s.
          returns store (void_register v) [] regs s)
      | ClockGet \<Rightarrow> and_then (sys_clock_get c (int_arg 0) s) (\<lambda>((r, time), s).
          returns store (ret r) (case time of None \<Rightarrow> []
            | Some (secs, nanos) \<Rightarrow> [(a 1, Stored_Word secs), (a 2, Stored_Word nanos)]) regs s)
      | Sleep \<Rightarrow> and_then (sys_sleep interrupt (a 0) regs s) (\<lambda>(regs, s). returns store (void_register v) [] regs s)
      | GetKbEvent \<Rightarrow> and_then (sys_get_kb_event s) (\<lambda>(event, s).
          returns store (bool_register v (event \<noteq> None)) (stores (a 0) Stored_Event event) regs s)
      | _ \<Rightarrow> (if nr \<in> {CreateSocket, SendMsg, RecvMsg, SetSocketOpt}
          then run_socket_call c v fetch store interrupt nr args regs s
          else run_file_call c v fetch store interrupt nr args regs s))"

definition handle_syscall ::
  "abi \<Rightarrow> calling \<Rightarrow> ('a system_scheme \<Rightarrow> user_memory) \<Rightarrow> (u64 \<Rightarrow> stored \<Rightarrow> 'a system_scheme \<Rightarrow> 'a system_scheme) \<Rightarrow>
   'a system_scheme blocking \<Rightarrow> registers \<Rightarrow> 'a system_scheme \<Rightarrow> fault + (registers \<times> 'a system_scheme)" where
  "handle_syscall c v fetch store interrupt regs s = syscall_handler (run_call c v fetch store interrupt) regs s"

text \<open>The entry of every interrupt, with the handlers the kernel installs.\<close>

definition dispatch_interrupt ::
  "abi \<Rightarrow> calling \<Rightarrow> ('a system_scheme \<Rightarrow> user_memory) \<Rightarrow> (u64 \<Rightarrow> stored \<Rightarrow> 'a system_scheme \<Rightarrow> 'a system_scheme) \<Rightarrow>
   'a system_scheme blocking \<Rightarrow> registers \<Rightarrow> 'a system_scheme \<Rightarrow> fault + (registers \<times> 'a system_scheme)" where
  "dispatch_interrupt c v fetch store interrupt regs s =
     int_dispatch (handle_syscall c v fetch store interrupt) e1000_handler regs s"

end
