(* ===== verification/Dispatch_Spec.thy ===== *)
theory Dispatch_Spec
  imports Dispatch Net_Spec
begin

text \<open>What a program sees of an interrupt it raised for a system call.\<close>

text \<open>The calls that may wait: the registers of other tasks pass through the processor meanwhile.\<close>

definition may_wait :: "syscall_code \<Rightarrow> bool" where
  "may_wait nr \<longleftrightarrow> nr \<in> {Read, FutexWait, Sleep, Exit, RecvMsg}"

lemma run_file_call_registers:
  assumes "run_file_call c v fetch store interrupt nr args regs s = Inr (r, regs', s')" and "\<not> may_wait nr"
  shows "regs' = regs"
  using assms
  by (cases nr) (auto simp: run_file_call_def may_wait_def and_then_eq_Inr returns_def Let_def split: prod.splits)

lemma run_socket_call_registers:
  assumes "run_socket_call c v fetch store interrupt nr args regs s = Inr (r, regs', s')" and "\<not> may_wait nr"
  shows "regs' = regs"
  using assms
  by (cases nr) (auto simp: run_socket_call_def may_wait_def and_then_eq_Inr returns_def Let_def split: prod.splits)

lemma run_call_registers:
  assumes "run_call c v fetch store interrupt nr args regs s = Inr (r, regs', s')" and "\<not> may_wait nr"
  shows "regs' = regs"
  using assms
  by (cases nr)
     (auto simp: run_call_def may_wait_def and_then_eq_Inr returns_def Let_def split: prod.splits
       dest: run_file_call_registers run_socket_call_registers)


lemma syscall_codes_length [simp]: "length syscall_codes = 25"
  by (simp add: syscall_codes_def)

lemma syscall_handler_registers:
  assumes "handle_syscall c v fetch store interrupt regs s = Inr (regs', s')"
    and "rdi regs < 25 \<Longrightarrow> \<not> may_wait (syscall_codes ! unat (rdi regs))"
  shows "regs' = (if rdi regs < 25 then regs\<lparr>rax := rax regs'\<rparr> else regs)"
proof (cases "rdi regs < 25")
  case True
  then obtain r regs'' where "run_call c v fetch store interrupt (syscall_codes ! unat (rdi regs))
      [rsi regs, rdx regs, rcx regs, r8 regs, r9 regs, r10 regs] regs s = Inr (r, regs'', s')" "regs' = regs''\<lparr>rax := r\<rparr>"
    using assms(1) by (auto simp: handle_syscall_def syscall_handler_def and_then_eq_Inr simp flip: not_less)
  then show ?thesis using run_call_registers assms(2) True by fastforce
next
  case False
  then show ?thesis
    using assms(1) by (auto simp: handle_syscall_def syscall_handler_def and_then_eq_Inr not_less)
qed

text \<open>
  C14: When a program raises the interrupt for system calls and the handler returns, the registers it gets
  back are its own but for \<open>rax\<close>, for each of the calls that cannot wait, whatever the call did, and all
  of them for a number that is no call; and the interrupt is acknowledged to the controller after
  everything else.
\<close>

theorem syscall_registers:
  assumes "irq_table s (vect_num regs) = Some Syscall_Irq"
    and "rdi regs < 25 \<Longrightarrow> \<not> may_wait (syscall_codes ! unat (rdi regs))"
    and "dispatch_interrupt c v fetch store interrupt regs s = Inr (regs', s')"
  shows "regs' = (if rdi regs < 25 then regs\<lparr>rax := rax regs'\<rparr> else regs) \<and>
    (\<exists>t. handle_syscall c v fetch store interrupt regs s = Inr (regs', t) \<and> s' = lapic_write Eoi 0 t)"
proof -
  obtain t where t: "handle_syscall c v fetch store interrupt regs s = Inr (regs', t)" "s' = lapic_write Eoi 0 t"
    using assms(1,3) by (auto simp: dispatch_interrupt_def int_dispatch_def run_handler_def and_then_eq_Inr split: if_splits)
  then show ?thesis using syscall_handler_registers [OF t(1) assms(2)] by blast
qed

text \<open>The call that sets the thread pointer, number 6.\<close>

definition sample_registers :: registers where
  "sample_registers = zero_registers\<lparr>rdi := 6, rsi := 0x7000, rbx := 11, vect_num := 0xfe\<rparr>"

theorem syscall_registers_witness:
  "\<forall>c fetch store interrupt. \<exists>regs' s'. dispatch_interrupt c \<lparr>int_register = of_int, bool_register = (\<lambda>b. if b then 1 else 0), void_register = 0,
       junk_udp = [], junk_icmp = [], cleared_stat = id\<rparr> fetch store interrupt sample_registers
       (interrupt_init sample_system) = Inr (regs', s') \<and> rax regs' = 0 \<and> rbx regs' = 11 \<and> rsi regs' = 0x7000"
proof (intro allI)
  fix c fetch store interrupt
  let ?s = "interrupt_init sample_system"
  let ?v = "\<lparr>int_register = of_int, bool_register = (\<lambda>b. if b then 1 else 0), void_register = 0,
       junk_udp = [], junk_icmp = [], cleared_stat = id\<rparr>"
  have irq: "irq_table ?s (vect_num sample_registers) = Some Syscall_Irq"
    by (simp add: interrupt_init_def set_handler_def sample_registers_def SYSCALL_VECT_def E1000_VECT_def)
  have nr: "rdi sample_registers = 6" "syscall_codes ! 6 = TcbSet"
    by (simp_all add: sample_registers_def syscall_codes_def)
  obtain t where h: "handle_syscall c ?v fetch store interrupt sample_registers ?s = Inr (sample_registers\<lparr>rax := 0\<rparr>, t)"
    by (simp add: handle_syscall_def syscall_handler_def nr run_call_def sys_tcb_set_def returns_def)
  then have d: "dispatch_interrupt c ?v fetch store interrupt sample_registers ?s =
      Inr (sample_registers\<lparr>rax := 0\<rparr>, lapic_write Eoi 0 t)"
    using irq by (simp add: dispatch_interrupt_def int_dispatch_def run_handler_def sample_registers_def)
  have "\<not> may_wait (syscall_codes ! unat (rdi sample_registers))" by (simp add: nr may_wait_def)
  from syscall_registers [OF irq this d] d
  show "\<exists>regs' s'. dispatch_interrupt c ?v fetch store interrupt sample_registers ?s = Inr (regs', s') \<and>
      rax regs' = 0 \<and> rbx regs' = 11 \<and> rsi regs' = 0x7000" by (auto simp: sample_registers_def)
qed

end
