(* ===== verification/User_Calls.thy ===== *)
theory User_Calls
  imports Dispatch_Spec
begin

text \<open>
  The user side of a system call (\<open>_syscall\<close> and \<open>syscall\<close> in \<open>src/libs/core/syscalls.hpp\<close>) and the graphics library
  for programs (\<open>src/libs/gui/gui.cpp\<close>). The assembly of \<open>_syscall\<close> moves the code and the arguments to their
  registers and raises interrupt \<open>0xfe\<close>; \<open>system\<close> is what the interrupt does to the registers and the state.
\<close>

definition syscall_registers_for :: "u64 \<Rightarrow> u64 list \<Rightarrow> registers \<Rightarrow> registers" where
  "syscall_registers_for number args regs =
     (let arg = (\<lambda>i. if i < length args then args ! i else 0)
      in regs\<lparr>rdi := number, rsi := arg 0, rdx := arg 1, rcx := arg 2, r8 := arg 3, r9 := arg 4, r10 := arg 5,
           vect_num := 0xfe, err_code := 0\<rparr>)"

definition user_syscall ::
  "(registers \<Rightarrow> 's \<Rightarrow> fault + (registers \<times> 's)) \<Rightarrow> u64 \<Rightarrow> u64 list \<Rightarrow> registers \<Rightarrow> 's \<Rightarrow> fault + (u64 \<times> registers \<times> 's)" where
  "user_syscall system number args regs s =
     and_then (system (syscall_registers_for number args regs) s) (\<lambda>(regs, s). Inr (rax regs, regs, s))"

text \<open>The code of a call is its place in the list both sides are made from.\<close>

definition syscall_number :: "syscall_code \<Rightarrow> u64" where
  "syscall_number nr = of_nat (length (takeWhile (\<lambda>c. c \<noteq> nr) syscall_codes))"

lemma syscall_number_codes: "syscall_number nr < 25" "syscall_codes ! unat (syscall_number nr) = nr"
  by (cases nr; simp add: syscall_number_def syscall_codes_def)+

definition draw_from_buffer ::
  "(registers \<Rightarrow> 's \<Rightarrow> fault + (registers \<times> 's)) \<Rightarrow> u64 \<Rightarrow> u64 \<Rightarrow> u64 \<Rightarrow> registers \<Rightarrow> 's \<Rightarrow> fault + (registers \<times> 's)" where
  "draw_from_buffer system buffer width height regs s =
     (if buffer = 0 then Inr (regs, s)
      else and_then (user_syscall system (syscall_number DrawFromBuffer) [buffer, width, height] regs s)
        (\<lambda>(_, regs, s). Inr (regs, s)))"

definition get_kb_event ::
  "(registers \<Rightarrow> 's \<Rightarrow> fault + (registers \<times> 's)) \<Rightarrow> u64 \<Rightarrow> registers \<Rightarrow> 's \<Rightarrow> fault + (bool \<times> registers \<times> 's)" where
  "get_kb_event system kb_event regs s =
     (if kb_event = 0 then Inr (False, regs, s)
      else and_then (user_syscall system (syscall_number GetKbEvent) [kb_event] regs s)
        (\<lambda>(r, regs, s). Inr (r \<noteq> 0, regs, s)))"

section \<open>Drawing\<close>

text \<open>Stores at places that differ.\<close>

lemma fold_stores:
  assumes "inj_on f (set ks)"
  shows "fold (\<lambda>k p. p(f k := g k)) ks p a = (if a \<in> f ` set ks then g (the_inv_into (set ks) f a) else p a)"
  using assms
proof (induction ks arbitrary: p)
  case (Cons k ks)
  have inj: "inj_on f (set ks)" using Cons.prems by (simp add: inj_on_def)
  consider "a \<in> f ` set ks" | "a = f k" "a \<notin> f ` set ks" | "a \<noteq> f k" "a \<notin> f ` set ks" by blast
  then show ?case
  proof cases
    case 1
    then obtain l where l: "l \<in> set ks" "a = f l" by blast
    have "the_inv_into (set ks) f a = l" "the_inv_into (set (k # ks)) f a = l"
      unfolding l(2) by (rule the_inv_into_f_f, use inj Cons.prems l(1) in simp_all)+
    with 1 Cons.IH [OF inj, of "p(f k := g k)"] show ?thesis by simp
  next
    case 2
    have "the_inv_into (set (k # ks)) f (f k) = k" by (rule the_inv_into_f_f) (use Cons.prems in simp_all)
    with 2 Cons.IH [OF inj, of "p(f k := g k)"] show ?thesis by simp
  qed (use Cons.IH [OF inj, of "p(f k := g k)"] in simp)
qed simp

lemma fold_stores_at: "inj_on f (set ks) \<Longrightarrow> k \<in> set ks \<Longrightarrow> fold (\<lambda>k p. p(f k := g k)) ks p (f k) = g k"
  by (simp add: fold_stores the_inv_into_f_f)

lemma fold_stores_outside: "a \<notin> f ` set ks \<Longrightarrow> fold (\<lambda>k p. p(f k := g k)) ks p a = p a"
  by (induction ks arbitrary: p) auto

text \<open>The place of a pixel, and a picture as stores at the places of its pixels, if these are all in the frame buffer.\<close>

definition pixel_place :: "terminal \<Rightarrow> nat \<times> nat \<Rightarrow> u64" where
  "pixel_place t = (\<lambda>(y, x). of_nat y * get_width t + of_nat x)"

definition on_screen :: "terminal \<Rightarrow> nat \<times> nat \<Rightarrow> bool" where
  "on_screen t k \<longleftrightarrow> unat (pixel_place t k) < unat (get_width t) * unat (get_height t)"

lemma draw_picture:
  assumes "get_framebuffer t \<noteq> 0" "\<forall>(y, x) \<in> set ks. y * unat width + x < length buffer"
  shows "draw_pixels buffer width ks t =
    (if \<forall>k \<in> set ks. on_screen t k
     then Inr (t\<lparr>pixels := fold (\<lambda>k p. p(pixel_place t k := buffer ! (fst k * unat width + snd k))) ks (pixels t)\<rparr>)
     else Inl Out_Of_Bounds)"
  using assms
proof (induction ks arbitrary: t)
  case (Cons k ks)
  obtain y x where k: "k = (y, x)" by (cases k)
  have j: "y * unat width + x < length buffer" using Cons.prems(2) by (simp add: k)
  show ?case
  proof (cases "on_screen t k")
    case True
    let ?t = "t\<lparr>pixels := (pixels t)(pixel_place t k := buffer ! (fst k * unat width + snd k))\<rparr>"
    have pixel: "draw_pixel buffer width k t = Inr ?t"
      using True j Cons.prems(1) by (simp add: draw_pixel_def Let_def k on_screen_def pixel_place_def not_le)
    have same: "on_screen ?t = on_screen t" "pixel_place ?t = pixel_place t" "get_framebuffer ?t = get_framebuffer t"
      by (simp_all add: fun_eq_iff on_screen_def pixel_place_def get_width_def get_height_def get_framebuffer_def)
    from this have rest: "draw_pixels buffer width ks ?t =
      (if \<forall>k \<in> set ks. on_screen t k
       then Inr (?t\<lparr>pixels := fold (\<lambda>k p. p(pixel_place t k := buffer ! (fst k * unat width + snd k))) ks (pixels ?t)\<rparr>)
       else Inl Out_Of_Bounds)"
      using Cons.IH [of ?t] Cons.prems by simp
    show ?thesis using True unfolding draw_pixels.simps pixel and_then_Inr rest by (auto simp: fun_upd_def)
  next
    case False
    then have "draw_pixel buffer width k t = Inl Out_Of_Bounds"
      using j Cons.prems(1) by (simp add: draw_pixel_def Let_def k on_screen_def pixel_place_def)
    then show ?thesis using False by simp
  qed
qed simp

text \<open>Pixels of a picture no wider than the screen are one after the other, and in the frame buffer if their line is.\<close>

lemma unat_pixel_place:
  assumes "x < unat (get_width t)" "y * unat (get_width t) + x < 2 ^ 64"
  shows "unat (pixel_place t (y, x)) = y * unat (get_width t) + x"
proof -
  have "pixel_place t (y, x) = of_nat (y * unat (get_width t) + x)" by (simp add: pixel_place_def)
  with assms(2) show ?thesis by (simp only: unat_of_nat_u64)
qed

lemma line_end:
  assumes "y < h" "x < (n :: nat)"
  shows "y * n + x < h * n"
proof -
  have "y * n + x < Suc y * n" using assms(2) by simp
  also have "\<dots> \<le> h * n" using assms(1) by (intro mult_right_mono) simp_all
  finally show ?thesis .
qed

lemma picture_on_screen:
  assumes "w \<le> unat (get_width t)" "unat (get_height t) * unat (get_width t) < 2 ^ 64" "w \<noteq> 0"
  shows "(\<forall>k \<in> {0..<h} \<times> {0..<w}. on_screen t k) \<longleftrightarrow> h \<le> unat (get_height t)"
proof
  assume h: "h \<le> unat (get_height t)"
  show "\<forall>k \<in> {0..<h} \<times> {0..<w}. on_screen t k"
  proof (clarify)
    fix y x assume "y \<in> {0..<h}" "x \<in> {0..<w}"
    then have yx: "y < unat (get_height t)" "x < unat (get_width t)" using h assms(1) by auto
    have "y * unat (get_width t) + x < unat (get_height t) * unat (get_width t)" using yx by (rule line_end)
    with assms(2) unat_pixel_place [OF yx(2), of y] show "on_screen t (y, x)" by (simp add: on_screen_def mult.commute)
  qed
next
  assume all: "\<forall>k \<in> {0..<h} \<times> {0..<w}. on_screen t k"
  show "h \<le> unat (get_height t)"
  proof (rule ccontr)
    assume "\<not> h \<le> unat (get_height t)"
    then have "on_screen t (unat (get_height t), 0)" using all assms(3) by simp
    moreover have "0 < unat (get_width t)" using assms(1,3) by simp
    ultimately show False
      using unat_pixel_place [of 0 t "unat (get_height t)"] assms(2) by (simp add: on_screen_def mult.commute)
  qed
qed

lemma pixel_place_inj:
  assumes "w \<le> unat (get_width t)" "h * unat (get_width t) \<le> 2 ^ 64"
  shows "inj_on (pixel_place t) ({0..<h} \<times> {0..<w})"
proof (rule inj_onI)
  let ?n = "unat (get_width t)"
  have place: "unat (pixel_place t (y, x)) = y * ?n + x" if "y < h" "x < w" for y x
  proof -
    have x: "x < ?n" using that(2) assms(1) by simp
    from line_end [OF that(1) x] assms(2) show ?thesis by (intro unat_pixel_place x) simp
  qed
  fix k l assume k: "k \<in> {0..<h} \<times> {0..<w}" "l \<in> {0..<h} \<times> {0..<w}" "pixel_place t k = pixel_place t l"
  obtain y x y' x' where kl: "k = (y, x)" "l = (y', x')" by (cases k; cases l) blast
  have eq: "y * ?n + x = y' * ?n + x'" using k place kl by (metis SigmaD1 SigmaD2 atLeastLessThan_iff)
  have "x < ?n" "x' < ?n" using k(1,2) kl assms(1) by auto
  then have "y = y'" using arg_cong [OF eq, of "\<lambda>m. m div ?n"] by simp
  with eq show "k = l" by (simp add: kl)
qed

lemma sys_draw_picture:
  assumes "unat width * unat height \<le> length buffer" "get_framebuffer (terminal s) \<noteq> 0"
    and "unat width \<le> unat (get_width (terminal s))" "width \<noteq> 0"
    and "unat (get_height (terminal s)) * unat (get_width (terminal s)) < 2 ^ 64"
  shows "unat (get_height (terminal s)) < unat height \<Longrightarrow>
      sys_draw_from_buffer buffer width height s = Inl Out_Of_Bounds"
    and "unat height \<le> unat (get_height (terminal s)) \<Longrightarrow>
      \<exists>p. sys_draw_from_buffer buffer width height s = Inr (s\<lparr>terminal := (terminal s)\<lparr>pixels := p\<rparr>\<rparr>) \<and>
        (\<forall>y < unat height. \<forall>x < unat width. p (pixel_place (terminal s) (y, x)) = buffer ! (y * unat width + x)) \<and>
        (\<forall>a. a \<notin> pixel_place (terminal s) ` ({0..<unat height} \<times> {0..<unat width}) \<longrightarrow> p a = pixels (terminal s) a)"
proof -
  let ?t = "terminal s" and ?ks = "List.product [0..<unat height] [0..<unat width]"
  obtain a where fb: "fb_address ?t = Some a" using assms(2) by (auto simp: get_framebuffer_def split: option.splits)
  have inside: "\<forall>(y, x) \<in> set ?ks. y * unat width + x < length buffer"
  proof (clarify)
    fix y x assume "(y, x) \<in> set ?ks"
    then have "y * unat width + x < unat height * unat width" by (intro line_end) simp_all
    also have "\<dots> \<le> length buffer" using assms(1) by (simp only: mult.commute)
    finally show "y * unat width + x < length buffer" .
  qed
  have "unat width \<noteq> 0" using assms(4) by (simp add: unat_eq_zero)
  from picture_on_screen [OF assms(3,5) this, of "unat height"]
  have seen: "(\<forall>k \<in> set ?ks. on_screen ?t k) \<longleftrightarrow> unat height \<le> unat (get_height ?t)" by simp
  define p where "p = fold (\<lambda>k p. p(pixel_place ?t k := buffer ! (fst k * unat width + snd k))) ?ks (pixels ?t)"
  have draw: "sys_draw_from_buffer buffer width height s = (if unat height \<le> unat (get_height ?t)
      then Inr (s\<lparr>terminal := ?t\<lparr>pixels := p\<rparr>\<rparr>) else Inl Out_Of_Bounds)"
    using fb by (simp only: sys_draw_from_buffer_def draw_picture [OF assms(2) inside] seen p_def) (simp add: non_null_def)
  show "sys_draw_from_buffer buffer width height s = Inl Out_Of_Bounds" if "unat (get_height ?t) < unat height"
    using draw that by simp
  assume low: "unat height \<le> unat (get_height ?t)"
  have "unat height * unat (get_width ?t) \<le> unat (get_height ?t) * unat (get_width ?t)"
    using low by (rule mult_right_mono) simp
  then have "unat height * unat (get_width ?t) \<le> 2 ^ 64" using less_imp_le [OF assms(5)] by (rule order_trans)
  then have inj: "inj_on (pixel_place ?t) (set ?ks)" using pixel_place_inj [OF assms(3)] by simp
  have "p (pixel_place ?t (y, x)) = buffer ! (y * unat width + x)" if "y < unat height" "x < unat width" for y x
    using fold_stores_at [OF inj, of "(y, x)" "\<lambda>k. buffer ! (fst k * unat width + snd k)" "pixels ?t"] that by (simp add: p_def)
  moreover have "p a = pixels ?t a" if "a \<notin> pixel_place ?t ` ({0..<unat height} \<times> {0..<unat width})" for a
    unfolding p_def by (rule fold_stores_outside) (use that in simp)
  ultimately show "\<exists>p. sys_draw_from_buffer buffer width height s = Inr (s\<lparr>terminal := ?t\<lparr>pixels := p\<rparr>\<rparr>) \<and>
      (\<forall>y < unat height. \<forall>x < unat width. p (pixel_place ?t (y, x)) = buffer ! (y * unat width + x)) \<and>
      (\<forall>a. a \<notin> pixel_place ?t ` ({0..<unat height} \<times> {0..<unat width}) \<longrightarrow> p a = pixels ?t a)"
    using draw low by auto
qed

text \<open>
  C15: A picture a program draws with the graphics library, no wider and no higher than the screen, is on the screen
  when the call returns: through the system call and its interrupt every pixel of the picture gets to its place in
  the frame buffer, all other pixels stay, and the program's registers but those of the call are its own. A picture
  that is higher than the screen is stored behind the end of the frame buffer: nothing in the kernel tests its size.
\<close>

theorem gui_draw_reaches_screen:
  assumes "irq_table s 0xfe = Some Syscall_Irq" and "buffer \<noteq> 0" and "get_framebuffer (terminal s) \<noteq> 0"
    and "unat width * unat height \<le> length (user_pixels (fetch s) buffer (width * height))"
    and "unat width \<le> unat (get_width (terminal s))" "width \<noteq> 0"
    and "unat (get_height (terminal s)) * unat (get_width (terminal s)) < 2 ^ 64"
  shows "if unat (get_height (terminal s)) < unat height
    then draw_from_buffer (dispatch_interrupt c v fetch store interrupt) buffer width height regs s = Inl Out_Of_Bounds
    else \<exists>s' p. draw_from_buffer (dispatch_interrupt c v fetch store interrupt) buffer width height regs s =
        Inr ((syscall_registers_for (syscall_number DrawFromBuffer) [buffer, width, height] regs)\<lparr>rax := void_register v\<rparr>, s') \<and>
      terminal s' = (terminal s)\<lparr>pixels := p\<rparr> \<and>
      (\<forall>y < unat height. \<forall>x < unat width. p (of_nat y * get_width (terminal s) + of_nat x) =
         user_pixels (fetch s) buffer (width * height) ! (y * unat width + x)) \<and>
      (\<forall>a. (\<forall>y < unat height. \<forall>x < unat width. a \<noteq> of_nat y * get_width (terminal s) + of_nat x) \<longrightarrow> p a = pixels (terminal s) a)"
proof -
  let ?regs = "syscall_registers_for (syscall_number DrawFromBuffer) [buffer, width, height] regs"
    and ?draw = "sys_draw_from_buffer (user_pixels (fetch s) buffer (width * height)) width height s"
  note picture = sys_draw_picture [OF assms(4,3,5,6,7)]
  have "vect_num ?regs = 0xfe" "rdi ?regs = syscall_number DrawFromBuffer" "rsi ?regs = buffer" "rdx ?regs = width" "rcx ?regs = height"
    by (simp_all add: syscall_registers_for_def Let_def)
  moreover have "\<not> 25 \<le> syscall_number DrawFromBuffer" using syscall_number_codes(1) by (simp add: not_le)
  ultimately have call: "dispatch_interrupt c v fetch store interrupt ?regs s =
      and_then ?draw (\<lambda>s. Inr (?regs\<lparr>rax := void_register v\<rparr>, lapic_write Eoi 0 s))"
    using assms(1) syscall_number_codes(2) [of DrawFromBuffer]
    by (cases ?draw) (simp_all add: dispatch_interrupt_def int_dispatch_def run_handler_def handle_syscall_def syscall_handler_def run_call_def
        returns_def Let_def)
  show ?thesis
  proof (cases "unat (get_height (terminal s)) < unat height")
    case True
    with call picture(1) assms(2) show ?thesis by (simp add: draw_from_buffer_def user_syscall_def)
  next
    case False
    then obtain p where p: "?draw = Inr (s\<lparr>terminal := (terminal s)\<lparr>pixels := p\<rparr>\<rparr>)"
      "\<forall>y < unat height. \<forall>x < unat width.
         p (pixel_place (terminal s) (y, x)) = user_pixels (fetch s) buffer (width * height) ! (y * unat width + x)"
      "\<forall>a. a \<notin> pixel_place (terminal s) ` ({0..<unat height} \<times> {0..<unat width}) \<longrightarrow> p a = pixels (terminal s) a"
      using picture(2) by (auto simp: not_less)
    let ?s = "s\<lparr>terminal := (terminal s)\<lparr>pixels := p\<rparr>\<rparr>"
    have "terminal (lapic_write Eoi 0 ?s) = (terminal s)\<lparr>pixels := p\<rparr>"
      by (simp add: lapic_write_def mmio_write_def io_do_def)
    moreover have "p a = pixels (terminal s) a"
      if "\<forall>y < unat height. \<forall>x < unat width. a \<noteq> of_nat y * get_width (terminal s) + of_nat x" for a
      by (rule p(3) [rule_format]) (use that in \<open>fastforce simp: pixel_place_def\<close>)
    moreover have "dispatch_interrupt c v fetch store interrupt ?regs s = Inr (?regs\<lparr>rax := void_register v\<rparr>, lapic_write Eoi 0 ?s)"
      unfolding call p(1) by simp
    ultimately show ?thesis
      using assms(2) p(2) False by (simp add: draw_from_buffer_def user_syscall_def pixel_place_def) blast
  qed
qed

text \<open>Two pixels on a screen of three pixels by two.\<close>

definition screen_system :: system where
  "screen_system = interrupt_init sample_system\<lparr>terminal := (terminal sample_system)\<lparr>fb_address := Some 0xfd000000,
     fb_width := 3, fb_height := 2, pixels := (\<lambda>_. 0)\<rparr>\<rparr>"

theorem gui_draw_reaches_screen_witness:
  "\<forall>c v u store interrupt. \<exists>s' p. draw_from_buffer (dispatch_interrupt c v (\<lambda>_. u\<lparr>user_pixels := (\<lambda>_ _. [0xff0000, 0xff])\<rparr>) store interrupt) 0x500000 1 2 zero_registers screen_system =
      Inr ((syscall_registers_for 16 [0x500000, 1, 2] zero_registers)\<lparr>rax := void_register v\<rparr>, s') \<and>
    terminal s' = (terminal screen_system)\<lparr>pixels := p\<rparr> \<and> p 0 = 0xff0000 \<and> p 3 = 0xff \<and> p 1 = 0"
proof (intro allI)
  fix c v u store interrupt
  have irq: "irq_table screen_system 0xfe = Some Syscall_Irq"
    by (simp add: screen_system_def interrupt_init_def set_handler_def SYSCALL_VECT_def E1000_VECT_def)
  have screen: "get_width (terminal screen_system) = 3" "get_framebuffer (terminal screen_system) \<noteq> 0" "pixels (terminal screen_system) 1 = 0"
    "get_height (terminal screen_system) = 2"
    by (simp_all add: screen_system_def get_width_def get_height_def get_framebuffer_def interrupt_init_def set_handler_def)
  have nr: "syscall_number DrawFromBuffer = 16" by (simp add: syscall_number_def syscall_codes_def)
  have cases: "(\<forall>y < unat (2 :: u64). \<forall>x < unat (1 :: u64). Q y x) \<longleftrightarrow> Q 0 0 \<and> Q 1 0" for Q
    by (auto simp: less_2_cases_iff)
  obtain s' p where "draw_from_buffer (dispatch_interrupt c v (\<lambda>_. u\<lparr>user_pixels := (\<lambda>_ _. [0xff0000, 0xff])\<rparr>) store interrupt) 0x500000 1 2 zero_registers screen_system =
      Inr ((syscall_registers_for 16 [0x500000, 1, 2] zero_registers)\<lparr>rax := void_register v\<rparr>, s')"
    "terminal s' = (terminal screen_system)\<lparr>pixels := p\<rparr>" "p 0 = 0xff0000" "p 3 = 0xff"
    "\<forall>a. a \<noteq> 0 \<and> a \<noteq> 3 \<longrightarrow> p a = pixels (terminal screen_system) a"
    using gui_draw_reaches_screen [OF irq _ screen(2), of "0x500000" 1 2 "\<lambda>_. u\<lparr>user_pixels := (\<lambda>_ _. [0xff0000, 0xff])\<rparr>" c v store interrupt zero_registers]
    unfolding cases screen(1,4) nr by auto
  then show "\<exists>s' p. draw_from_buffer (dispatch_interrupt c v (\<lambda>_. u\<lparr>user_pixels := (\<lambda>_ _. [0xff0000, 0xff])\<rparr>) store interrupt) 0x500000 1 2 zero_registers screen_system =
      Inr ((syscall_registers_for 16 [0x500000, 1, 2] zero_registers)\<lparr>rax := void_register v\<rparr>, s') \<and>
    terminal s' = (terminal screen_system)\<lparr>pixels := p\<rparr> \<and> p 0 = 0xff0000 \<and> p 3 = 0xff \<and> p 1 = 0"
    using screen(3) by (intro exI [of _ s'] exI [of _ p]) simp
qed

end
