(* ===== verification/Ping.thy ===== *)
theory Ping
  imports Packets
begin

text \<open>
  The program \<open>src/apps/ping.c\<close>, with the echo header of \<open>src/apps/ip_icmp.h\<close>. The functions of the C library it calls are
  not part of the repository: they are a record of operations on a world \<open>'w\<close>, with the results the program looks at. What it prints is a
  value of \<open>ping_message\<close>, one constructor for each call of \<open>printf\<close>.
\<close>

section \<open>The checksum\<close>

text \<open>Unlike the kernel's, it takes a last single byte into the sum.\<close>

fun ping_sum :: "u8 list \<Rightarrow> u32 \<Rightarrow> u32" where
  "ping_sum (a # b # bs) acc = ping_sum bs (acc + ucast (le16 a b))"
| "ping_sum [a] acc = acc + ucast a"
| "ping_sum [] acc = acc"

definition ping_checksum :: "u8 list \<Rightarrow> u16" where
  "ping_checksum b =
     (let acc = ping_sum b 0;
          acc = drop_bit 16 acc + (acc AND 0xffff);
          acc = acc + drop_bit 16 acc
      in ucast (NOT acc))"

section \<open>Packets\<close>

definition PING_PKT_S :: nat where "PING_PKT_S = 64"
definition ICMP_ECHO :: u8 where "ICMP_ECHO = 8"
definition ICMP_ECHOREPLY :: u8 where "ICMP_ECHOREPLY = 0"

text \<open>
  The header of an echo packet is its type, code, checksum, identifier and sequence number; the message behind it is the
  characters from \<open>'0'\<close> on, with a null at the end. The identifier is what \<open>bzero\<close> left.
\<close>

definition ping_message_bytes :: "u8 list" where
  "ping_message_bytes = map (\<lambda>i. of_nat i + 0x30) [0..<PING_PKT_S - 8 - 1] @ [0]"

definition ping_header :: "u16 \<Rightarrow> u16 \<Rightarrow> u8 list" where
  "ping_header checksum seq = [ICMP_ECHO, 0] @ bytes16 checksum @ bytes16 0 @ bytes16 seq"

definition ping_packet :: "int \<Rightarrow> u8 list" where
  "ping_packet msg_count =
     (let pckt = ping_header 0 (word_of_int msg_count) @ ping_message_bytes
      in ping_header (ping_checksum pckt) (word_of_int msg_count) @ ping_message_bytes)"

section \<open>The program\<close>

record sockaddr_in =
  sin_family :: u16
  sin_port :: u16
  s_addr :: u32

record hostent =
  h_addrtype :: int
  h_addr :: "u8 list"

datatype ping_message =
    Resolving
  | Lookup_Failed
  | Trying "u8 list" "u8 list"
  | No_Socket
  | Socket_Received int
  | Sending_Failed
  | Receive_Failed
  | Wrong_Reply u8 u8
  | Reply nat "u8 list" "u8 list" int int

record 'w ping_libc =
  printf_call :: "ping_message \<Rightarrow> 'w \<Rightarrow> 'w"
  usleep :: "nat \<Rightarrow> 'w \<Rightarrow> 'w"
  gethostbyname :: "u8 list \<Rightarrow> 'w \<Rightarrow> hostent option \<times> 'w"
  inet_ntoa :: "u32 \<Rightarrow> u8 list"
  icmp_socket :: "'w \<Rightarrow> int \<times> 'w"
  sendto :: "int \<Rightarrow> u8 list \<Rightarrow> sockaddr_in \<Rightarrow> 'w \<Rightarrow> int \<times> 'w"
  recvfrom :: "int \<Rightarrow> u8 list \<Rightarrow> 'w \<Rightarrow> (int \<times> u8 list) \<times> 'w"

text \<open>The first four bytes of the address are used; the cast to \<open>long\<close> reads eight.\<close>

definition dns_lookup ::
  "'w ping_libc \<Rightarrow> u8 list \<Rightarrow> sockaddr_in \<Rightarrow> 'w \<Rightarrow> u8 list option \<times> sockaddr_in \<times> 'w" where
  "dns_lookup c addr_host addr_con w =
     (case gethostbyname c addr_host (printf_call c Resolving w) of
        (None, w) \<Rightarrow> (None, addr_con, w)
      | (Some host, w) \<Rightarrow> (Some (inet_ntoa c (load32 (h_addr host) 0)),
          \<lparr>sin_family = word_of_int (h_addrtype host), sin_port = bswap16 0, s_addr = load32 (h_addr host) 0\<rparr>, w))"

text \<open>One round of the loop of \<open>send_ping\<close>, and the loop, which nothing ends.\<close>

definition ping_round ::
  "'w ping_libc \<Rightarrow> int \<Rightarrow> sockaddr_in \<Rightarrow> u8 list \<Rightarrow> u8 list \<Rightarrow> int \<times> 'w \<Rightarrow> int \<times> 'w" where
  "ping_round c ping_sockfd ping_addr ping_ip rev_host = (\<lambda>(msg_count, w).
     let pckt = ping_packet msg_count; msg_count = msg_count + 1;
         (sent, w) = sendto c ping_sockfd pckt ping_addr (usleep c 1000000 w);
         (flag, w) = (if sent \<le> 0 then (False, printf_call c Sending_Failed w) else (True, w));
         ((received, pckt), w) = recvfrom c ping_sockfd pckt w
     in if received \<le> 0 \<and> msg_count > 1 then (msg_count, printf_call c Receive_Failed w)
        else if flag then
          (if \<not> (pckt ! 0 = ICMP_ECHOREPLY \<and> pckt ! 1 = 0)
           then (msg_count, printf_call c (Wrong_Reply (pckt ! 0) (pckt ! 1)) w)
           else (msg_count, printf_call c (Reply PING_PKT_S rev_host ping_ip msg_count 64) w))
        else (msg_count, w))"

partial_function (option) ping_loop :: "(int \<times> 'w \<Rightarrow> int \<times> 'w) \<Rightarrow> int \<times> 'w \<Rightarrow> 'w option" where
  "ping_loop round state = ping_loop round (round state)"

declare ping_loop.simps [code]

definition send_ping :: "'w ping_libc \<Rightarrow> int \<Rightarrow> sockaddr_in \<Rightarrow> u8 list \<Rightarrow> u8 list \<Rightarrow> 'w \<Rightarrow> 'w option" where
  "send_ping c ping_sockfd ping_addr ping_ip rev_host w =
     ping_loop (ping_round c ping_sockfd ping_addr ping_ip rev_host) (0, w)"

text \<open>The result is what the program returns, when it does; \<open>junk\<close> is what the address on the stack holds.\<close>

definition ping_main :: "'w ping_libc \<Rightarrow> sockaddr_in \<Rightarrow> 'w \<Rightarrow> (int \<times> 'w) option" where
  "ping_main c junk w =
     (let host = map of_char ''google.com''
      in case dns_lookup c host junk w of
           (None, _, w) \<Rightarrow> Some (0, printf_call c Lookup_Failed w)
         | (Some ip, addr_con, w) \<Rightarrow>
             (let (sockfd, w) = icmp_socket c (printf_call c (Trying host ip) w)
              in if sockfd < 0 then Some (0, printf_call c No_Socket w)
                 else map_option (\<lambda>w. (0, w)) (send_ping c sockfd addr_con ip host (printf_call c (Socket_Received sockfd) w))))"

section \<open>Properties\<close>

lemma ping_loop_never_returns: "ping_loop round state = None"
proof (rule ccontr)
  assume "ping_loop round state \<noteq> None"
  then obtain w where "ping_loop round state = Some w" by blast
  then have False by (rule ping_loop.raw_induct [where P = "\<lambda>_ _ _. False", rotated]) blast
  then show False .
qed

text \<open>A last single byte counts as the low byte of a word.\<close>

definition padded :: "u8 list \<Rightarrow> u8 list" where
  "padded d = (if odd (length d) then d @ [0] else d)"

lemma ping_sum_padded: "ping_sum d acc = checksum_words (padded d) acc"
proof (induction d acc rule: ping_sum.induct)
  case (1 a b bs acc)
  then show ?case by (simp add: padded_def)
next
  case (2 a acc)
  have "ucast (le16 a 0) = (ucast a :: u32)" by (rule bit_word_eqI) (auto simp: le16_def bit_simps dest: bit_imp_le_length)
  then show ?case by (simp add: padded_def)
qed (simp add: padded_def)

text \<open>Adding the carry out of the low half at most once more.\<close>

lemma second_carry:
  assumes "(d :: u32) \<le> 0x1fffe"
  shows "(ucast (NOT (d + drop_bit 16 d)) :: u16) = ucast (NOT (if d > 0xffff then d + 1 else d))"
proof -
  have "unat d \<le> 0x1fffe" using assms by (simp add: word_le_nat_alt)
  then have "unat (drop_bit 16 d) = (if unat d > 0xffff then 1 else 0)"
    by (simp only: unat_drop_bit_eq) (auto simp: drop_bit_eq_div)
  then have "drop_bit 16 d = (if d > 0xffff then 1 else 0)"
    by (auto simp: word_unat_eq_iff word_less_nat_alt)
  then show ?thesis by simp
qed

lemma ping_checksum_padded: "ping_checksum d = get_checksum (padded d)"
proof -
  let ?S = "checksum_words (padded d) 0"
  have "?S AND 0xffff = take_bit 16 ?S" by (simp add: take_bit_eq_mask mask_eq_exp_minus_1)
  moreover have "unat (take_bit 16 ?S) < 2 ^ 16" by (simp only: unsigned_take_bit_eq take_bit_nat_less_exp)
  ultimately have "unat (?S AND 0xffff) \<le> 0xffff" by simp
  moreover have "unat (drop_bit 16 ?S) \<le> 0xffff"
  proof -
    have "unat ?S < 2 ^ 32" using unsigned_less [of ?S, where 'a = nat] by simp
    then show ?thesis by (simp only: unat_drop_bit_eq) (simp add: drop_bit_eq_div)
  qed
  ultimately have "unat (?S AND 0xffff) + unat (drop_bit 16 ?S) \<le> 0x1fffe" by simp
  then have "(?S AND 0xffff) + drop_bit 16 ?S \<le> 0x1fffe"
    by (simp add: word_le_nat_alt unat_word_ariths)
  from second_carry [OF this] show ?thesis
    by (simp add: ping_checksum_def get_checksum_def Let_def ping_sum_padded add.commute)
qed

lemma length_ping_message [simp]: "length ping_message_bytes = 56"
  by (simp add: ping_message_bytes_def PING_PKT_S_def)

lemma ping_packet_stored:
  fixes n :: int
  defines "pckt \<equiv> ping_header 0 (word_of_int n) @ ping_message_bytes"
  shows "ping_packet n = take 2 pckt @ bytes16 (get_checksum pckt) @ drop 4 pckt"
proof -
  have "padded pckt = pckt" by (simp add: padded_def pckt_def ping_header_def bytes16_def)
  then have "ping_checksum pckt = get_checksum pckt" by (simp add: ping_checksum_padded)
  then show ?thesis by (simp add: ping_packet_def pckt_def [symmetric]) (simp add: pckt_def ping_header_def bytes16_def)
qed

text \<open>
  C24: The checksum the program computes is the kernel's, with a zero behind data of odd length, where the
  kernel's leaves the last byte out. Every packet it sends is an echo request of 64 bytes with the
  low half of the number of the round as its sequence number, and the sum over the packet is all ones, so that
  whoever answers it accepts it.
\<close>

theorem ping_requests_valid:
  "ping_checksum d = get_checksum (if odd (length d) then d @ [0] else d) \<and>
   length (ping_packet n) = 64 \<and> ping_packet n ! 0 = ICMP_ECHO \<and> ping_packet n ! 1 = 0 \<and>
   load16 (ping_packet n) 6 = word_of_int n \<and> drop 8 (ping_packet n) = ping_message_bytes \<and>
   oc_sum (words16 (ping_packet n)) = 0xffff"
proof (intro conjI)
  let ?pckt = "ping_header 0 (word_of_int n) @ ping_message_bytes"
  show "ping_checksum d = get_checksum (if odd (length d) then d @ [0] else d)"
    using ping_checksum_padded [of d] by (simp add: padded_def)
  show "oc_sum (words16 (ping_packet n)) = 0xffff"
    using stored_checksum [of ?pckt 2] unfolding ping_packet_stored
    by (simp add: ping_header_def bytes16_def)
qed (simp_all add: ping_packet_def Let_def ping_header_def bytes16_def load16_def)

text \<open>Nothing but a failed look-up or socket ends the program.\<close>

lemma ping_main_returns:
  "ping_main c junk w \<noteq> None \<longleftrightarrow>
     (case dns_lookup c (map of_char ''google.com'') junk w of
        (None, _, _) \<Rightarrow> True
      | (Some ip, _, w) \<Rightarrow> fst (icmp_socket c (printf_call c (Trying (map of_char ''google.com'') ip) w)) < 0)"
  by (auto simp: ping_main_def send_ping_def ping_loop_never_returns Let_def split: option.splits prod.splits)

end
