(* ===== verification/Shell.thy ===== *)
theory Shell
  imports Memory
begin

text \<open>
  The program \<open>src/apps/test.cpp\<close>, a shell with two commands. What it needs of the system is a record of operations on a
  world \<open>'w\<close>: the terminal, the working directory and the entries of directories. The extraction of words from a
  \<open>std::istringstream\<close> is modelled as the language defines it.
\<close>

section \<open>Words of a line\<close>

definition is_space :: "u8 \<Rightarrow> bool" where
  "is_space c \<longleftrightarrow> c \<in> {0x20, 0x09, 0x0a, 0x0b, 0x0c, 0x0d}"

record istream =
  in_rest :: "u8 list"
  in_eof :: bool
  in_fail :: bool

text \<open>
  \<open>iss >> arg\<close> for an empty \<open>arg\<close>: white space is skipped, then characters are taken up to the next. At the
  end of the line nothing is stored and the extraction fails.
\<close>

definition next_word :: "istream \<Rightarrow> u8 list \<times> istream" where
  "next_word s =
     (if in_eof s \<or> in_fail s then ([], s\<lparr>in_fail := True\<rparr>)
      else
        (let r = dropWhile is_space (in_rest s)
         in if r = [] then ([], \<lparr>in_rest = [], in_eof = True, in_fail = True\<rparr>)
            else (takeWhile (\<lambda>c. \<not> is_space c) r,
              \<lparr>in_rest = dropWhile (\<lambda>c. \<not> is_space c) r, in_eof = (dropWhile (\<lambda>c. \<not> is_space c) r = []), in_fail = False\<rparr>)))"

lemma next_word_shorter: "\<not> in_fail (snd (next_word s)) \<Longrightarrow> length (in_rest (snd (next_word s))) < length (in_rest s)"
proof -
  assume ok: "\<not> in_fail (snd (next_word s))"
  let ?r = "dropWhile is_space (in_rest s)"
  have r: "?r \<noteq> []" "in_rest (snd (next_word s)) = dropWhile (\<lambda>c. \<not> is_space c) ?r"
    using ok by (auto simp: next_word_def Let_def split: if_splits)
  then have "\<not> is_space (hd ?r)" using hd_dropWhile by blast
  then have "length (dropWhile (\<lambda>c. \<not> is_space c) ?r) < length ?r"
    using r(1) by (cases ?r) (auto simp: le_imp_less_Suc length_dropWhile_le)
  also have "\<dots> \<le> length (in_rest s)" by (rule length_dropWhile_le)
  finally show ?thesis by (simp add: r(2))
qed

text \<open>The loop that collects the arguments: it goes on while the stream has not failed.\<close>

function collect :: "istream \<Rightarrow> u8 list list \<Rightarrow> u8 list list" where
  "collect iss arguments =
     (if in_fail iss then arguments
      else collect (snd (next_word iss)) (if fst (next_word iss) \<noteq> [] then arguments @ [fst (next_word iss)] else arguments))"
  by pat_completeness auto

termination
  by (relation "measure (\<lambda>(iss, _). if in_fail iss then 0 else Suc (length (in_rest iss)))")
    (auto dest: next_word_shorter)

declare collect.simps [simp del]

definition line_arguments :: "u8 list \<Rightarrow> u8 list list" where
  "line_arguments input = collect \<lparr>in_rest = input, in_eof = False, in_fail = False\<rparr> []"

section \<open>The commands\<close>

record directory_entry =
  entry_type :: u8
  entry_name :: "u8 list"

record 'w shell_libc =
  cout :: "u8 list \<Rightarrow> 'w \<Rightarrow> 'w"
  cerr :: "u8 list \<Rightarrow> 'w \<Rightarrow> 'w"
  getline :: "'w \<Rightarrow> u8 list \<times> 'w"
  getcwd :: "nat \<Rightarrow> 'w \<Rightarrow> u8 list \<times> 'w"
  opendir :: "u8 list \<Rightarrow> 'w \<Rightarrow> nat option \<times> 'w"
  readdir :: "nat \<Rightarrow> 'w \<Rightarrow> directory_entry option \<times> 'w"
  chdir :: "u8 list \<Rightarrow> 'w \<Rightarrow> 'w"
  DT_DIR :: u8
  DT_REG :: u8

partial_function (option) ls_entries :: "'w shell_libc \<Rightarrow> nat \<Rightarrow> 'w \<Rightarrow> 'w option" where
  "ls_entries c directory w =
     (case readdir c directory w of
        (None, w) \<Rightarrow> Some w
      | (Some entry, w) \<Rightarrow> ls_entries c directory
          (if entry_type entry = DT_DIR c then cout c (entry_name entry @ lit ''/'' @ [0x0a]) w
           else if entry_type entry = DT_REG c then cout c (entry_name entry @ [0x0a]) w
           else w))"

declare ls_entries.simps [code]

definition ls :: "'w shell_libc \<Rightarrow> 'w \<Rightarrow> 'w option" where
  "ls c w =
     (case getcwd c 256 w of (cwd, w) \<Rightarrow>
       (case opendir c cwd w of
          (None, w) \<Rightarrow> Some (cerr c (lit ''Unable to open directory'' @ [0x0a]) w)
        | (Some directory, w) \<Rightarrow> ls_entries c directory w))"

text \<open>The path passed on ends at the first null byte.\<close>

definition cd :: "'w shell_libc \<Rightarrow> u8 list list \<Rightarrow> 'w \<Rightarrow> 'w" where
  "cd c arguments w = (if length arguments = 0 then w else chdir c (takeWhile (\<lambda>b. b \<noteq> 0) (arguments ! 0)) w)"

definition run_command :: "'w shell_libc \<Rightarrow> u8 list list \<Rightarrow> 'w \<Rightarrow> 'w option" where
  "run_command c arguments w =
     (if arguments \<noteq> [] then
        (let command = arguments ! 0; cmd_args = drop 1 arguments
         in if command = lit ''ls'' then ls c w
            else if command = lit ''cd'' then Some (cd c cmd_args w)
            else Some (cout c (lit ''Invalid command ('' @ command @ lit '')!'' @ [0x0a]) w))
      else Some w)"

partial_function (option) shell_loop :: "'w shell_libc \<Rightarrow> 'w \<Rightarrow> 'w option" where
  "shell_loop c w =
     (case getline c (cout c (lit ''$ '') w) of (input, w) \<Rightarrow>
        Option.bind (run_command c (line_arguments input) w) (shell_loop c))"

declare shell_loop.simps [code]

definition shell_main :: "'w shell_libc \<Rightarrow> 'w \<Rightarrow> 'w option" where
  "shell_main c w = shell_loop c (cout c ([0x0a] @ lit ''Welcome to UmbraOS!'' @ [0x0a, 0x0a]) w)"

section \<open>Properties\<close>

text \<open>A line of words, each with the white space before it.\<close>

definition spaces_only :: "u8 list \<Rightarrow> bool" where
  "spaces_only cs \<longleftrightarrow> (\<forall>c \<in> set cs. is_space c)"

definition a_word :: "u8 list \<Rightarrow> bool" where
  "a_word cs \<longleftrightarrow> cs \<noteq> [] \<and> (\<forall>c \<in> set cs. \<not> is_space c)"

definition line_of :: "(u8 list \<times> u8 list) list \<Rightarrow> u8 list \<Rightarrow> u8 list" where
  "line_of ps trail = concat (map (\<lambda>(sep, word). sep @ word) ps) @ trail"

lemma line_of_Cons [simp]: "line_of ((sep, word) # ps) trail = sep @ word @ line_of ps trail"
  by (simp add: line_of_def)

lemma line_of_Nil [simp]: "line_of [] trail = trail"
  by (simp add: line_of_def)

lemma skip_spaces: "spaces_only sep \<Longrightarrow> dropWhile is_space (sep @ cs) = dropWhile is_space cs"
  by (simp add: spaces_only_def dropWhile_append2)

text \<open>What comes behind a word starts with white space or is nothing.\<close>

definition word_end :: "u8 list \<Rightarrow> bool" where
  "word_end cs \<longleftrightarrow> cs = [] \<or> is_space (hd cs)"

lemma next_word_found:
  assumes "spaces_only sep" "a_word word" "word_end cs"
  shows "next_word \<lparr>in_rest = sep @ word @ cs, in_eof = False, in_fail = False\<rparr> =
    (word, \<lparr>in_rest = cs, in_eof = (cs = []), in_fail = False\<rparr>)"
proof -
  have "dropWhile is_space (sep @ word @ cs) = word @ cs"
    using assms(1,2) by (cases word) (simp_all add: skip_spaces a_word_def)
  moreover have "takeWhile (\<lambda>c. \<not> is_space c) (word @ cs) = word" "dropWhile (\<lambda>c. \<not> is_space c) (word @ cs) = cs"
    using assms(2,3) by (cases cs; simp add: a_word_def word_end_def takeWhile_append2 dropWhile_append2)+
  ultimately show ?thesis using assms(2) by (simp add: next_word_def a_word_def)
qed

lemma collect_spaces: "spaces_only trail \<Longrightarrow> collect \<lparr>in_rest = trail, in_eof = e, in_fail = False\<rparr> acc = acc"
proof -
  assume t: "spaces_only trail"
  have "dropWhile is_space trail = []" using t by (simp add: spaces_only_def)
  then have "in_fail (snd (next_word \<lparr>in_rest = trail, in_eof = e, in_fail = False\<rparr>))"
    "fst (next_word \<lparr>in_rest = trail, in_eof = e, in_fail = False\<rparr>) = []"
    by (simp_all add: next_word_def)
  then show ?thesis by (subst collect.simps, subst collect.simps) simp
qed

lemma collect_line:
  assumes "\<forall>(sep, word) \<in> set ps. sep \<noteq> [] \<and> spaces_only sep \<and> a_word word" "spaces_only trail"
  shows "collect \<lparr>in_rest = line_of ps trail, in_eof = (line_of ps trail = []), in_fail = False\<rparr> acc = acc @ map snd ps"
  using assms(1)
proof (induction ps arbitrary: acc)
  case Nil
  then show ?case using assms(2) by (simp add: collect_spaces)
next
  case (Cons p ps)
  obtain sep word where p: "p = (sep, word)" by (cases p)
  have sep: "sep \<noteq> []" "spaces_only sep" "a_word word" using Cons.prems p by auto
  have behind: "word_end (line_of ps trail)"
  proof (cases ps)
    case Nil
    then show ?thesis using assms(2) by (cases trail) (auto simp: word_end_def spaces_only_def)
  next
    case (Cons q qs)
    with Cons.prems obtain s w where "q = (s, w)" "s \<noteq> []" "spaces_only s" by (cases q) auto
    then show ?thesis using Cons by (cases s) (auto simp: word_end_def spaces_only_def)
  qed
  have "collect \<lparr>in_rest = line_of (p # ps) trail, in_eof = False, in_fail = False\<rparr> acc =
      collect \<lparr>in_rest = line_of ps trail, in_eof = (line_of ps trail = []), in_fail = False\<rparr> (acc @ [word])"
    using next_word_found [OF sep(2,3) behind] sep(3) by (subst collect.simps) (simp add: p a_word_def)
  also have "\<dots> = acc @ [word] @ map snd ps" using Cons.IH Cons.prems by simp
  finally show ?case using sep(1) p by simp
qed

text \<open>
  The arguments of a line are its words: whatever white space is between them, before the first and
  behind the last, the shell finds exactly the words, in order.
\<close>

lemma line_arguments_words:
  assumes "\<forall>(sep, word) \<in> set ((lead, first) # ps). spaces_only sep \<and> a_word word"
    and "\<forall>(sep, word) \<in> set ps. sep \<noteq> []" "spaces_only trail"
  shows "line_arguments (line_of ((lead, first) # ps) trail) = first # map snd ps"
proof -
  have all: "\<forall>(sep, word) \<in> set ps. sep \<noteq> [] \<and> spaces_only sep \<and> a_word word" using assms(1,2) by fastforce
  have lead: "spaces_only lead" "a_word first" using assms(1) by auto
  have behind: "word_end (line_of ps trail)"
  proof (cases ps)
    case Nil
    then show ?thesis using assms(3) by (cases trail) (auto simp: word_end_def spaces_only_def)
  next
    case (Cons q qs)
    with all obtain s w where "q = (s, w)" "s \<noteq> []" "spaces_only s" by (cases q) auto
    then show ?thesis using Cons by (cases s) (auto simp: word_end_def spaces_only_def)
  qed
  have "line_arguments (line_of ((lead, first) # ps) trail) =
      collect \<lparr>in_rest = line_of ps trail, in_eof = (line_of ps trail = []), in_fail = False\<rparr> [first]"
    using next_word_found [OF lead behind] lead(2) by (subst line_arguments_def, subst collect.simps) (simp add: a_word_def)
  then show ?thesis using collect_line [OF all assms(3)] by simp
qed

end
