(* ===== verification/Cpu_Features.thy ===== *)
theory Cpu_Features
  imports Prelude
begin

text \<open>
  The features of the processor (\<open>src/kernel/cpu_features.cpp\<close>, \<open>cpu_features.hpp\<close>), which nothing in
  the kernel asks for yet. \<open>cpuid\<close> is what \<open>__get_cpuid\<close> of the compiler's \<open>cpuid.h\<close> leaves in the four registers for a
  leaf, or \<open>None\<close> when the processor does not have the leaf: then nothing is stored, and the variable of the caller
  holds what it held.
\<close>

datatype ecx_feature =
    Ecx_SSE3 | Ecx_PCLMUL | Ecx_DTES64 | Ecx_MONITOR | Ecx_DS_CPL | Ecx_VMX | Ecx_SMX | Ecx_EST | Ecx_TM2 | Ecx_SSSE3
  | Ecx_CID | Ecx_SDBG | Ecx_FMA | Ecx_CX16 | Ecx_XTPR | Ecx_PDCM | Ecx_PCID | Ecx_DCA | Ecx_SSE4_1 | Ecx_SSE4_2
  | Ecx_X2APIC | Ecx_MOVBE | Ecx_POPCNT | Ecx_TSC | Ecx_AES | Ecx_XSAVE | Ecx_OSXSAVE | Ecx_AVX | Ecx_F16C
  | Ecx_RDRAND | Ecx_HYPERVISOR

datatype edx_feature =
    Edx_FPU | Edx_VME | Edx_DE | Edx_PSE | Edx_TSC | Edx_MSR | Edx_PAE | Edx_MCE | Edx_CX8 | Edx_APIC | Edx_SEP
  | Edx_MTRR | Edx_PGE | Edx_MCA | Edx_CMOV | Edx_PAT | Edx_PSE36 | Edx_PSN | Edx_CLFLUSH | Edx_DS | Edx_ACPI
  | Edx_MMX | Edx_FXSR | Edx_SSE | Edx_SSE2 | Edx_SS | Edx_HTT | Edx_TM | Edx_IA64 | Edx_PBE

text \<open>The bit of a feature; the value of the enumeration is an \<open>int\<close> with this bit set.\<close>

fun ecx_bit :: "ecx_feature \<Rightarrow> nat" where
  "ecx_bit Ecx_SSE3 = 0" | "ecx_bit Ecx_PCLMUL = 1" | "ecx_bit Ecx_DTES64 = 2" | "ecx_bit Ecx_MONITOR = 3"
| "ecx_bit Ecx_DS_CPL = 4" | "ecx_bit Ecx_VMX = 5" | "ecx_bit Ecx_SMX = 6" | "ecx_bit Ecx_EST = 7"
| "ecx_bit Ecx_TM2 = 8" | "ecx_bit Ecx_SSSE3 = 9" | "ecx_bit Ecx_CID = 10" | "ecx_bit Ecx_SDBG = 11"
| "ecx_bit Ecx_FMA = 12" | "ecx_bit Ecx_CX16 = 13" | "ecx_bit Ecx_XTPR = 14" | "ecx_bit Ecx_PDCM = 15"
| "ecx_bit Ecx_PCID = 17" | "ecx_bit Ecx_DCA = 18" | "ecx_bit Ecx_SSE4_1 = 19" | "ecx_bit Ecx_SSE4_2 = 20"
| "ecx_bit Ecx_X2APIC = 21" | "ecx_bit Ecx_MOVBE = 22" | "ecx_bit Ecx_POPCNT = 23" | "ecx_bit Ecx_TSC = 24"
| "ecx_bit Ecx_AES = 25" | "ecx_bit Ecx_XSAVE = 26" | "ecx_bit Ecx_OSXSAVE = 27" | "ecx_bit Ecx_AVX = 28"
| "ecx_bit Ecx_F16C = 29" | "ecx_bit Ecx_RDRAND = 30" | "ecx_bit Ecx_HYPERVISOR = 31"

fun edx_bit :: "edx_feature \<Rightarrow> nat" where
  "edx_bit Edx_FPU = 0" | "edx_bit Edx_VME = 1" | "edx_bit Edx_DE = 2" | "edx_bit Edx_PSE = 3"
| "edx_bit Edx_TSC = 4" | "edx_bit Edx_MSR = 5" | "edx_bit Edx_PAE = 6" | "edx_bit Edx_MCE = 7"
| "edx_bit Edx_CX8 = 8" | "edx_bit Edx_APIC = 9" | "edx_bit Edx_SEP = 11" | "edx_bit Edx_MTRR = 12"
| "edx_bit Edx_PGE = 13" | "edx_bit Edx_MCA = 14" | "edx_bit Edx_CMOV = 15" | "edx_bit Edx_PAT = 16"
| "edx_bit Edx_PSE36 = 17" | "edx_bit Edx_PSN = 18" | "edx_bit Edx_CLFLUSH = 19" | "edx_bit Edx_DS = 21"
| "edx_bit Edx_ACPI = 22" | "edx_bit Edx_MMX = 23" | "edx_bit Edx_FXSR = 24" | "edx_bit Edx_SSE = 25"
| "edx_bit Edx_SSE2 = 26" | "edx_bit Edx_SS = 27" | "edx_bit Edx_HTT = 28" | "edx_bit Edx_TM = 29"
| "edx_bit Edx_IA64 = 30" | "edx_bit Edx_PBE = 31"

type_synonym cpuid = "u32 \<Rightarrow> (u32 \<times> u32 \<times> u32 \<times> u32) option"

definition has_ecx_feature :: "cpuid \<Rightarrow> u32 \<Rightarrow> ecx_feature \<Rightarrow> bool" where
  "has_ecx_feature get_cpuid junk feature =
     (let ecx = (case get_cpuid 1 of Some (_, _, ecx, _) \<Rightarrow> ecx | None \<Rightarrow> junk)
      in ecx AND push_bit (ecx_bit feature) 1 \<noteq> 0)"

definition has_edx_feature :: "cpuid \<Rightarrow> u32 \<Rightarrow> edx_feature \<Rightarrow> bool" where
  "has_edx_feature get_cpuid junk feature =
     (let edx = (case get_cpuid 1 of Some (_, _, _, edx) \<Rightarrow> edx | None \<Rightarrow> junk)
      in edx AND push_bit (edx_bit feature) 1 \<noteq> 0)"

text \<open>No two features share a bit, every bit is one of the register, and a feature is the bit of it.\<close>

lemma ecx_bit_less: "ecx_bit f < 32"
  by (cases f) simp_all

lemma edx_bit_less: "edx_bit f < 32"
  by (cases f) simp_all

definition ecx_of_bit :: "nat \<Rightarrow> ecx_feature" where
  "ecx_of_bit n = [Ecx_SSE3, Ecx_PCLMUL, Ecx_DTES64, Ecx_MONITOR, Ecx_DS_CPL, Ecx_VMX, Ecx_SMX, Ecx_EST, Ecx_TM2, Ecx_SSSE3,
     Ecx_CID, Ecx_SDBG, Ecx_FMA, Ecx_CX16, Ecx_XTPR, Ecx_PDCM, Ecx_PCID, Ecx_PCID, Ecx_DCA, Ecx_SSE4_1, Ecx_SSE4_2,
     Ecx_X2APIC, Ecx_MOVBE, Ecx_POPCNT, Ecx_TSC, Ecx_AES, Ecx_XSAVE, Ecx_OSXSAVE, Ecx_AVX, Ecx_F16C,
     Ecx_RDRAND, Ecx_HYPERVISOR] ! n"

lemma ecx_of_bit [simp]: "ecx_of_bit (ecx_bit f) = f"
  by (cases f) (simp_all add: ecx_of_bit_def)

lemma ecx_bit_eq_iff: "ecx_bit f = ecx_bit g \<longleftrightarrow> f = g"
  using ecx_of_bit by metis

lemma feature_mask: "n < 32 \<Longrightarrow> (w AND push_bit n 1 \<noteq> 0) = bit (w :: u32) n"
  by (simp only: bit_iff_and_push_bit_not_eq_0)

lemma has_ecx_feature_bit:
  "get_cpuid 1 = Some (a, b, c, d) \<Longrightarrow> has_ecx_feature get_cpuid junk f = bit c (ecx_bit f)"
  using feature_mask [OF ecx_bit_less] by (simp add: has_ecx_feature_def)

lemma has_edx_feature_bit:
  "get_cpuid 1 = Some (a, b, c, d) \<Longrightarrow> has_edx_feature get_cpuid junk f = bit d (edx_bit f)"
  using feature_mask [OF edx_bit_less] by (simp add: has_edx_feature_def)

end
