(* ===== verification/Spec2Isabelle.thy ===== *)
theory Spec2Isabelle
  imports Pmm Ringbuffer Format Linked_List Hashmap Slab_Heap Vmm Vfs_Spec File_Store File_Types Initial_Stack Scheduler_Turns Events_Spec
    Terminal_Spec E1000_Spec Calls_Spec Initramfs_Spec Boot Program_Spec User_Calls Ping Shell Cpu_Features
begin

text \<open>
  Umbra OS is a 64-bit kernel for one processor, written in C++: it boots through the Limine boot loader, manages
  physical and virtual memory, schedules tasks round-robin, keeps its files in memory, drives a
  keyboard, a text terminal and a network card, and serves 25 system calls. This development
  models the kernel under \<open>src/kernel\<close>, the libraries for programs under \<open>src/libs\<close> and the programs under \<open>src/apps\<close>. Every
  definition is executable where the code is, and is named as in the code, with a prefix of
  its component where two components use the same name.

  \<^bold>\<open>State.\<close> The static variables of the components form one record that grows from theory to theory, as
  the components come to depend on each other: \<open>machine\<close> (memory, flags register, the boot
  loader's address offsets; \<open>Spinlock\<close>), \<open>pmm\<close>, \<open>heap\<close>, \<open>vmm\<close>, \<open>bus\<close> (devices; \<open>Io\<close>), \<open>apic\<close>,
  \<open>kernel\<close> (files, tasks, queue; \<open>Task\<close>), \<open>system\<close> (terminal, interrupt handlers, sockets, network
  card), \<open>tables\<close> and \<open>computer\<close> (\<open>Boot\<close>). An operation takes every extension of the part it uses, so
  it can be applied to the state of any later component.

  \<^bold>\<open>Memory and objects.\<close> The allocators, the page tables, the initial stack, the C strings and the rings of the
  network card work on the flat byte memory of 64-bit addresses, with the machine's wrap-around: a
  pointer is a word, and overlapping accesses alias as they do on the machine. Objects made by \<open>new\<close> in
  the higher components (nodes of the file system, descriptors, tasks, sockets, frames, list nodes) are
  entries of a store indexed by their address; deleting removes the entry, and using a removed one
  is a fault. \<open>new\<close> never fails. What newly allocated memory holds is an argument or a field, never
  assumed to be zero.

  \<^bold>\<open>Results.\<close> In the components over the flat memory \<open>None\<close> is a loop that does not end, such as
  acquiring a lock that is held. From \<open>Faults\<close> on an operation returns \<open>fault + 'a\<close>: a null pointer, an access
  outside of an object, an object used after it was deleted, or an endless loop; the error codes of the code are
  ordinary results. No definition uses fuel: loops are structural, have a
  measure, or are \<open>partial_function (option)\<close>, and a property that a call returns says so.

  \<^bold>\<open>Devices and waiting.\<close> What a port, a model-specific register or a register in device memory answers is a
  function of all accesses so far, which the state records. A call that waits for another task takes an argument
  \<open>interrupt\<close>: what happens from the timer interrupt it raises until its task runs again. The pointers a program
  passes are what they point to, read and stored by the arguments \<open>fetch\<close> and \<open>store\<close> of \<open>Dispatch\<close>, because
  the processor follows them through the program's page tables.

  \<^bold>\<open>Theories\<close>, in the order of the components:

    \<^item> \<open>Prelude\<close>, \<open>Memory\<close>: machine words, regions, typed loads and stores, collections of rewrite rules.
    \<^item> \<open>Libc\<close> (\<open>libc/string.cpp\<close>), \<open>Format\<close> (\<open>libc/format.cpp\<close>): the copying functions against buffered copies, the
      string functions on terminated strings, numbers against their positional notation.
    \<^item> \<open>Spinlock\<close> (\<open>lock.cpp\<close>, \<open>int.hpp\<close>): the lock with its saved interrupt flag; locale \<open>lock_field\<close> is the contract of
      a lock that is a field of the state, interpreted for the locks of the page allocator, the slabs and the address spaces.
    \<^item> \<open>Bitmap\<close>, \<open>Pmm\<close> (\<open>utils/bitmap.cpp\<close>, \<open>memory/pmm.cpp\<close>): the page allocator refines a set of used pages; runs of
      operations with other writes in between keep the blocks disjoint.
    \<^item> \<open>Ringbuffer\<close>, \<open>Linked_List\<close>, \<open>Hashmap\<close> (\<open>utils\<close>): contracts as locales \<open>lossy_fifo\<close> and \<open>first_wins_map\<close>, interpreted
      on the code's operations; the linked list's broken back pointers and what is left of its use.
    \<^item> \<open>Slab_Heap\<close> (\<open>memory/heap.cpp\<close>): slabs as linked free lists inside pages; locale \<open>block_pool\<close>, interpreted for every slab size.
    \<^item> \<open>Vmm\<close> (\<open>memory/vmm.cpp\<close>): four levels of page tables in memory refine a map from pages to entries; \<open>Vmm_Range\<close>:
      mapping a range, and the bytes a program finds through its tables; \<open>Mmap_Spec\<close>: what \<open>mmap\<close> gives a program.
    \<^item> \<open>Keyboard\<close> (\<open>drivers/keyboard.cpp\<close>, \<open>libs/core/keyboard.hpp\<close>): scan codes against a decoder of whole key strokes.
    \<^item> \<open>Faults\<close>, \<open>Vfs\<close> (\<open>fs/vfs.cpp\<close>, \<open>fs/tmpfs.cpp\<close>, \<open>drivers/tty.cpp\<close>), with \<open>Vfs_Spec\<close> (the tree), \<open>File_Store\<close>
      (contents; locale \<open>file_store\<close>, interpreted for the memory file system) and \<open>File_Types\<close> (typing of nodes and descriptors).
    \<^item> \<open>Io\<close>, \<open>Apic\<close> (\<open>io.hpp\<close>, \<open>msr.cpp\<close>, \<open>apic.cpp\<close>), \<open>Descriptors\<close> (\<open>gdt.cpp\<close>, \<open>idt.cpp\<close>): ports, interrupt controllers, the tables of
      the processor against the fields the hardware reads.
    \<^item> \<open>Task_List\<close>, \<open>Task\<close>, \<open>Initial_Stack\<close>, \<open>Scheduler\<close>, \<open>Scheduler_Spec\<close>, \<open>Scheduler_Turns\<close> (\<open>scheduler.hpp\<close>, \<open>task.cpp\<close>, \<open>scheduler.cpp\<close>, \<open>timer.cpp\<close>): the queue
      as a cursor in a cyclic list (locale \<open>cyclic_queue\<close>), tasks and the stack they start with, the choice of the next task, and the turns tasks take under the timer.
    \<^item> \<open>Terminal\<close>, \<open>Terminal_Spec\<close> (\<open>terminal.cpp\<close>): formatting and drawing; the frame buffer maps pixel numbers to colours.
    \<^item> \<open>System\<close> (\<open>int.cpp\<close>, \<open>timer.cpp\<close>, \<open>scheduler.hpp\<close>): interrupt dispatch, calibration, blocking, messages; \<open>Events_Spec\<close>: a key from the
      interrupt through the decoder and the queue of tasks to the call that reads it.
    \<^item> \<open>Packets\<close>, \<open>Pci\<close>, \<open>E1000\<close>, \<open>E1000_Spec\<close>, \<open>Net\<close>, \<open>Net_Spec\<close> (\<open>net\<close>, \<open>drivers/pci.cpp\<close>, \<open>drivers/e1000.cpp\<close>, \<open>syscalls/socket.cpp\<close>): the checksum
      against the sum of RFC 1071, the card and the frames its ring holds, sockets, and a datagram from one end to the other.
    \<^item> \<open>Abi\<close>, \<open>File_Calls\<close>, \<open>Calls\<close>, \<open>Calls_Spec\<close>, \<open>Dispatch\<close>, \<open>Dispatch_Spec\<close> (\<open>syscalls\<close>, \<open>libs/core/syscalls.hpp\<close>): the system calls, the table that
      dispatches them, files written and read back by descriptor number, the registers a program gets back.
    \<^item> \<open>Initramfs\<close>, \<open>Initramfs_Spec\<close>, \<open>Elf\<close>, \<open>Elf_Spec\<close>, \<open>Boot\<close> (\<open>fs/initramfs.cpp\<close>, \<open>elf.cpp\<close>, \<open>kernel.cpp\<close>): loading the archive of the boot loader,
      loading programs (\<open>Loader_Spec\<close>, \<open>Program_Spec\<close>: the bytes of the segments from the file to the program's addresses), and the order in which \<open>_start\<close> and \<open>kernel_main\<close> set everything up.
    \<^item> \<open>Cpu_Features\<close> (\<open>cpu_features.cpp\<close>), \<open>User_Calls\<close> (\<open>libs/core/syscalls.hpp\<close>, \<open>libs/gui\<close>), \<open>Ping\<close>, \<open>Shell\<close> (\<open>src/apps\<close>): the
      features of the processor, system calls from the side of a program, with a picture followed from the call to the screen, and the
      two programs, with the echo requests the first sends and the words of a line the second finds.

  \<^bold>\<open>What the lemma groups show.\<close> For the allocators, the queue, the maps and the page tables: an invariant, that each operation
  keeps it, and that the operation refines one on an abstract set, list or map; the properties then speak of
  whole runs. For the conversions, the checksum, the keyboard and the descriptors: agreement with a reference definition
  that is independent of the code's algorithm. For files and datagrams: round trips through every layer in
  between. Where the code does not keep the contract one expects, the property states exactly what it does, with the
  inputs for which this happens; those are listed as findings beside this development.

  \<^bold>\<open>Assumptions.\<close> The values of macros and layouts of structures from headers outside of the repository (\<open>errno.h\<close>, \<open>elf.h\<close>,
  \<open>netinet/in.h\<close>, \<open>limine.h\<close> and others) are arguments: the records \<open>abi\<close>, \<open>auxv_types\<close>, \<open>elf_format\<close>, \<open>boot_info\<close>. Interrupts do not
  occur inside an operation that has them disabled, and the processor's memory accesses are those of a
  sequential program.

  \<^bold>\<open>Not modelled.\<close> The assembly files (saving registers, loading tables); the C
  library the programs under \<open>src/apps\<close> use, which is not part of the repository: its
  functions are arguments of \<open>Ping\<close> and \<open>Shell\<close>; the rest of the third-party
  header \<open>ip_icmp.h\<close>; code in comments and declarations without a definition, such as
  \<open>print_tree\<close>; freeing the strings and arrays of objects in a store, which has no effect
  on what the model observes.
\<close>

end
